(* ===== verification/Prelude.thy ===== *)
theory Prelude
  imports Main "HOL-Library.Word" "HOL-Library.AList"
begin

text \<open>
  Shared vocabulary of the development.  The Go integers keep their width: \<open>uint64\<close> is
  \<open>64 word\<close>, \<open>uint32\<close> is \<open>32 word\<close>, a byte is \<open>8 word\<close>, a \<open>common.Hash\<close> is
  \<open>256 word\<close>.  A Go run-time panic is a value of \<open>go_panic\<close>, so a function that may panic
  returns \<open>go_panic + 'a\<close>.  A Go map is an association list with distinct keys: its order
  is the (unspecified) iteration order of \<open>range\<close>, and every statement of the development
  quantifies over it.  The locale \<open>go_map_spec\<close> is the interface the components rely on; it is
  interpreted on the association-list operations.
\<close>

unbundle bit_operations_syntax

section \<open>Types\<close>

type_synonym u8 = "8 word"
type_synonym u32 = "32 word"
type_synonym u64 = "64 word"
type_synonym hash = "256 word"
type_synonym bytes = "8 word list"

datatype go_panic = IndexOutOfRange | SliceOutOfRange | NilDeref | NilMapWrite | DivideByZero
  | Explicit string

type_synonym 'a go = "go_panic + 'a"

abbreviation MaxUint64 :: u64 where "MaxUint64 \<equiv> - 1"
abbreviation MaxUint32 :: u32 where "MaxUint32 \<equiv> - 1"

named_theorems go_simps \<open>unfolding rules for the Go run-time helpers\<close>
named_theorems map_laws \<open>lookup, length and well-formedness laws of Go maps\<close>

section \<open>Go run-time helpers\<close>

text \<open>Reading a slice element, \<open>copy(dst, src)\<close>, and sequencing of calls that may panic.\<close>

definition go_index :: "'a list \<Rightarrow> nat \<Rightarrow> 'a go" where
  "go_index xs i = (if i < length xs then Inr (xs ! i) else Inl IndexOutOfRange)"

definition go_copy :: "'a list \<Rightarrow> 'a list \<Rightarrow> 'a list" where
  "go_copy dst src = take (length dst) src @ drop (length src) dst"

definition go_bind :: "'e + 'a \<Rightarrow> ('a \<Rightarrow> 'e + 'b) \<Rightarrow> 'e + 'b" where
  "go_bind m f = (case m of Inl e \<Rightarrow> Inl e | Inr x \<Rightarrow> f x)"

definition go_map :: "('a \<Rightarrow> 'b) \<Rightarrow> 'e + 'a \<Rightarrow> 'e + 'b" where
  "go_map f m = (case m of Inl e \<Rightarrow> Inl e | Inr x \<Rightarrow> Inr (f x))"

definition go_deref :: "'a option \<Rightarrow> 'a go" where
  "go_deref p = (case p of None \<Rightarrow> Inl NilDeref | Some x \<Rightarrow> Inr x)"

definition isInr :: "'e + 'a \<Rightarrow> bool" where
  "isInr m = (case m of Inl _ \<Rightarrow> False | Inr _ \<Rightarrow> True)"

text \<open>A loop whose body may panic.\<close>

fun go_fold :: "('a \<Rightarrow> 's \<Rightarrow> 'e + 's) \<Rightarrow> 'a list \<Rightarrow> 's \<Rightarrow> 'e + 's" where
  "go_fold f [] s = Inr s"
| "go_fold f (x # xs) s = go_bind (f x s) (go_fold f xs)"

text \<open>\<open>for i := uint32(0); i < n; i++\<close>\<close>

definition range_u32 :: "u32 \<Rightarrow> u32 list" where
  "range_u32 n = map word_of_nat [0..<unat n]"

lemma go_bind_simps [simp, go_simps]:
  "go_bind (Inl e) f = Inl e" "go_bind (Inr x) f = f x"
  by (simp_all add: go_bind_def)

lemma go_map_simps [simp, go_simps]:
  "go_map f (Inl e) = Inl e" "go_map f (Inr x) = Inr (f x)"
  by (simp_all add: go_map_def)

lemma go_deref_simps [simp, go_simps]:
  "go_deref None = Inl NilDeref" "go_deref (Some x) = Inr x"
  by (simp_all add: go_deref_def)

lemma go_deref_eq_Inr [simp]: "go_deref p = Inr x \<longleftrightarrow> p = Some x"
  by (cases p) simp_all

lemma isInr_simps [simp]: "\<not> isInr (Inl e)" "isInr (Inr x)"
  by (simp_all add: isInr_def)

lemma go_index_in [simp]: "i < length xs \<Longrightarrow> go_index xs i = Inr (xs ! i)"
  by (simp add: go_index_def)

lemma go_index_out [simp]: "\<not> i < length xs \<Longrightarrow> go_index xs i = Inl IndexOutOfRange"
  by (simp add: go_index_def)

lemma go_bind_eq_Inr: "go_bind m f = Inr y \<longleftrightarrow> (\<exists>x. m = Inr x \<and> f x = Inr y)"
  by (cases m) simp_all

lemma go_bind_eq_Inl: "go_bind m f = Inl e \<longleftrightarrow> m = Inl e \<or> (\<exists>x. m = Inr x \<and> f x = Inl e)"
  by (cases m) simp_all

lemma go_map_eq_Inr: "go_map f m = Inr y \<longleftrightarrow> (\<exists>x. m = Inr x \<and> y = f x)"
  by (cases m) auto

lemma length_go_copy [simp]: "length (go_copy dst src) = length dst"
  by (simp add: go_copy_def)

lemma nth_go_copy:
  "i < length dst \<Longrightarrow> go_copy dst src ! i = (if i < length src then src ! i else dst ! i)"
  by (auto simp: go_copy_def nth_append min_def)

lemma go_copy_same_length: "length dst = length src \<Longrightarrow> go_copy dst src = src"
  by (simp add: go_copy_def)

lemma go_fold_append: "go_fold f (xs @ ys) s = go_bind (go_fold f xs s) (go_fold f ys)"
  by (induction xs arbitrary: s) (auto simp: go_bind_def split: sum.splits)

text \<open>A loop that never panics under an invariant is a pure fold.\<close>

lemma go_fold_pure:
  assumes "\<And>x s. x \<in> set xs \<Longrightarrow> I s \<Longrightarrow> f x s = Inr (g x s) \<and> I (g x s)" and "I s"
  shows "go_fold f xs s = Inr (fold g xs s) \<and> I (fold g xs s)"
  using assms by (induction xs arbitrary: s) auto

section \<open>What holds of a result if there is one\<close>

text \<open>\<open>go_post P m\<close> states \<open>P\<close> of the value of \<open>m\<close> unless \<open>m\<close> panics.  The rules follow the shape
  of the code, so a handler is verified by simplification.\<close>

definition go_post :: "('a \<Rightarrow> bool) \<Rightarrow> 'e + 'a \<Rightarrow> bool" where
  "go_post P m = (case m of Inl _ \<Rightarrow> True | Inr x \<Rightarrow> P x)"

lemma go_post_simps [simp]: "go_post P (Inl e)" "go_post P (Inr x) = P x"
  by (simp_all add: go_post_def)

lemma go_post_bind [simp]: "go_post P (go_bind m f) = go_post (\<lambda>x. go_post P (f x)) m"
  by (cases m) simp_all

lemma go_post_map [simp]: "go_post P (go_map f m) = go_post (\<lambda>x. P (f x)) m"
  by (cases m) simp_all

lemma go_post_mono: "go_post P m \<Longrightarrow> (\<And>x. m = Inr x \<Longrightarrow> P x \<Longrightarrow> Q x) \<Longrightarrow> go_post Q m"
  by (cases m) simp_all

lemma go_postI: "(\<And>x. m = Inr x \<Longrightarrow> P x) \<Longrightarrow> go_post P m"
  by (cases m) simp_all

lemma go_postD: "go_post P m \<Longrightarrow> m = Inr x \<Longrightarrow> P x"
  by simp

lemma go_post_True [simp]: "go_post (\<lambda>_. True) m"
  by (cases m) simp_all

lemma go_post_conj: "go_post (\<lambda>x. P x \<and> Q x) m \<longleftrightarrow> go_post P m \<and> go_post Q m"
  by (cases m) simp_all

lemma go_post_deref: "go_post P (go_deref p) \<longleftrightarrow> (\<forall>x. p = Some x \<longrightarrow> P x)"
  by (cases p) (simp_all add: go_deref_def)

lemma go_post_fold:
  assumes "I s" "\<And>x s. x \<in> set xs \<Longrightarrow> I s \<Longrightarrow> go_post I (f x s)"
  shows "go_post I (go_fold f xs s)"
  using assms
proof (induction xs arbitrary: s)
  case (Cons x xs)
  have "go_post I (f x s)" using Cons.prems by simp
  then show ?case using Cons.IH Cons.prems(2) by (auto elim!: go_post_mono)
qed simp

section \<open>Go maps\<close>

type_synonym ('k, 'v) gomap = "('k \<times> 'v) list"

definition gget :: "('k, 'v) gomap \<Rightarrow> 'k \<Rightarrow> 'v option" where
  "gget m k = map_of m k"

definition gset :: "'k \<Rightarrow> 'v \<Rightarrow> ('k, 'v) gomap \<Rightarrow> ('k, 'v) gomap" where
  "gset k v m = AList.update k v m"

definition gdel :: "'k \<Rightarrow> ('k, 'v) gomap \<Rightarrow> ('k, 'v) gomap" where
  "gdel k m = AList.delete k m"

definition gwf :: "('k, 'v) gomap \<Rightarrow> bool" where
  "gwf m = distinct (map fst m)"

abbreviation gkeys :: "('k, 'v) gomap \<Rightarrow> 'k set" where
  "gkeys m \<equiv> fst ` set m"

abbreviation gvals :: "('k, 'v) gomap \<Rightarrow> 'v list" where
  "gvals m \<equiv> map snd m"

text \<open>The contract of a finite map as the Go code uses it.\<close>

locale go_map_spec =
  fixes empty :: "'m"
    and get :: "'m \<Rightarrow> 'k \<Rightarrow> 'v option"
    and put :: "'k \<Rightarrow> 'v \<Rightarrow> 'm \<Rightarrow> 'm"
    and del :: "'k \<Rightarrow> 'm \<Rightarrow> 'm"
    and len :: "'m \<Rightarrow> nat"
    and wf :: "'m \<Rightarrow> bool"
  assumes get_empty: "get empty k = None"
    and get_put: "get (put k v m) k' = (if k' = k then Some v else get m k')"
    and get_del: "get (del k m) k' = (if k' = k then None else get m k')"
    and wf_empty: "wf empty"
    and wf_put: "wf m \<Longrightarrow> wf (put k v m)"
    and wf_del: "wf m \<Longrightarrow> wf (del k m)"
    and finite_dom: "finite (dom (get m))"
    and len_card: "wf m \<Longrightarrow> len m = card (dom (get m))"
begin

lemma dom_put: "dom (get (put k v m)) = insert k (dom (get m))"
  by (auto simp: get_put)

lemma dom_del: "dom (get (del k m)) = dom (get m) - {k}"
  by (auto simp: get_del dom_def split: if_splits)

lemma len_put: "wf m \<Longrightarrow> len (put k v m) = (if get m k = None then Suc (len m) else len m)"
  using len_card [OF wf_put, of m k v] len_card [of m] finite_dom [of m]
  by (simp add: dom_put card_insert_if domIff)

lemma len_del: "wf m \<Longrightarrow> len (del k m) = (if get m k = None then len m else len m - 1)"
  using len_card [OF wf_del, of m k] len_card [of m] finite_dom [of m]
  by (simp add: dom_del card_Diff_singleton_if domIff)

lemma len_del_absent: "wf m \<Longrightarrow> get m k = None \<Longrightarrow> len (del k m) = len m"
  by (simp add: len_del)

lemma len_put_le: "wf m \<Longrightarrow> len (put k v m) \<le> Suc (len m)"
  by (simp add: len_put)

lemma len_empty: "len empty = 0"
  using len_card [OF wf_empty] by (simp add: dom_def get_empty)

lemma put_grows_dom: "dom (get m) \<subseteq> dom (get (put k v m))"
  by (auto simp: dom_put)

end

lemma gget_gset: "gget (gset k v m) k' = (if k' = k then Some v else gget m k')"
  by (simp add: gget_def gset_def update_conv')

lemma gget_gdel: "gget (gdel k m) k' = (if k' = k then None else gget m k')"
  by (simp add: gget_def gdel_def delete_conv')

lemma gwf_gset: "gwf m \<Longrightarrow> gwf (gset k v m)"
  by (simp add: gwf_def gset_def distinct_update)

lemma gwf_gdel: "gwf m \<Longrightarrow> gwf (gdel k m)"
  by (simp add: gwf_def gdel_def distinct_delete)

lemma dom_gget: "dom (gget m) = gkeys m"
  unfolding gget_def by (rule dom_map_of_conv_image_fst)

lemma length_gomap: "gwf m \<Longrightarrow> length m = card (dom (gget m))"
  using distinct_card [of "map fst m"] by (simp add: gwf_def dom_gget)

interpretation am: go_map_spec "[]" gget gset gdel length gwf
  by unfold_locales
    (simp_all add: gget_gset gget_gdel gwf_gset gwf_gdel length_gomap dom_gget gget_def [of "[]"]
      gwf_def [of "[]"])

lemmas [simp, map_laws] = am.get_empty am.get_put am.get_del
lemmas [simp, intro, map_laws] = am.wf_empty am.wf_put am.wf_del

lemma gget_in_set: "gget m k = Some v \<Longrightarrow> (k, v) \<in> set m"
  by (simp add: gget_def map_of_SomeD)

lemma gget_if_in_set: "gwf m \<Longrightarrow> (k, v) \<in> set m \<Longrightarrow> gget m k = Some v"
  by (simp add: gget_def gwf_def)

lemma set_gset_subset: "set (gset k v m) \<subseteq> insert (k, v) (set m)"
  unfolding gset_def by (induction m) auto

lemma gwf_set_gset: "gwf m \<Longrightarrow> set (gset k v m) = insert (k, v) {p \<in> set m. fst p \<noteq> k}"
  unfolding gset_def gwf_def by (induction m) (auto, force)

lemma set_gdel: "set (gdel k m) = {p \<in> set m. fst p \<noteq> k}"
  unfolding gdel_def by (induction m) auto

lemma gget_None_iff: "gget m k = None \<longleftrightarrow> k \<notin> gkeys m"
  by (simp add: gget_def map_of_eq_None_iff)

section \<open>Folds over a map that look for a first match\<close>

fun first_match :: "('a \<Rightarrow> bool) \<Rightarrow> 'a list \<Rightarrow> 'a option" where
  "first_match P [] = None"
| "first_match P (x # xs) = (if P x then Some x else first_match P xs)"

lemma first_match_Some: "first_match P xs = Some x \<Longrightarrow> x \<in> set xs \<and> P x"
  by (induction xs) (auto split: if_splits)

lemma first_match_None: "first_match P xs = None \<longleftrightarrow> (\<forall>x\<in>set xs. \<not> P x)"
  by (induction xs) auto

lemma first_match_key:
  "map_option snd (first_match (\<lambda>p. fst p = k) m) = gget m k"
  unfolding gget_def by (induction m) auto

section \<open>Words\<close>

lemma word_gt_0_iff_bit: "(0 < (e AND push_bit n 1 :: 'a::len word)) \<longleftrightarrow> bit e n"
  by (simp add: word_gt_0 bit_iff_and_push_bit_not_eq_0)

lemma word_and_exp_gt_0: "(0 < (e AND 2 ^ n :: 'a::len word)) \<longleftrightarrow> bit e n"
  using word_gt_0_iff_bit [of e n] by simp

lemma unat_Suc_if: "unat x < 2 ^ LENGTH('a) - 1 \<Longrightarrow> unat (x + 1 :: 'a::len word) = Suc (unat x)"
  by (metis One_nat_def Suc_eq_plus1 add.commute less_diff_conv unat_1 unat_add_lem)

lemma u64_plus_1:
  assumes "x \<noteq> MaxUint64"
  shows "unat (x + 1 :: u64) = Suc (unat x)"
proof -
  have "unat x \<noteq> unat (MaxUint64)" using assms by (simp only: word_unat_eq_iff) simp
  moreover have "unat (MaxUint64) = 2 ^ 64 - 1" by (simp add: unsigned_minus_1_eq_mask mask_eq_exp_minus_1)
  ultimately have "unat x < 2 ^ 64 - 1" using unsigned_less [of x, where 'a = nat] by simp
  then show ?thesis by (intro unat_Suc_if) simp
qed

lemma u64_less_plus_1: "x \<noteq> MaxUint64 \<Longrightarrow> x < (x + 1 :: u64)"
  using u64_plus_1 [of x] by (simp add: word_less_nat_alt)

section \<open>Hashes as bytes\<close>

text \<open>\<open>common.BytesToHash\<close> keeps the last 32 bytes and pads on the left.\<close>

definition BytesToHash :: "bytes \<Rightarrow> bytes" where
  "BytesToHash b = (let b = drop (length b - 32) b in replicate (32 - length b) 0 @ b)"

lemma length_BytesToHash: "length (BytesToHash b) = 32"
  by (simp add: BytesToHash_def Let_def)

lemma BytesToHash_32: "length b = 32 \<Longrightarrow> BytesToHash b = b"
  by (simp add: BytesToHash_def)

end
