(* ===== verification/Bit_Array.thy ===== *)
theory Bit_Array
  imports Prelude
begin

text \<open>
  The signer bit set of quorum certificates: \<open>consensus/pbft/utils/bit_array.go\<close>.  A nil
  \<open>*BitArray\<close> is \<open>None\<close>.  Elements are 64-bit words; an index into \<open>Elems\<close> out of range
  panics, as in Go.  \<open>ba_bits\<close> is the abstract set of members; \<open>wf_ba\<close> is the shape that
  \<open>NewBitArray\<close> establishes, \<open>clean_ba\<close> says that no bit is set behind \<open>Bits\<close>.
\<close>

section \<open>Model\<close>

record bitArray =
  Bits :: u32
  Elems :: "u64 list"

definition NewBitArray :: "u32 \<Rightarrow> bitArray option" where
  "NewBitArray bits =
     (if bits \<le> 0 then None
      else Some \<lparr>Bits = bits, Elems = replicate (unat ((bits + 63) div 64)) 0\<rparr>)"

definition Size :: "bitArray option \<Rightarrow> u32" where
  "Size p = (case p of None \<Rightarrow> 0 | Some bA \<Rightarrow> Bits bA)"

definition getIndex :: "bitArray \<Rightarrow> u32 \<Rightarrow> bool go" where
  "getIndex bA i =
     (if i \<ge> Bits bA then Inr False
      else go_bind (go_index (Elems bA) (unat (i div 64)))
             (\<lambda>e. Inr ((e AND push_bit (unat (i mod 64)) 1) > 0)))"

definition GetIndex :: "bitArray option \<Rightarrow> u32 \<Rightarrow> bool go" where
  "GetIndex p i = (case p of None \<Rightarrow> Inr False | Some bA \<Rightarrow> getIndex bA i)"

definition setIndex :: "bitArray \<Rightarrow> u32 \<Rightarrow> bool \<Rightarrow> (bitArray \<times> bool) go" where
  "setIndex bA i v =
     (if i \<ge> Bits bA then Inr (bA, False)
      else let k = unat (i div 64); m = push_bit (unat (i mod 64)) (1 :: u64)
           in go_bind (go_index (Elems bA) k)
                (\<lambda>e. Inr (bA\<lparr>Elems := (Elems bA)[k := (if v then e OR m else e AND NOT m)]\<rparr>, True)))"

definition SetIndex :: "bitArray option \<Rightarrow> u32 \<Rightarrow> bool \<Rightarrow> (bitArray option \<times> bool) go" where
  "SetIndex p i v =
     (case p of None \<Rightarrow> Inr (None, False)
      | Some bA \<Rightarrow> go_map (\<lambda>(bA', ok). (Some bA', ok)) (setIndex bA i v))"

definition copy_ba :: "bitArray \<Rightarrow> bitArray" where
  "copy_ba bA = \<lparr>Bits = Bits bA, Elems = go_copy (replicate (length (Elems bA)) 0) (Elems bA)\<rparr>"

definition Copy_ba :: "bitArray option \<Rightarrow> bitArray option" where
  "Copy_ba p = (case p of None \<Rightarrow> None | Some bA \<Rightarrow> Some (copy_ba bA))"

definition copyBits :: "bitArray \<Rightarrow> u32 \<Rightarrow> bitArray" where
  "copyBits bA bits =
     \<lparr>Bits = bits, Elems = go_copy (replicate (unat ((bits + 63) div 64)) 0) (Elems bA)\<rparr>"

definition MaxUInt :: "u32 \<Rightarrow> u32 \<Rightarrow> u32" where
  "MaxUInt a b = (if a > b then a else b)"

definition MinUInt :: "u32 \<Rightarrow> u32 \<Rightarrow> u32" where
  "MinUInt a b = (if a < b then a else b)"

definition MinInt :: "nat \<Rightarrow> nat \<Rightarrow> nat" where
  "MinInt a b = (if a < b then a else b)"

text \<open>\<open>for i := 0; i < n; i++ { c.Elems[i] = f(c.Elems[i], o.Elems[i]) }\<close>\<close>

definition zip_loop :: "(u64 \<Rightarrow> u64 \<Rightarrow> u64) \<Rightarrow> nat \<Rightarrow> u64 list \<Rightarrow> u64 list \<Rightarrow> u64 list go" where
  "zip_loop f n c os =
     go_fold (\<lambda>i c. go_bind (go_index c i) (\<lambda>x. go_bind (go_index os i) (\<lambda>y. Inr (c[i := f x y]))))
       [0..<n] c"

definition Or_ba :: "bitArray option \<Rightarrow> bitArray option \<Rightarrow> bitArray option go" where
  "Or_ba p q =
     (case p of
        None \<Rightarrow> (case q of None \<Rightarrow> Inr None | Some b \<Rightarrow> Inr (Copy_ba (Some b)))
      | Some a \<Rightarrow>
          (case q of None \<Rightarrow> Inr (Copy_ba (Some a))
           | Some b \<Rightarrow>
               (let c = copyBits a (MaxUInt (Bits a) (Bits b));
                    smaller = MinInt (length (Elems a)) (length (Elems b))
                in go_map (\<lambda>es. Some (c\<lparr>Elems := es\<rparr>))
                     (zip_loop (\<lambda>x y. x OR y) smaller (Elems c) (Elems b)))))"

definition and_ba :: "bitArray \<Rightarrow> bitArray \<Rightarrow> bitArray go" where
  "and_ba a b =
     (let c = copyBits a (MinUInt (Bits a) (Bits b))
      in go_map (\<lambda>es. c\<lparr>Elems := es\<rparr>) (zip_loop (\<lambda>x y. x AND y) (length (Elems c)) (Elems c) (Elems b)))"

definition And_ba :: "bitArray option \<Rightarrow> bitArray option \<Rightarrow> bitArray option go" where
  "And_ba p q =
     (case p of None \<Rightarrow> Inr None
      | Some a \<Rightarrow> (case q of None \<Rightarrow> Inr None | Some b \<Rightarrow> go_map Some (and_ba a b)))"

definition not_ba :: "bitArray \<Rightarrow> bitArray" where
  "not_ba bA = (let c = copy_ba bA in c\<lparr>Elems := map (\<lambda>e. NOT e) (Elems c)\<rparr>)"

definition Not_ba :: "bitArray option \<Rightarrow> bitArray option" where
  "Not_ba p = (case p of None \<Rightarrow> None | Some bA \<Rightarrow> Some (not_ba bA))"

definition Sub_ba :: "bitArray option \<Rightarrow> bitArray option \<Rightarrow> bitArray option go" where
  "Sub_ba p q =
     (case p of None \<Rightarrow> Inr None
      | Some a \<Rightarrow>
          (case q of None \<Rightarrow> Inr None
           | Some b \<Rightarrow>
               (let c = copyBits a (Bits a);
                    smaller = MinInt (length (Elems a)) (length (Elems b))
                in go_map (\<lambda>es. Some (c\<lparr>Elems := es\<rparr>))
                     (zip_loop (\<lambda>x y. x AND NOT y) smaller (Elems c) (Elems b)))))"

definition IsEmpty_ba :: "bitArray option \<Rightarrow> bool" where
  "IsEmpty_ba p = (case p of None \<Rightarrow> True | Some bA \<Rightarrow> list_all (\<lambda>e. \<not> e > 0) (Elems bA))"

definition IsFull :: "bitArray option \<Rightarrow> bool go" where
  "IsFull p =
     (case p of None \<Rightarrow> Inr True
      | Some bA \<Rightarrow>
          (if Elems bA = [] then Inl SliceOutOfRange
           else if \<not> list_all (\<lambda>e. NOT e = 0) (butlast (Elems bA)) then Inr False
           else let lastElemBits = (Bits bA + 63) mod 64 + 1; lastElem = last (Elems bA)
                in Inr ((lastElem + 1) AND (push_bit (unat lastElemBits) 1 - 1) = 0)))"

text \<open>\<open>getTrueIndices\<close>: the whole words first, then the bits of the last word.\<close>

fun scan_bits :: "u64 \<Rightarrow> nat list \<Rightarrow> u32 \<Rightarrow> u32 list \<Rightarrow> u32 list \<times> u32" where
  "scan_bits e [] curBit acc = (acc, curBit)"
| "scan_bits e (j # js) curBit acc =
     scan_bits e js (curBit + 1) (if (e AND push_bit j 1) > 0 then acc @ [curBit] else acc)"

fun scan_elems :: "u64 list \<Rightarrow> u32 \<Rightarrow> u32 list \<Rightarrow> u32 list \<times> u32" where
  "scan_elems [] curBit acc = (acc, curBit)"
| "scan_elems (e # es) curBit acc =
     (if e = 0 then scan_elems es (curBit + 64) acc
      else let (acc', curBit') = scan_bits e [0..<64] curBit acc in scan_elems es curBit' acc')"

definition getTrueIndices :: "bitArray \<Rightarrow> u32 list go" where
  "getTrueIndices bA =
     (let (acc, curBit) = scan_elems (butlast (Elems bA)) 0 []
      in if Elems bA = [] then Inl IndexOutOfRange
         else let numFinalBits = Bits bA - curBit
              in Inr (fst (scan_bits (last (Elems bA)) [0..<unat numFinalBits] curBit acc)))"

text \<open>\<open>PickRandom\<close>: the random draw is the argument \<open>rand\<close>, the value of \<open>RandIntn(n)\<close>.\<close>

definition PickRandom :: "(nat \<Rightarrow> nat) \<Rightarrow> bitArray option \<Rightarrow> (u32 \<times> bool) go" where
  "PickRandom rand p =
     (case p of None \<Rightarrow> Inr (0, False)
      | Some bA \<Rightarrow>
          go_bind (getTrueIndices bA)
            (\<lambda>is. if length is = 0 then Inr (0, False)
                  else go_map (\<lambda>x. (x, True)) (go_index is (rand (length is)))))"

definition le_bytes :: "u64 \<Rightarrow> bytes" where
  "le_bytes e = map (\<lambda>k. ucast (drop_bit (8 * k) e)) [0..<8]"

text \<open>\<open>copy(bytes[i*8:], elemBytes[:])\<close> panics when \<open>i*8\<close> exceeds the length.\<close>

definition copy_at :: "nat \<Rightarrow> bytes \<Rightarrow> bytes \<Rightarrow> bytes go" where
  "copy_at k src dst =
     (if k > length dst then Inl SliceOutOfRange
      else Inr (take k dst @ go_copy (drop k dst) src))"

definition Bytes_ba :: "bitArray \<Rightarrow> bytes go" where
  "Bytes_ba bA =
     go_fold (\<lambda>i bs. go_bind (go_index (Elems bA) i) (\<lambda>e. copy_at (i * 8) (le_bytes e) bs))
       [0..<length (Elems bA)] (replicate (unat ((Bits bA + 7) div 8)) 0)"

definition Update_ba :: "bitArray option \<Rightarrow> bitArray option \<Rightarrow> bitArray option" where
  "Update_ba p q =
     (case p of None \<Rightarrow> None
      | Some a \<Rightarrow> (case q of None \<Rightarrow> Some a
                   | Some b \<Rightarrow> Some (a\<lparr>Elems := go_copy (Elems a) (Elems b)\<rparr>)))"

abbreviation quote :: char where "quote \<equiv> CHR 0x22"

definition MarshalJSON_ba :: "bitArray option \<Rightarrow> string go" where
  "MarshalJSON_ba p =
     (case p of None \<Rightarrow> Inr ''null''
      | Some bA \<Rightarrow>
          go_map (\<lambda>s. s @ [quote])
            (go_fold (\<lambda>i s. go_map (\<lambda>b. s @ [if b then CHR ''x'' else CHR ''_'']) (getIndex bA i))
               (range_u32 (Bits bA)) [quote]))"

text \<open>The regular expression \<open>\A"([_x]*)"\z\<close> with its one submatch.\<close>

definition bitArrayJSONRegexp :: "string \<Rightarrow> string option" where
  "bitArrayJSONRegexp b =
     (if 2 \<le> length b \<and> hd b = quote \<and> last b = quote
         \<and> list_all (\<lambda>c. c = CHR ''_'' \<or> c = CHR ''x'') (butlast (tl b))
      then Some (butlast (tl b)) else None)"

text \<open>The result is the new receiver; \<open>Inl ()\<close> is the format error, which keeps it.\<close>

definition UnmarshalJSON_ba :: "string \<Rightarrow> (unit + bitArray) go" where
  "UnmarshalJSON_ba b =
     (if b = ''null'' then Inr (Inr \<lparr>Bits = 0, Elems = []\<rparr>)
      else case bitArrayJSONRegexp b of
          None \<Rightarrow> Inr (Inl ())
        | Some bits \<Rightarrow>
            (let numBits = word_of_nat (length bits) :: u32
             in go_bind
                  (go_fold (\<lambda>i p. go_bind (go_index bits (unat i))
                       (\<lambda>c. if c = CHR ''x'' then go_map fst (SetIndex p i True) else Inr p))
                     (range_u32 numBits) (NewBitArray numBits))
                  (\<lambda>p. go_map Inr (go_deref p))))"

section \<open>Abstraction and invariant\<close>

definition ba_bits :: "bitArray \<Rightarrow> nat set" where
  "ba_bits bA = {i. i < unat (Bits bA) \<and> bit (Elems bA ! (i div 64)) (i mod 64)}"

definition wf_ba :: "bitArray \<Rightarrow> bool" where
  "wf_ba bA \<longleftrightarrow> 0 < unat (Bits bA) \<and> unat (Bits bA) + 63 < 2 ^ 32
     \<and> length (Elems bA) = (unat (Bits bA) + 63) div 64"

definition clean_ba :: "bitArray \<Rightarrow> bool" where
  "clean_ba bA \<longleftrightarrow>
     (\<forall>i. unat (Bits bA) \<le> i \<and> i < 64 * length (Elems bA) \<longrightarrow> \<not> bit (Elems bA ! (i div 64)) (i mod 64))"

section \<open>Indexing\<close>

lemma unat_div_64 [simp]: "unat (i div 64 :: u32) = unat i div 64"
  by (simp add: unat_div)

lemma unat_mod_64 [simp]: "unat (i mod 64 :: u32) = unat i mod 64"
  by (simp add: unat_mod)

lemma words_needed:
  "unat bits + 63 < 2 ^ 32 \<Longrightarrow> unat ((bits + 63) div 64 :: u32) = (unat bits + 63) div 64"
proof -
  assume a: "unat bits + 63 < 2 ^ 32"
  have "unat (bits + 63) = unat bits + unat (63 :: u32)"
    by (rule iffD1 [OF unat_add_lem]) (use a in simp)
  then show ?thesis unfolding unat_div_64 by simp
qed

lemma div_64_bound: "i < n \<Longrightarrow> i div 64 < (n + 63) div (64 :: nat)"
proof -
  assume "i < n"
  then have "(i + 64) div 64 \<le> (n + 63) div 64" by (intro div_le_mono) simp
  then show ?thesis by simp
qed

lemma wf_ba_index: "wf_ba bA \<Longrightarrow> i < unat (Bits bA) \<Longrightarrow> i div 64 < length (Elems bA)"
  by (simp add: wf_ba_def div_64_bound)

lemma bit_lt_word_iff: "(i :: u32) < n \<longleftrightarrow> unat i < unat n"
  by (rule word_less_nat_alt)

lemma wf_NewBitArray:
  assumes "0 < bits" and "unat bits + 63 < 2 ^ 32"
  obtains bA where "NewBitArray bits = Some bA" "wf_ba bA" "clean_ba bA" "ba_bits bA = {}"
    "Bits bA = bits"
proof
  let ?b = "\<lparr>Bits = bits, Elems = replicate (unat ((bits + 63) div 64)) 0\<rparr>"
  show "NewBitArray bits = Some ?b" using assms(1) by (simp add: NewBitArray_def)
  have n: "unat ((bits + 63) div 64) = (unat bits + 63) div 64" using assms(2) by (rule words_needed)
  show wf: "wf_ba ?b" unfolding wf_ba_def bitArray.simps length_replicate n
    using assms by (simp add: word_less_nat_alt)
  show "clean_ba ?b" by (simp add: clean_ba_def less_mult_imp_div_less mult.commute)
  show "ba_bits ?b = {}" using wf_ba_index [OF wf] by (auto simp: ba_bits_def)
  show "Bits ?b = bits" by simp
qed

lemma getIndex_wf: "wf_ba bA \<Longrightarrow> getIndex bA i = Inr (unat i \<in> ba_bits bA)"
  using wf_ba_index [of bA "unat i"]
  by (auto simp: getIndex_def ba_bits_def word_le_nat_alt word_and_exp_gt_0)

lemma getIndex_short:
  "unat i < unat (Bits bA) \<Longrightarrow> length (Elems bA) \<le> unat i div 64
     \<Longrightarrow> getIndex bA i = Inl IndexOutOfRange"
  by (simp add: getIndex_def word_le_nat_alt)

definition upd_bit :: "bool \<Rightarrow> nat \<Rightarrow> nat set \<Rightarrow> nat set" where
  "upd_bit v i S = (if v then insert i S else S - {i})"

lemma bit_set_word:
  "bit (if v then e OR 2 ^ k else e AND NOT (2 ^ k :: u64)) j \<longleftrightarrow>
     (if j = k \<and> k < 64 then v else bit e j)"
  using bit_imp_le_length [of e j]
  by (auto simp: bit_or_iff bit_and_iff bit_not_iff bit_exp_iff possible_bit_word)

lemma nth_set_bit:
  assumes "i div 64 < length es"
  defines "k \<equiv> i div 64" and "m \<equiv> (2 ^ (i mod 64) :: u64)"
  shows "bit (es[k := (if v then es ! k OR m else es ! k AND NOT m)] ! (j div 64)) (j mod 64)
      \<longleftrightarrow> (if j = i then v else bit (es ! (j div 64)) (j mod 64))"
proof (cases "j div 64 = i div 64")
  case True
  then have "j = i \<longleftrightarrow> j mod 64 = i mod 64" by (metis div_mult_mod_eq)
  moreover have "i mod 64 < 64" by simp
  ultimately show ?thesis
    unfolding k_def m_def True nth_list_update_eq [OF assms(1)] bit_set_word by simp
qed (auto simp: k_def)

lemma setIndex_eq:
  assumes wf: "wf_ba bA" and i: "unat i < unat (Bits bA)"
  defines "k \<equiv> unat i div 64" and "m \<equiv> (2 ^ (unat i mod 64) :: u64)"
  shows "setIndex bA i v =
    Inr (bA\<lparr>Elems := (Elems bA)[k := (if v then Elems bA ! k OR m else Elems bA ! k AND NOT m)]\<rparr>, True)"
  using wf_ba_index [OF wf i] i by (simp add: setIndex_def word_le_nat_alt Let_def k_def m_def)

lemma setIndex_wf:
  assumes wf: "wf_ba bA" and i: "unat i < unat (Bits bA)"
  obtains bA' where "setIndex bA i v = Inr (bA', True)" "wf_ba bA'" "Bits bA' = Bits bA"
    "ba_bits bA' = upd_bit v (unat i) (ba_bits bA)" "clean_ba bA \<Longrightarrow> clean_ba bA'"
proof -
  let ?k = "unat i div 64" and ?m = "2 ^ (unat i mod 64) :: u64"
  let ?es = "(Elems bA)[?k := (if v then Elems bA ! ?k OR ?m else Elems bA ! ?k AND NOT ?m)]"
  note nth = nth_set_bit [OF wf_ba_index [OF wf i], of v]
  show thesis
  proof (rule that [OF setIndex_eq [OF wf i]])
    show "wf_ba (bA\<lparr>Elems := ?es\<rparr>)" using wf by (simp add: wf_ba_def)
    show "Bits (bA\<lparr>Elems := ?es\<rparr>) = Bits bA" by simp
    show "ba_bits (bA\<lparr>Elems := ?es\<rparr>) = upd_bit v (unat i) (ba_bits bA)"
      using i by (auto simp: ba_bits_def nth upd_bit_def simp del: if_split split: if_split_asm)
    show "clean_ba (bA\<lparr>Elems := ?es\<rparr>)" if "clean_ba bA"
      using that i by (simp add: clean_ba_def nth)
  qed
qed

lemma setIndex_out: "\<not> unat i < unat (Bits bA) \<Longrightarrow> setIndex bA i v = Inr (bA, False)"
  by (simp add: setIndex_def word_le_nat_alt)

section \<open>Boolean operations\<close>

lemma zip_loop_nth:
  assumes "n \<le> length c" "n \<le> length os"
  shows "\<exists>es. zip_loop f n c os = Inr es \<and> length es = length c
     \<and> (\<forall>k < length c. es ! k = (if k < n then f (c ! k) (os ! k) else c ! k))"
  using assms
proof (induction n)
  case 0
  then show ?case by (simp add: zip_loop_def)
next
  case (Suc n)
  then obtain es where es: "zip_loop f n c os = Inr es" "length es = length c"
    "\<And>k. k < length c \<Longrightarrow> es ! k = (if k < n then f (c ! k) (os ! k) else c ! k)"
    by auto
  have "zip_loop f (Suc n) c os = Inr (es[n := f (es ! n) (os ! n)])"
    using Suc.prems es(1,2) by (simp add: zip_loop_def go_fold_append)
  then show ?case using Suc.prems es(2,3) by (auto simp: nth_list_update less_Suc_eq)
qed

lemma zip_loop_obtain:
  assumes "n \<le> length c" "n \<le> length os"
  obtains es where "zip_loop f n c os = Inr es" "length es = length c"
    "\<And>k. k < length c \<Longrightarrow> es ! k = (if k < n then f (c ! k) (os ! k) else c ! k)"
  using zip_loop_nth [OF assms, of f] by blast

lemma wf_ba_length: "wf_ba bA \<Longrightarrow> length (Elems bA) = (unat (Bits bA) + 63) div 64"
  by (simp add: wf_ba_def)

lemma length_copyBits:
  "unat bits + 63 < 2 ^ 32 \<Longrightarrow> length (Elems (copyBits bA bits)) = (unat bits + 63) div 64"
  by (simp add: copyBits_def words_needed del: unat_div_64)

lemma nth_copyBits:
  assumes "unat bits + 63 < 2 ^ 32" "k < (unat bits + 63) div 64"
  shows "Elems (copyBits bA bits) ! k = (if k < length (Elems bA) then Elems bA ! k else 0)"
  using assms by (simp add: copyBits_def nth_go_copy words_needed del: unat_div_64)

lemma Bits_copyBits [simp]: "Bits (copyBits bA bits) = bits"
  by (simp add: copyBits_def)

lemma unat_MaxUInt [simp]: "unat (MaxUInt a b) = max (unat a) (unat b)"
  by (simp add: MaxUInt_def max_def word_less_nat_alt)

lemma unat_MinUInt [simp]: "unat (MinUInt a b) = min (unat a) (unat b)"
  by (simp add: MinUInt_def min_def word_less_nat_alt)

lemma mono_words: "mono (\<lambda>n. (n + 63) div (64 :: nat))"
  by (simp add: monoI div_le_mono)

lemma words_max: "(max m n + 63) div (64 :: nat) = max ((m + 63) div 64) ((n + 63) div 64)"
  using max_of_mono [OF mono_words] by simp

lemma words_min: "(min m n + 63) div (64 :: nat) = min ((m + 63) div 64) ((n + 63) div 64)"
  using min_of_mono [OF mono_words] by simp

text \<open>The bit of a word position, with zeroes behind the slice.\<close>

definition bit_at :: "bitArray \<Rightarrow> nat \<Rightarrow> bool" where
  "bit_at bA i \<longleftrightarrow> i div 64 < length (Elems bA) \<and> bit (Elems bA ! (i div 64)) (i mod 64)"

lemma ba_bits_bit_at: "wf_ba bA \<Longrightarrow> ba_bits bA = {i. i < unat (Bits bA) \<and> bit_at bA i}"
  using wf_ba_index [of bA] by (auto simp: ba_bits_def bit_at_def)

lemma clean_bit_at: "wf_ba bA \<Longrightarrow> clean_ba bA \<Longrightarrow> ba_bits bA = {i. bit_at bA i}"
  unfolding ba_bits_bit_at clean_ba_def bit_at_def
  by (auto simp: not_le [symmetric] less_mult_imp_div_less mult.commute div_less_iff_less_mult)

lemma clean_baI: "wf_ba bA \<Longrightarrow> (\<And>i. bit_at bA i \<Longrightarrow> i < unat (Bits bA)) \<Longrightarrow> clean_ba bA"
  unfolding clean_ba_def bit_at_def
  by (metis div_less_iff_less_mult leD mult.commute zero_less_numeral)

text \<open>One pass of a bitwise operator over a resized copy.\<close>

lemma combine_bits:
  assumes n: "0 < unat n" "unat n + 63 < 2 ^ 32"
    and m: "m \<le> (unat n + 63) div 64" "m \<le> length (Elems b)"
    and f: "\<And>x y k. k < 64 \<Longrightarrow> bit (f x y) k \<longleftrightarrow> g (bit x k) (bit y k)"
  obtains c where
    "go_map (\<lambda>es. (copyBits a n)\<lparr>Elems := es\<rparr>) (zip_loop f m (Elems (copyBits a n)) (Elems b)) = Inr c"
    "wf_ba c" "Bits c = n"
    "\<And>i. bit_at c i \<longleftrightarrow> i div 64 < (unat n + 63) div 64
        \<and> (if i div 64 < m then g (bit_at a i) (bit_at b i) else bit_at a i)"
proof -
  note len = length_copyBits [OF n(2), of a]
  obtain es where es: "zip_loop f m (Elems (copyBits a n)) (Elems b) = Inr es"
    "length es = length (Elems (copyBits a n))"
    "\<And>k. k < length (Elems (copyBits a n)) \<Longrightarrow>
       es ! k = (if k < m then f (Elems (copyBits a n) ! k) (Elems b ! k) else Elems (copyBits a n) ! k)"
    using zip_loop_obtain [of m "Elems (copyBits a n)" "Elems b" f] m len by auto
  show thesis
  proof
    show "go_map (\<lambda>es. (copyBits a n)\<lparr>Elems := es\<rparr>)
        (zip_loop f m (Elems (copyBits a n)) (Elems b)) = Inr ((copyBits a n)\<lparr>Elems := es\<rparr>)"
      using es(1) by simp
    show "wf_ba ((copyBits a n)\<lparr>Elems := es\<rparr>)" using n len es(2) by (simp add: wf_ba_def)
    show "bit_at ((copyBits a n)\<lparr>Elems := es\<rparr>) i \<longleftrightarrow> i div 64 < (unat n + 63) div 64
        \<and> (if i div 64 < m then g (bit_at a i) (bit_at b i) else bit_at a i)" for i
      using nth_copyBits [OF n(2), of "i div 64" a] m(2) f [of "i mod 64"]
      by (cases "i div 64 < length (Elems a)") (auto simp: bit_at_def es(2,3) len)
  qed simp
qed

lemma wf_ba_bounds: "wf_ba bA \<Longrightarrow> 0 < unat (Bits bA)" "wf_ba bA \<Longrightarrow> unat (Bits bA) + 63 < 2 ^ 32"
  by (simp_all add: wf_ba_def)

lemma MinInt_min: "MinInt a b = min a b"
  by (simp add: MinInt_def min_def)

lemma MaxUInt_bounds:
  assumes "wf_ba a" "wf_ba b"
  shows "0 < unat (MaxUInt (Bits a) (Bits b))" "unat (MaxUInt (Bits a) (Bits b)) + 63 < 2 ^ 32"
    "(unat (MaxUInt (Bits a) (Bits b)) + 63) div 64 = max (length (Elems a)) (length (Elems b))"
  using wf_ba_bounds [OF assms(1)] wf_ba_bounds [OF assms(2)]
  by (simp_all add: words_max wf_ba_length assms)

lemma MinUInt_bounds:
  assumes "wf_ba a" "wf_ba b"
  shows "0 < unat (MinUInt (Bits a) (Bits b))" "unat (MinUInt (Bits a) (Bits b)) + 63 < 2 ^ 32"
    "(unat (MinUInt (Bits a) (Bits b)) + 63) div 64 = min (length (Elems a)) (length (Elems b))"
  using wf_ba_bounds [OF assms(1)] wf_ba_bounds [OF assms(2)]
  by (simp_all add: words_min wf_ba_length assms)

lemma Or_ba_wf:
  assumes a: "wf_ba a" and b: "wf_ba b"
  obtains c where "Or_ba (Some a) (Some b) = Inr (Some c)" "wf_ba c"
    "Bits c = MaxUInt (Bits a) (Bits b)"
    "\<And>i. bit_at c i \<longleftrightarrow> bit_at a i \<or> i div 64 < length (Elems a) \<and> bit_at b i"
proof (rule combine_bits [of "MaxUInt (Bits a) (Bits b)" "min (length (Elems a)) (length (Elems b))" b
      "\<lambda>x y. x OR y" "\<lambda>p q. p \<or> q" a])
  fix c
  assume c: "go_map (\<lambda>es. (copyBits a (MaxUInt (Bits a) (Bits b)))\<lparr>Elems := es\<rparr>)
      (zip_loop (\<lambda>x y. x OR y) (min (length (Elems a)) (length (Elems b)))
        (Elems (copyBits a (MaxUInt (Bits a) (Bits b)))) (Elems b)) = Inr c"
    "wf_ba c" "Bits c = MaxUInt (Bits a) (Bits b)"
    "\<And>i. bit_at c i \<longleftrightarrow> i div 64 < (unat (MaxUInt (Bits a) (Bits b)) + 63) div 64
      \<and> (if i div 64 < min (length (Elems a)) (length (Elems b))
         then bit_at a i \<or> bit_at b i else bit_at a i)"
  show thesis
  proof (rule that [OF _ c(2,3)])
    show "Or_ba (Some a) (Some b) = Inr (Some c)"
      using c(1) by (auto simp: Or_ba_def Let_def MinInt_min go_map_eq_Inr)
    show "bit_at c i \<longleftrightarrow> bit_at a i \<or> i div 64 < length (Elems a) \<and> bit_at b i" for i
      unfolding c(4) MaxUInt_bounds(3) [OF a b]
      by (auto simp: bit_at_def)
  qed
qed (use MaxUInt_bounds [OF a b] in \<open>simp_all add: bit_or_iff del: unat_MaxUInt\<close>)

lemma And_ba_wf:
  assumes a: "wf_ba a" and b: "wf_ba b"
  obtains c where "And_ba (Some a) (Some b) = Inr (Some c)" "wf_ba c"
    "Bits c = MinUInt (Bits a) (Bits b)" "ba_bits c = ba_bits a \<inter> ba_bits b"
proof (rule combine_bits [of "MinUInt (Bits a) (Bits b)" "min (length (Elems a)) (length (Elems b))" b
      "\<lambda>x y. x AND y" "\<lambda>p q. p \<and> q" a])
  let ?n = "MinUInt (Bits a) (Bits b)"
  have len: "length (Elems (copyBits a ?n)) = min (length (Elems a)) (length (Elems b))"
    unfolding length_copyBits [OF MinUInt_bounds(2) [OF a b]] by (rule MinUInt_bounds(3) [OF a b])
  fix c
  assume c: "go_map (\<lambda>es. (copyBits a ?n)\<lparr>Elems := es\<rparr>)
      (zip_loop (\<lambda>x y. x AND y) (min (length (Elems a)) (length (Elems b)))
        (Elems (copyBits a ?n)) (Elems b)) = Inr c"
    "wf_ba c" "Bits c = ?n"
    "\<And>i. bit_at c i \<longleftrightarrow> i div 64 < (unat ?n + 63) div 64
      \<and> (if i div 64 < min (length (Elems a)) (length (Elems b))
         then bit_at a i \<and> bit_at b i else bit_at a i)"
  show thesis
  proof (rule that [OF _ c(2,3)])
    show "And_ba (Some a) (Some b) = Inr (Some c)"
      using c(1) by (simp add: And_ba_def and_ba_def Let_def len)
    show "ba_bits c = ba_bits a \<inter> ba_bits b"
      unfolding ba_bits_bit_at [OF c(2)] ba_bits_bit_at [OF a] ba_bits_bit_at [OF b] c(3,4)
        MinUInt_bounds(3) [OF a b]
      using wf_ba_index [OF a] wf_ba_index [OF b] by auto
  qed
qed (use MinUInt_bounds [OF a b] in \<open>simp_all add: bit_and_iff del: unat_MinUInt\<close>)

lemma Sub_ba_wf:
  assumes a: "wf_ba a" and b: "wf_ba b"
  obtains c where "Sub_ba (Some a) (Some b) = Inr (Some c)" "wf_ba c" "Bits c = Bits a"
    "\<And>i. bit_at c i \<longleftrightarrow> bit_at a i \<and> \<not> bit_at b i"
proof (rule combine_bits [of "Bits a" "min (length (Elems a)) (length (Elems b))" b
      "\<lambda>x y. x AND NOT y" "\<lambda>p q. p \<and> \<not> q" a])
  fix c
  assume c: "go_map (\<lambda>es. (copyBits a (Bits a))\<lparr>Elems := es\<rparr>)
      (zip_loop (\<lambda>x y. x AND NOT y) (min (length (Elems a)) (length (Elems b)))
        (Elems (copyBits a (Bits a))) (Elems b)) = Inr c"
    "wf_ba c" "Bits c = Bits a"
    "\<And>i. bit_at c i \<longleftrightarrow> i div 64 < (unat (Bits a) + 63) div 64
      \<and> (if i div 64 < min (length (Elems a)) (length (Elems b))
         then bit_at a i \<and> \<not> bit_at b i else bit_at a i)"
  show thesis
  proof (rule that [OF _ c(2,3)])
    show "Sub_ba (Some a) (Some b) = Inr (Some c)"
      using c(1) by (auto simp: Sub_ba_def Let_def MinInt_min go_map_eq_Inr)
    show "bit_at c i \<longleftrightarrow> bit_at a i \<and> \<not> bit_at b i" for i
      unfolding c(4) wf_ba_length [OF a, symmetric] by (auto simp: bit_at_def)
  qed
qed (use wf_ba_bounds [OF a] wf_ba_length [OF a] in \<open>simp_all add: bit_and_iff bit_not_iff\<close>)

lemma Or_ba_union:
  assumes a: "wf_ba a" "clean_ba a" and b: "wf_ba b" "clean_ba b"
    and le: "length (Elems b) \<le> length (Elems a)"
  shows "\<exists>c. Or_ba (Some a) (Some b) = Inr (Some c) \<and> wf_ba c \<and> clean_ba c
    \<and> Bits c = MaxUInt (Bits a) (Bits b) \<and> ba_bits c = ba_bits a \<union> ba_bits b"
proof -
  obtain c where c: "Or_ba (Some a) (Some b) = Inr (Some c)" "wf_ba c" "Bits c = MaxUInt (Bits a) (Bits b)"
    "\<And>i. bit_at c i \<longleftrightarrow> bit_at a i \<or> i div 64 < length (Elems a) \<and> bit_at b i"
    by (rule Or_ba_wf [OF a(1) b(1)]) blast
  have "i div 64 < length (Elems a)" if "bit_at b i" for i
    using that le unfolding bit_at_def by (blast intro: less_le_trans)
  then have bits: "bit_at c i \<longleftrightarrow> i \<in> ba_bits a \<union> ba_bits b" for i
    unfolding c(4) clean_bit_at [OF a] clean_bit_at [OF b] by blast
  moreover have "i < unat (Bits c)" if "i \<in> ba_bits a \<union> ba_bits b" for i
    using that unfolding ba_bits_def c(3) unat_MaxUInt less_max_iff_disj by blast
  ultimately have "clean_ba c" using c(2) by (blast intro: clean_baI)
  moreover from this have "ba_bits c = ba_bits a \<union> ba_bits b"
    using clean_bit_at [OF c(2)] bits by auto
  ultimately show ?thesis using c(1-3) by blast
qed

lemma Sub_ba_diff:
  assumes a: "wf_ba a" and b: "wf_ba b" "clean_ba b"
  shows "\<exists>c. Sub_ba (Some a) (Some b) = Inr (Some c) \<and> wf_ba c \<and> Bits c = Bits a
    \<and> ba_bits c = ba_bits a - ba_bits b"
proof -
  obtain c where c: "Sub_ba (Some a) (Some b) = Inr (Some c)" "wf_ba c" "Bits c = Bits a"
    "\<And>i. bit_at c i \<longleftrightarrow> bit_at a i \<and> \<not> bit_at b i"
    by (rule Sub_ba_wf [OF a b(1)]) blast
  have "ba_bits c = ba_bits a - ba_bits b"
    unfolding ba_bits_bit_at [OF c(2)] ba_bits_bit_at [OF a] clean_bit_at [OF b] c(3,4) by blast
  then show ?thesis using c(1-3) by blast
qed

section \<open>Scanning\<close>

lemma upt_add_split: "[0..<a + b] = [0..<a] @ map (\<lambda>k. a + k) [0..<b]"
  by (simp add: upt_add_eq_append [of 0 a b, simplified] map_add_upt add.commute)

lemma filter_upt_Cons:
  "map f (filter P [0..<Suc n]) =
     (if P 0 then [f 0] else []) @ map (\<lambda>k. f (Suc k)) (filter (\<lambda>k. P (Suc k)) [0..<n])"
  using upt_add_split [of 1 n] by (simp add: filter_map o_def)

lemma scan_bits_eq:
  "scan_bits e js cur acc =
     (acc @ map (\<lambda>k. cur + word_of_nat k) (filter (\<lambda>k. bit e (js ! k)) [0..<length js]),
      cur + word_of_nat (length js))"
proof (induction js arbitrary: cur acc)
  case (Cons j js)
  show ?case
    using word_and_exp_gt_0 [of e j]
    unfolding scan_bits.simps Cons length_Cons filter_upt_Cons by (simp add: add.assoc)
qed simp

lemma scan_bits_upt:
  "scan_bits e [0..<n] cur acc =
     (acc @ map (\<lambda>k. cur + word_of_nat k) (filter (\<lambda>k. bit e k) [0..<n]), cur + word_of_nat n)"
proof -
  have "filter (\<lambda>k. bit e ([0..<n] ! k)) [0..<n] = filter (\<lambda>k. bit e k) [0..<n]"
    by (rule filter_cong) auto
  then show ?thesis by (simp add: scan_bits_eq)
qed

lemma add_64_div: "(64 + x) div 64 = Suc (x div (64 :: nat))"
  by simp

lemma scan_elems_eq:
  "scan_elems es cur acc =
     (acc @ map (\<lambda>k. cur + word_of_nat k)
              (filter (\<lambda>k. bit (es ! (k div 64)) (k mod 64)) [0..<64 * length es]),
      cur + word_of_nat (64 * length es))"
proof (induction es arbitrary: cur acc)
  case (Cons e es)
  have hd: "filter (\<lambda>k. bit ((e # es) ! (k div 64)) (k mod 64)) [0..<64] = filter (bit e) [0..<64]"
    by (rule filter_cong) auto
  have "filter (\<lambda>k. bit ((e # es) ! (k div 64)) (k mod 64)) [0..<64 * length (e # es)] =
      filter (bit e) [0..<64] @
      map (\<lambda>k. 64 + k) (filter (\<lambda>k. bit (es ! (k div 64)) (k mod 64)) [0..<64 * length es])"
    unfolding length_Cons mult_Suc_right upt_add_split filter_append hd
    by (simp add: filter_map o_def add_64_div)
  moreover have "scan_elems (e # es) cur acc =
      scan_elems es (cur + 64) (acc @ map (\<lambda>k. cur + word_of_nat k) (filter (bit e) [0..<64]))"
    by (simp add: scan_bits_upt)
  ultimately show ?case by (simp add: Cons add.assoc o_def)
qed simp

lemma word_of_nat_unat_le: "n \<le> unat b \<Longrightarrow> unat (b - word_of_nat n :: u32) = unat b - n"
  using unsigned_less [of b, where 'a = nat] by (simp add: unat_of_nat unat_sub word_le_nat_alt)

lemma wf_ba_last:
  assumes "wf_ba bA"
  shows "Elems bA \<noteq> []" "64 * (length (Elems bA) - 1) < unat (Bits bA)"
    "unat (Bits bA) \<le> 64 * (length (Elems bA) - 1) + 64"
proof -
  have n: "0 < unat (Bits bA)" "length (Elems bA) = (unat (Bits bA) + 63) div 64"
    using assms by (simp_all add: wf_ba_def)
  have "64 * ((unat (Bits bA) + 63) div 64) \<le> unat (Bits bA) + 63"
    "unat (Bits bA) + 63 < 64 * ((unat (Bits bA) + 63) div 64) + 64"
    by (simp_all add: dividend_less_times_div)
  with n show "Elems bA \<noteq> []" "64 * (length (Elems bA) - 1) < unat (Bits bA)"
    "unat (Bits bA) \<le> 64 * (length (Elems bA) - 1) + 64" by auto
qed

lemma getTrueIndices_filter:
  assumes wf: "wf_ba bA"
  shows "getTrueIndices bA = Inr (map word_of_nat (filter (\<lambda>i. i \<in> ba_bits bA) [0..<unat (Bits bA)]))"
proof -
  note last = wf_ba_last [OF wf]
  let ?m = "64 * (length (Elems bA) - 1)"
  obtain r where r: "unat (Bits bA) = ?m + r" "0 < r" "r \<le> 64"
    using last(2,3) by (metis add_diff_inverse_nat le_diff_conv less_imp_le_nat linorder_not_less
        nat_add_left_cancel_le zero_less_diff)
  have front: "filter (\<lambda>k. bit (butlast (Elems bA) ! (k div 64)) (k mod 64)) [0..<?m] =
      filter (\<lambda>i. i \<in> ba_bits bA) [0..<?m]"
    using r by (intro filter_cong) (auto simp: ba_bits_def nth_butlast less_mult_imp_div_less mult.commute)
  have rear: "filter (\<lambda>k. bit (last (Elems bA)) k) [0..<r] = filter (\<lambda>k. ?m + k \<in> ba_bits bA) [0..<r]"
    using r last(1) by (intro filter_cong) (auto simp: ba_bits_def last_conv_nth)
  have "unat (Bits bA - word_of_nat ?m) = r"
    using word_of_nat_unat_le [of ?m "Bits bA"] r(1) by (simp del: of_nat_mult)
  then show ?thesis
    using last(1) unfolding getTrueIndices_def r(1) upt_add_split
    by (simp add: scan_elems_eq scan_bits_upt front [unfolded One_nat_def] rear filter_map o_def)
qed

lemma low_bits_full:
  "((x + 1) AND (2 ^ r - 1) = (0 :: u64)) \<longleftrightarrow> (\<forall>k < min r 64. bit x k)"
proof -
  have "(x + 1) AND (2 ^ r - 1) = take_bit r (- NOT x)"
    by (simp add: take_bit_eq_mask mask_eq_exp_minus_1 minus_eq_not_plus_1)
  then have "(x + 1) AND (2 ^ r - 1) = 0 \<longleftrightarrow> take_bit r (NOT x) = 0"
    by (simp only: take_bit_eq_0_iff dvd_minus_iff)
  then show ?thesis by (auto simp: bit_eq_iff bit_take_bit_iff bit_not_iff possible_bit_word)
qed

lemma full_word: "NOT e = (0 :: u64) \<longleftrightarrow> (\<forall>k < 64. bit e k)"
  by (auto simp: bit_eq_iff bit_not_iff possible_bit_word)

lemma all_div_64:
  "(\<forall>i < 64 * n. P (i div 64) (i mod 64)) \<longleftrightarrow> (\<forall>q < n. \<forall>k < (64 :: nat). P q k)"
proof (intro iffI allI impI)
  fix q k :: nat assume P: "\<forall>i < 64 * n. P (i div 64) (i mod 64)" and qk: "q < n" "k < 64"
  have "64 * q + k < 64 * n" using qk by linarith
  then show "P q k" using P qk(2) by fastforce
qed (simp add: less_mult_imp_div_less mult.commute)

lemma lastElemBits:
  assumes "unat b = 64 * m + r" "0 < r" "r \<le> 64" "unat b + 63 < 2 ^ 32"
  shows "unat ((b + 63) mod 64 + 1 :: u32) = r"
proof -
  have "unat (b + 63) = unat b + 63"
    using assms(4) by (simp add: unat_add_lem [THEN iffD1])
  then have "unat ((b + 63) mod 64) = (64 * m + (r + 63)) mod 64" by (simp add: assms(1) add.assoc)
  also have "\<dots> = (64 + (r - 1)) mod 64" using assms(2) by (simp add: add.commute)
  also have "\<dots> = r - 1" using assms(2,3) by (cases r) simp_all
  finally have m: "unat ((b + 63) mod 64) = r - 1" .
  then have "unat ((b + 63) mod 64 + 1) = Suc (r - 1)"
    using assms(3) unat_Suc_if [of "(b + 63) mod 64"] by simp
  then show ?thesis using assms(2) by simp
qed

lemma all_less_add: "(\<forall>i < m + r. P i) \<longleftrightarrow> (\<forall>i < m. P i) \<and> (\<forall>k < (r :: nat). P (m + k))"
  by (metis add_diff_inverse_nat nat_add_left_cancel_less trans_less_add1)

lemma IsFull_wf:
  assumes wf: "wf_ba bA"
  shows "IsFull (Some bA) = Inr (ba_bits bA = {..<unat (Bits bA)})"
proof -
  note last = wf_ba_last [OF wf]
  let ?n = "length (Elems bA) - 1"
  obtain r where r: "unat (Bits bA) = 64 * ?n + r" "0 < r" "r \<le> 64"
    using last(2,3) by (metis add_diff_inverse_nat le_diff_conv less_imp_le_nat linorder_not_less
        nat_add_left_cancel_le zero_less_diff)
  have whole: "list_all (\<lambda>e. NOT e = 0) (butlast (Elems bA)) \<longleftrightarrow>
      (\<forall>i < 64 * ?n. bit (Elems bA ! (i div 64)) (i mod 64))"
    by (simp add: all_div_64 [of _ "\<lambda>q. bit (Elems bA ! q)"] list_all_length full_word nth_butlast)
  have rest: "((last (Elems bA) + 1) AND (2 ^ r - 1) = 0) \<longleftrightarrow>
      (\<forall>k < r. bit (Elems bA ! ((64 * ?n + k) div 64)) ((64 * ?n + k) mod 64))"
    using r(3) last(1) by (simp add: low_bits_full last_conv_nth min_absorb1)
  have "ba_bits bA = {..<unat (Bits bA)} \<longleftrightarrow>
      (\<forall>i < 64 * ?n + r. bit (Elems bA ! (i div 64)) (i mod 64))"
    unfolding ba_bits_def r(1) by auto
  also have "\<dots> \<longleftrightarrow> (\<forall>i < 64 * ?n. bit (Elems bA ! (i div 64)) (i mod 64)) \<and>
      (\<forall>k < r. bit (Elems bA ! ((64 * ?n + k) div 64)) ((64 * ?n + k) mod 64))"
    by (rule all_less_add)
  finally show ?thesis
    using last(1) lastElemBits [OF r wf_ba_bounds(2) [OF wf]] whole rest
    unfolding IsFull_def by (simp add: Let_def)
qed

lemma bitArray_ext:
  assumes a: "wf_ba a" "clean_ba a" and b: "wf_ba b" "clean_ba b"
    and eq: "Bits a = Bits b" "ba_bits a = ba_bits b"
  shows "a = b"
proof -
  have len: "length (Elems a) = length (Elems b)" using a b eq by (simp add: wf_ba_length)
  have "bit_at a i = bit_at b i" for i
    using clean_bit_at [OF a] clean_bit_at [OF b] eq(2) by blast
  then have "bit (Elems a ! (i div 64)) (i mod 64) = bit (Elems b ! (i div 64)) (i mod 64)"
    if "i < 64 * length (Elems a)" for i
  proof -
    have "i div 64 < length (Elems a)" using that by (simp add: less_mult_imp_div_less mult.commute)
    then show ?thesis using \<open>bit_at a i = bit_at b i\<close> unfolding bit_at_def len [symmetric] by blast
  qed
  then have "\<forall>q < length (Elems a). \<forall>k < 64. bit (Elems a ! q) k = bit (Elems b ! q) k"
    using all_div_64 [of "length (Elems a)" "\<lambda>q k. bit (Elems a ! q) k = bit (Elems b ! q) k"] by blast
  then have "Elems a = Elems b"
    by (intro nth_equalityI len bit_word_eqI) simp_all
  then show ?thesis using eq(1) by simp
qed

section \<open>Filling and the JSON format\<close>

text \<open>A loop that sets the selected positions of an array.\<close>

lemma fold_SetIndex:
  assumes "wf_ba bA" "\<And>i p. i \<in> set is \<Longrightarrow> f i p = (if P i then go_map fst (SetIndex p i True) else Inr p)"
    and "\<forall>i \<in> set is. unat i < unat (Bits bA)"
  shows "\<exists>bA'. go_fold f is (Some bA) = Inr (Some bA') \<and> wf_ba bA' \<and> Bits bA' = Bits bA
    \<and> (clean_ba bA \<longrightarrow> clean_ba bA') \<and> ba_bits bA' = ba_bits bA \<union> {unat i | i. i \<in> set is \<and> P i}"
  using assms
proof (induction "is" arbitrary: bA)
  case Nil
  then show ?case by auto
next
  case (Cons i "is")
  obtain b where b: "setIndex bA i True = Inr (b, True)" "wf_ba b" "Bits b = Bits bA"
    "ba_bits b = insert (unat i) (ba_bits bA)" "clean_ba bA \<Longrightarrow> clean_ba b"
    using setIndex_wf [of bA i True] Cons.prems(1,3) by (auto simp: upd_bit_def)
  define c where "c = (if P i then b else bA)"
  have c: "f i (Some bA) = Inr (Some c)" "wf_ba c" "Bits c = Bits bA" "clean_ba bA \<Longrightarrow> clean_ba c"
    "ba_bits c = ba_bits bA \<union> {unat j | j. j = i \<and> P j}"
    using b Cons.prems(1) Cons.prems(2) [of i "Some bA"] by (auto simp: c_def SetIndex_def)
  show ?case
    using Cons.IH [OF c(2) Cons.prems(2)] Cons.prems(3) c by fastforce
qed

lemma set_range_u32: "set (range_u32 n) = {i. i < n}"
proof -
  have "i \<in> word_of_nat ` {0..<unat n} \<longleftrightarrow> i < n" for i :: u32
    using unsigned_less [of n, where 'a = nat]
    by (auto simp: image_iff word_less_nat_alt unat_of_nat intro!: bexI [of _ "unat i"])
  then show ?thesis by (auto simp: range_u32_def)
qed

lemma unat_range_u32: "map unat (range_u32 n) = [0..<unat n]"
  using unsigned_less [of n, where 'a = nat]
  by (auto simp: range_u32_def o_def unat_of_nat intro!: map_idI)

definition json_bits :: "bitArray \<Rightarrow> string" where
  "json_bits bA = map (\<lambda>i. if i \<in> ba_bits bA then CHR ''x'' else CHR ''_'') [0..<unat (Bits bA)]"

lemma go_fold_append_map:
  "(\<And>x. x \<in> set xs \<Longrightarrow> g x = Inr (h x)) \<Longrightarrow>
    go_fold (\<lambda>x s. go_map (\<lambda>b. s @ [k b]) (g x)) xs s = Inr (s @ map (\<lambda>x. k (h x)) xs)"
  by (induction xs arbitrary: s) auto

lemma MarshalJSON_wf:
  assumes "wf_ba bA"
  shows "MarshalJSON_ba (Some bA) = Inr (quote # json_bits bA @ [quote])"
proof -
  have "map (\<lambda>x. if unat x \<in> ba_bits bA then CHR ''x'' else CHR ''_'') (range_u32 (Bits bA)) = json_bits bA"
    unfolding json_bits_def unat_range_u32 [symmetric] by simp
  then show ?thesis
    using go_fold_append_map [of "range_u32 (Bits bA)" "getIndex bA" "\<lambda>i. unat i \<in> ba_bits bA"
        "\<lambda>b. if b then CHR ''x'' else CHR ''_''" "[quote]"] getIndex_wf [OF assms]
    by (simp add: MarshalJSON_ba_def)
qed

lemma json_bits_props:
  "length (json_bits bA) = unat (Bits bA)"
  "i < unat (Bits bA) \<Longrightarrow> json_bits bA ! i = (if i \<in> ba_bits bA then CHR ''x'' else CHR ''_'')"
  "list_all (\<lambda>c. c = CHR ''_'' \<or> c = CHR ''x'') (json_bits bA)"
  by (auto simp: json_bits_def list_all_iff)

lemma bitArrayJSONRegexp_quoted:
  "list_all (\<lambda>c. c = CHR ''_'' \<or> c = CHR ''x'') s
     \<Longrightarrow> bitArrayJSONRegexp (quote # s @ [quote]) = Some s"
  by (simp add: bitArrayJSONRegexp_def butlast_append)

lemma ba_bits_less: "n \<in> ba_bits bA \<Longrightarrow> n < unat (Bits bA)"
  by (simp add: ba_bits_def)

lemma unat_members:
  assumes "\<And>n. n \<in> S \<Longrightarrow> n < unat (b :: u32)"
  shows "{unat i | i. i < b \<and> unat i \<in> S} = S"
proof -
  have "unat (word_of_nat n :: u32) = n" if "n \<in> S" for n
    using assms [OF that] unsigned_less [of b, where 'a = nat] by (simp add: unat_of_nat)
  then have "n \<in> {unat i | i. i < b \<and> unat i \<in> S}" if "n \<in> S" for n
    using that assms [OF that] by (intro CollectI exI [of _ "word_of_nat n"]) (simp add: word_less_nat_alt)
  then show ?thesis by blast
qed

lemma Unmarshal_json_bits:
  assumes wf: "wf_ba bA" and clean: "clean_ba bA"
  shows "UnmarshalJSON_ba (quote # json_bits bA @ [quote]) = Inr (Inr bA)"
proof -
  let ?bits = "json_bits bA"
  obtain b where b: "NewBitArray (Bits bA) = Some b" "wf_ba b" "clean_ba b" "ba_bits b = {}" "Bits b = Bits bA"
    using wf_NewBitArray [of "Bits bA"] wf by (auto simp: wf_ba_def word_less_nat_alt)
  let ?f = "\<lambda>i p. go_bind (go_index ?bits (unat i))
      (\<lambda>c. if c = CHR ''x'' then go_map fst (SetIndex p i True) else Inr p)"
  have "\<exists>c. go_fold ?f (range_u32 (Bits bA)) (Some b) = Inr (Some c) \<and> wf_ba c \<and> Bits c = Bits b
    \<and> (clean_ba b \<longrightarrow> clean_ba c)
    \<and> ba_bits c = ba_bits b \<union> {unat i | i. i \<in> set (range_u32 (Bits bA)) \<and> unat i \<in> ba_bits bA}"
    using b(2,5) by (intro fold_SetIndex) (auto simp: set_range_u32 word_less_nat_alt json_bits_props)
  then obtain c where c: "go_fold ?f (range_u32 (Bits bA)) (Some b) = Inr (Some c)" "wf_ba c"
    "Bits c = Bits bA" "clean_ba c"
    "ba_bits c = {unat i | i. i < Bits bA \<and> unat i \<in> ba_bits bA}"
    using b(3,4,5) by (auto simp: set_range_u32)
  have "c = bA"
    using bitArray_ext [OF c(2,4) wf clean c(3)] unat_members [OF ba_bits_less] c(5) by simp
  then show ?thesis
    using c(1) b(1) by (simp add: UnmarshalJSON_ba_def bitArrayJSONRegexp_quoted json_bits_props)
qed

section \<open>Properties\<close>


abbreviation ba_example :: "nat \<Rightarrow> bitArray" where
  "ba_example w \<equiv> \<lparr>Bits = 70, Elems = [word_of_nat w, 1]\<rparr>"

lemma ba_example_ok: "wf_ba (ba_example w)" "clean_ba (ba_example w)"
proof -
  show "wf_ba (ba_example w)" by (simp add: wf_ba_def)
  show "clean_ba (ba_example w)"
    unfolding clean_ba_def
  proof (intro allI impI)
    fix i
    assume "unat (Bits (ba_example w)) \<le> i \<and> i < 64 * length (Elems (ba_example w))"
    then have i: "70 \<le> i" "i < 128" by simp_all
    then have "i div 64 = 1" "i mod 64 \<noteq> 0" by (auto simp: mod_eq_0_iff_dvd elim!: dvdE)
    then show "\<not> bit (Elems (ba_example w) ! (i div 64)) (i mod 64)" by (simp add: bit_1_iff)
  qed
qed


text \<open>\<open>getTrueIndices\<close> of an array built by \<open>NewBitArray\<close> and \<open>SetIndex\<close> returns exactly
  the members, in ascending order and without repetition.\<close>
theorem getTrueIndices_correct:
  assumes "wf_ba bA"
  shows "\<exists>is. getTrueIndices bA = Inr is \<and> map unat is = sorted_list_of_set (ba_bits bA)"
proof -
  have "map unat (map word_of_nat (filter (\<lambda>i. i \<in> ba_bits bA) [0..<unat (Bits bA)]) :: u32 list)
      = filter (\<lambda>i. i \<in> ba_bits bA) [0..<unat (Bits bA)]"
    using unsigned_less [of "Bits bA", where 'a = nat] by (auto simp: unat_of_nat intro!: map_idI)
  moreover have "ba_bits bA = set (filter (\<lambda>i. i \<in> ba_bits bA) [0..<unat (Bits bA)])"
    by (auto dest: ba_bits_less)
  ultimately show ?thesis
    using getTrueIndices_filter [OF assms]
    by (metis distinct_filter distinct_upt sorted_list_of_set.idem_if_sorted_distinct sorted_wrt_filter sorted_upt)
qed

theorem getTrueIndices_witness:
  "\<exists>is. getTrueIndices (ba_example 5) = Inr is
     \<and> map unat is = sorted_list_of_set (ba_bits (ba_example 5))"
  by (rule getTrueIndices_correct) (rule ba_example_ok)

text \<open>The JSON form round-trips: \<open>UnmarshalJSON\<close> of what \<open>MarshalJSON\<close> writes for a clean
  array restores the array, word for word.\<close>
theorem bitArray_json_roundtrip:
  assumes "wf_ba bA" "clean_ba bA"
  shows "go_bind (MarshalJSON_ba (Some bA)) UnmarshalJSON_ba = Inr (Inr bA)"
  using MarshalJSON_wf [OF assms(1)] Unmarshal_json_bits [OF assms] by simp

theorem bitArray_json_roundtrip_witness:
  "go_bind (MarshalJSON_ba (Some (ba_example 5))) UnmarshalJSON_ba = Inr (Inr (ba_example 5))"
  by (rule bitArray_json_roundtrip) (rule ba_example_ok)+

section \<open>Divergences from the documented behaviour\<close>

text \<open>\<open>Or\<close> drops the words of a longer argument, although its comment promises padding.\<close>

lemma Or_drops_longer_argument:
  "Or_ba (NewBitArray 1) (Some (ba_example 0)) = Inr (Some \<lparr>Bits = 70, Elems = [0, 0]\<rparr>)"
  by code_simp

text \<open>\<open>Not\<close> of a full array is not empty for \<open>IsEmpty\<close>: bits behind \<open>Bits\<close> are set.\<close>

lemma Not_full_not_IsEmpty:
  "IsFull (Some \<lparr>Bits = 1, Elems = [1]\<rparr>) = Inr True
    \<and> \<not> IsEmpty_ba (Not_ba (Some \<lparr>Bits = 1, Elems = [1]\<rparr>))"
  by code_simp

text \<open>\<open>UnmarshalJSON\<close> of the empty string form dereferences the nil array of \<open>NewBitArray(0)\<close>.\<close>

lemma Unmarshal_empty_panics: "UnmarshalJSON_ba [quote, quote] = Inl NilDeref"
  by code_simp

end
