(* ===== verification/Rlp.thy ===== *)
theory Rlp
  imports Prelude
begin

text \<open>
  The RLP codec of \<open>libs/rlp\<close> as the consensus digests use it: the buffered encoder of
  \<open>encode.go\<close> (\<open>encbuf\<close>: string data plus a table of list headers, spliced by \<open>toBytes\<close>) and
  the splitting functions of \<open>raw.go\<close>.  A value of \<open>rval\<close> stands for a Go value together with
  the writer that \<open>makeWriter\<close> selects for its type; the selection by reflection itself is not
  modelled.  Go's \<open>int\<close> sizes are naturals, \<open>uint64\<close> sizes are words.  \<open>enc\<close> is the recursive
  reference encoding; the refinement lemma shows that the buffered encoder computes it.
\<close>

section \<open>Model of encode.go\<close>

datatype rval =
    RUint u64
  | RBool bool
  | RBytes bytes
  | RBigInt int
  | RRaw bytes
  | RNilInterface
  | RList "rval list"

datatype rlp_err = ErrUnexpectedEOF | ErrCanonSize | ErrValueTooLarge | ErrExpectedString
  | ErrExpectedList | ErrNegativeBigInt

record listhead =
  lh_offset :: nat
  lh_size :: nat

record encbuf =
  eb_str :: bytes
  eb_lheads :: "listhead list"
  eb_lhsize :: nat

text \<open>The \<open>n\<close> low bytes of \<open>i\<close>, most significant first.\<close>

definition be_bytes :: "nat \<Rightarrow> u64 \<Rightarrow> bytes" where
  "be_bytes n i = map (\<lambda>k. ucast (drop_bit (8 * k) i)) (rev [0..<n])"

definition putint :: "u64 \<Rightarrow> bytes" where
  "putint i =
     (if i < 2 ^ 8 then be_bytes 1 i
      else if i < 2 ^ 16 then be_bytes 2 i
      else if i < 2 ^ 24 then be_bytes 3 i
      else if i < 2 ^ 32 then be_bytes 4 i
      else if i < 2 ^ 40 then be_bytes 5 i
      else if i < 2 ^ 48 then be_bytes 6 i
      else if i < 2 ^ 56 then be_bytes 7 i
      else be_bytes 8 i)"

lemma unat_drop_bit_8: "unat (drop_bit 8 i :: u64) = unat i div 256"
  by (simp only: unat_drop_bit_eq) (simp add: drop_bit_eq_div)

function intsize_loop :: "nat \<Rightarrow> u64 \<Rightarrow> nat" where
  "intsize_loop sz i =
     (let i' = drop_bit 8 i in if i' = 0 then sz else intsize_loop (sz + 1) i')"
  by pat_completeness auto
termination
proof (relation "measure (\<lambda>(_, i). unat i)")
  fix sz :: nat and i x :: u64
  assume "x = drop_bit 8 i" "x \<noteq> 0"
  moreover from this have "unat i div 256 < unat i"
    by (intro div_less_dividend) (auto simp: unat_gt_0)
  ultimately show "((sz + 1, x), sz, i) \<in> measure (\<lambda>(_, i). unat i)"
    unfolding in_measure prod.case by (simp only: unat_drop_bit_8)
qed simp

definition intsize :: "u64 \<Rightarrow> nat" where
  "intsize i = intsize_loop 1 i"

definition headsize :: "u64 \<Rightarrow> nat" where
  "headsize sz = (if sz < 56 then 1 else 1 + intsize sz)"

definition puthead :: "u8 \<Rightarrow> u8 \<Rightarrow> u64 \<Rightarrow> bytes" where
  "puthead smalltag largetag sz =
     (if sz < 56 then [smalltag + ucast sz]
      else (let b = putint sz in (largetag + word_of_nat (length b)) # b))"

definition head_encode :: "listhead \<Rightarrow> bytes" where
  "head_encode h = puthead 0xC0 0xF7 (word_of_nat (lh_size h))"

definition reset :: "encbuf \<Rightarrow> encbuf" where
  "reset w = w\<lparr>eb_lhsize := 0, eb_str := [], eb_lheads := []\<rparr>"

definition eb_append :: "bytes \<Rightarrow> encbuf \<Rightarrow> encbuf" where
  "eb_append b w = w\<lparr>eb_str := eb_str w @ b\<rparr>"

definition encodeStringHeader :: "nat \<Rightarrow> encbuf \<Rightarrow> encbuf" where
  "encodeStringHeader sz w =
     (if sz < 56 then eb_append [0x80 + word_of_nat sz] w
      else (let b = putint (word_of_nat sz)
            in eb_append ((0xB7 + word_of_nat (length b)) # b) w))"

definition encodeString :: "bytes \<Rightarrow> encbuf \<Rightarrow> encbuf" where
  "encodeString b w =
     (if length b = 1 \<and> b ! 0 \<le> 0x7F then eb_append [b ! 0] w
      else eb_append b (encodeStringHeader (length b) w))"

definition eb_size :: "encbuf \<Rightarrow> nat" where
  "eb_size w = length (eb_str w) + eb_lhsize w"

text \<open>\<open>list\<close> returns the new header by its position in \<open>lheads\<close>.\<close>

definition eb_list :: "encbuf \<Rightarrow> nat \<times> encbuf" where
  "eb_list w =
     (length (eb_lheads w),
      w\<lparr>eb_lheads := eb_lheads w @ [\<lparr>lh_offset = length (eb_str w), lh_size = eb_lhsize w\<rparr>]\<rparr>)"

definition listEnd :: "nat \<Rightarrow> encbuf \<Rightarrow> encbuf" where
  "listEnd lh w =
     (let h = eb_lheads w ! lh;
          sz = eb_size w - lh_offset h - lh_size h;
          w' = w\<lparr>eb_lheads := (eb_lheads w)[lh := h\<lparr>lh_size := sz\<rparr>]\<rparr>
      in if sz < 56 then w'\<lparr>eb_lhsize := eb_lhsize w' + 1\<rparr>
         else w'\<lparr>eb_lhsize := eb_lhsize w' + (1 + intsize (word_of_nat sz))\<rparr>)"

definition writeUint :: "u64 \<Rightarrow> encbuf \<Rightarrow> encbuf" where
  "writeUint i w =
     (if i = 0 then eb_append [0x80] w
      else if i < 128 then eb_append [ucast i] w
      else (let b = putint i in eb_append ((0x80 + word_of_nat (length b)) # b) w))"

definition writeBool :: "bool \<Rightarrow> encbuf \<Rightarrow> encbuf" where
  "writeBool b w = eb_append [if b then 0x01 else 0x80] w"

text \<open>\<open>big.Int.Bytes\<close>: the absolute value in big endian without leading zeroes.\<close>

fun nat_bytes :: "nat \<Rightarrow> bytes" where
  "nat_bytes n = (if n = 0 then [] else nat_bytes (n div 256) @ [word_of_nat n])"

declare nat_bytes.simps [simp del]

definition writeBigInt :: "int \<Rightarrow> encbuf \<Rightarrow> rlp_err + encbuf" where
  "writeBigInt i w =
     (if i < 0 then Inl ErrNegativeBigInt
      else if i = 0 then Inr (eb_append [0x80] w)
      else Inr (encodeString (nat_bytes (nat i)) w))"

fun write_val :: "rval \<Rightarrow> encbuf \<Rightarrow> rlp_err + encbuf"
  and write_vals :: "rval list \<Rightarrow> encbuf \<Rightarrow> rlp_err + encbuf" where
  "write_val (RUint i) w = Inr (writeUint i w)"
| "write_val (RBool b) w = Inr (writeBool b w)"
| "write_val (RBytes b) w = Inr (encodeString b w)"
| "write_val (RBigInt i) w = writeBigInt i w"
| "write_val (RRaw b) w = Inr (eb_append b w)"
| "write_val RNilInterface w = Inr (eb_append [0xC0] w)"
| "write_val (RList vs) w =
     (let (lh, w1) = eb_list w in go_map (listEnd lh) (write_vals vs w1))"
| "write_vals [] w = Inr w"
| "write_vals (v # vs) w = go_bind (write_val v w) (write_vals vs)"

text \<open>\<open>toBytes\<close>: an output buffer of the final size is filled from left to right.  Writing a
  header past the end of the buffer would panic.\<close>

definition put_at :: "nat \<Rightarrow> bytes \<Rightarrow> bytes \<Rightarrow> bytes go" where
  "put_at pos src out =
     (if pos + length src \<le> length out
      then Inr (take pos out @ src @ drop (pos + length src) out) else Inl IndexOutOfRange)"

primrec toBytes_loop :: "listhead list \<Rightarrow> bytes \<Rightarrow> nat \<Rightarrow> nat \<Rightarrow> bytes \<Rightarrow> (nat \<times> nat \<times> bytes) go" where
  "toBytes_loop [] str strpos pos out = Inr (strpos, pos, out)"
| "toBytes_loop (head # heads) str strpos pos out =
     (if \<not> (strpos \<le> lh_offset head \<and> lh_offset head \<le> length str) then Inl SliceOutOfRange
      else let src = take (lh_offset head - strpos) (drop strpos str);
               n = min (length out - pos) (length src);
               out1 = take pos out @ take n src @ drop (pos + n) out;
               pos1 = pos + n; strpos1 = strpos + n;
               enc = head_encode head
           in go_bind (put_at pos1 enc out1)
                (\<lambda>out2. toBytes_loop heads str strpos1 (pos1 + length enc) out2))"

definition toBytes :: "encbuf \<Rightarrow> bytes go" where
  "toBytes w =
     go_map (\<lambda>(strpos, pos, out). take pos out @ go_copy (drop pos out) (drop strpos (eb_str w)))
       (toBytes_loop (eb_lheads w) (eb_str w) 0 0 (replicate (eb_size w) 0))"

text \<open>\<open>EncodeToBytes\<close>: the pooled buffer \<open>eb\<close> is reset first.\<close>

definition EncodeToBytes :: "encbuf \<Rightarrow> rval \<Rightarrow> (rlp_err + bytes) go" where
  "EncodeToBytes eb v =
     (case write_val v (reset eb) of Inl e \<Rightarrow> Inr (Inl e) | Inr w \<Rightarrow> go_map Inr (toBytes w))"

text \<open>\<open>toWriter\<close> and \<open>Encode\<close>, for a writer that appends to a buffer and does not fail.\<close>

primrec toWriter_loop :: "listhead list \<Rightarrow> bytes \<Rightarrow> nat \<Rightarrow> bytes \<Rightarrow> (nat \<times> bytes) go" where
  "toWriter_loop [] str strpos out = Inr (strpos, out)"
| "toWriter_loop (head # heads) str strpos out =
     go_bind (if lh_offset head > strpos
              then if lh_offset head \<le> length str
                   then Inr (lh_offset head, out @ take (lh_offset head - strpos) (drop strpos str)) else Inl SliceOutOfRange
              else Inr (strpos, out))
       (\<lambda>(strpos, out). toWriter_loop heads str strpos (out @ head_encode head))"

definition toWriter :: "encbuf \<Rightarrow> bytes \<Rightarrow> bytes go" where
  "toWriter w out = go_map (\<lambda>(strpos, out). if strpos < length (eb_str w) then out @ drop strpos (eb_str w) else out)
     (toWriter_loop (eb_lheads w) (eb_str w) 0 out)"

definition Encode :: "encbuf \<Rightarrow> rval \<Rightarrow> bytes \<Rightarrow> (rlp_err + bytes) go" where
  "Encode eb v out = (case write_val v (reset eb) of Inl e \<Rightarrow> Inr (Inl e) | Inr w \<Rightarrow> go_map Inr (toWriter w out))"

section \<open>Model of raw.go\<close>

datatype rkind = Byte | String | List

definition ListSize :: "u64 \<Rightarrow> u64" where
  "ListSize contentSize = word_of_nat (headsize contentSize) + contentSize"

fun be_word :: "bytes \<Rightarrow> u64" where
  "be_word [] = 0"
| "be_word (x # xs) = push_bit (8 * length xs) (ucast x) OR be_word xs"

definition readSize :: "bytes \<Rightarrow> u8 \<Rightarrow> (rlp_err + u64) go" where
  "readSize b slen =
     (if unat slen > length b then Inr (Inl ErrUnexpectedEOF)
      else let s = (if 1 \<le> slen \<and> slen \<le> 8 then be_word (take (unat slen) b) else 0)
           in go_bind (if s < 56 then Inr True else go_map (\<lambda>b0. b0 = 0) (go_index b 0))
                (\<lambda>bad. if bad then Inr (Inl ErrCanonSize) else Inr (Inr s)))"

definition readKind :: "bytes \<Rightarrow> (rlp_err + rkind \<times> u64 \<times> u64) go" where
  "readKind buf =
     (case buf of [] \<Rightarrow> Inr (Inl ErrUnexpectedEOF)
      | b # bs \<Rightarrow>
          go_bind
            (if b < 0x80 then Inr (Inr (Byte, 0, 1))
             else if b < 0xB8 then
               (let contentsize = ucast (b - 0x80) :: u64
                in if contentsize = 1 \<and> length buf > 1 \<and> buf ! 1 < 128 then Inr (Inl ErrCanonSize)
                   else Inr (Inr (String, 1, contentsize)))
             else if b < 0xC0 then
               go_map (map_sum id (\<lambda>s. (String, ucast (b - 0xB7) + 1, s))) (readSize bs (b - 0xB7))
             else if b < 0xF8 then Inr (Inr (List, 1, ucast (b - 0xC0)))
             else go_map (map_sum id (\<lambda>s. (List, ucast (b - 0xF7) + 1, s))) (readSize bs (b - 0xF7)))
            (\<lambda>r. case r of Inl e \<Rightarrow> Inr (Inl e)
                  | Inr (k, tagsize, contentsize) \<Rightarrow>
                      if contentsize > word_of_nat (length buf) - tagsize
                      then Inr (Inl ErrValueTooLarge)
                      else Inr (Inr (k, tagsize, contentsize))))"

definition go_slice :: "'a list \<Rightarrow> nat \<Rightarrow> nat \<Rightarrow> 'a list go" where
  "go_slice xs lo hi =
     (if lo \<le> hi \<and> hi \<le> length xs then Inr (take (hi - lo) (drop lo xs)) else Inl SliceOutOfRange)"

definition Split :: "bytes \<Rightarrow> (rlp_err + rkind \<times> bytes \<times> bytes) go" where
  "Split b =
     go_bind (readKind b)
       (\<lambda>r. case r of Inl e \<Rightarrow> Inr (Inl e)
             | Inr (k, ts, cs) \<Rightarrow>
                 go_bind (go_slice b (unat ts) (unat (ts + cs)))
                   (\<lambda>content. go_bind (go_slice b (unat (ts + cs)) (length b))
                      (\<lambda>rest. Inr (Inr (k, content, rest)))))"

definition SplitString :: "bytes \<Rightarrow> (rlp_err + bytes \<times> bytes) go" where
  "SplitString b =
     go_bind (Split b)
       (\<lambda>r. case r of Inl e \<Rightarrow> Inr (Inl e)
             | Inr (k, content, rest) \<Rightarrow>
                 if k = List then Inr (Inl ErrExpectedString) else Inr (Inr (content, rest)))"

definition SplitList :: "bytes \<Rightarrow> (rlp_err + bytes \<times> bytes) go" where
  "SplitList b =
     go_bind (Split b)
       (\<lambda>r. case r of Inl e \<Rightarrow> Inr (Inl e)
             | Inr (k, content, rest) \<Rightarrow>
                 if k \<noteq> List then Inr (Inl ErrExpectedList) else Inr (Inr (content, rest)))"

text \<open>\<open>CountValues\<close>: one value per round; \<open>fuel\<close> bounds the rounds.\<close>

fun CountValues_loop :: "nat \<Rightarrow> nat \<Rightarrow> bytes \<Rightarrow> (rlp_err + nat) go option" where
  "CountValues_loop 0 i b = None"
| "CountValues_loop (Suc fuel) i b =
     (if length b = 0 then Some (Inr (Inr i))
      else case readKind b of
          Inl p \<Rightarrow> Some (Inl p)
        | Inr (Inl e) \<Rightarrow> Some (Inr (Inl e))
        | Inr (Inr (_, tagsize, sz)) \<Rightarrow>
            (case go_slice b (unat (tagsize + sz)) (length b) of
               Inl p \<Rightarrow> Some (Inl p)
             | Inr b' \<Rightarrow> CountValues_loop fuel (i + 1) b'))"

definition CountValues :: "bytes \<Rightarrow> (rlp_err + nat) go option" where
  "CountValues b = CountValues_loop (Suc (length b)) 0 b"

section \<open>Integers\<close>

declare intsize_loop.simps [simp del]

lemma drop_bit_8_eq_0: "drop_bit 8 (i :: u64) = 0 \<longleftrightarrow> unat i < 256"
  unfolding unat_eq_0 [symmetric] unat_drop_bit_8 by (simp add: div_eq_0_iff)

lemma intsize_loop_eq:
  "unat i < 256 ^ Suc n \<Longrightarrow> n = 0 \<or> 256 ^ n \<le> unat i \<Longrightarrow> intsize_loop sz i = sz + n"
proof (induction n arbitrary: i sz)
  case 0
  then show ?case by (subst intsize_loop.simps) (simp add: drop_bit_8_eq_0)
next
  case (Suc n)
  have "256 \<le> (256 :: nat) ^ Suc n" by simp
  also have "\<dots> \<le> unat i" using Suc.prems(2) by simp
  finally have big: "\<not> unat i < 256" by simp
  have "unat (drop_bit 8 i) < 256 ^ Suc n"
    unfolding unat_drop_bit_8 using Suc.prems(1) by (simp add: div_less_iff_less_mult mult.commute)
  moreover have "256 ^ n \<le> unat (drop_bit 8 i)"
    unfolding unat_drop_bit_8 using Suc.prems(2) by (simp add: less_eq_div_iff_mult_less_eq mult.commute)
  ultimately have "intsize_loop (sz + 1) (drop_bit 8 i) = sz + 1 + n" using Suc.IH by blast
  then show ?case using big by (subst intsize_loop.simps) (simp add: drop_bit_8_eq_0 Let_def)
qed

lemma putint_obtain:
  obtains n where "n < 8" "putint i = be_bytes (Suc n) i" "unat i < 256 ^ Suc n"
    "n = 0 \<or> 256 ^ n \<le> unat i"
proof -
  have two: "be_bytes 2 i = be_bytes (Suc (Suc 0)) i" by (simp add: numeral_2_eq_2)
  have lim: "unat i < 256 ^ 8" using unsigned_less [of i, where 'a = nat] by simp
  consider (1) "i < 2 ^ 8" | (2) "2 ^ 8 \<le> i" "i < 2 ^ 16" | (3) "2 ^ 16 \<le> i" "i < 2 ^ 24"
    | (4) "2 ^ 24 \<le> i" "i < 2 ^ 32" | (5) "2 ^ 32 \<le> i" "i < 2 ^ 40" | (6) "2 ^ 40 \<le> i" "i < 2 ^ 48"
    | (7) "2 ^ 48 \<le> i" "i < 2 ^ 56" | (8) "2 ^ 56 \<le> i"
    by fastforce
  then show thesis
  proof cases
    case 1 then show thesis by (intro that [of 0]) (auto simp: putint_def word_less_nat_alt)
  next
    case 2 then show thesis
      by (intro that [of 1]) (auto simp: putint_def word_less_nat_alt word_le_nat_alt two)
  next
    case 3 then show thesis by (intro that [of 2]) (auto simp: putint_def word_less_nat_alt word_le_nat_alt)
  next
    case 4 then show thesis by (intro that [of 3]) (auto simp: putint_def word_less_nat_alt word_le_nat_alt)
  next
    case 5 then show thesis by (intro that [of 4]) (auto simp: putint_def word_less_nat_alt word_le_nat_alt)
  next
    case 6 then show thesis by (intro that [of 5]) (auto simp: putint_def word_less_nat_alt word_le_nat_alt)
  next
    case 7 then show thesis by (intro that [of 6]) (auto simp: putint_def word_less_nat_alt word_le_nat_alt)
  next
    case 8 then show thesis using lim
      by (intro that [of 7]) (auto simp: putint_def word_less_nat_alt word_le_nat_alt)
  qed
qed

lemma length_be_bytes [simp]: "length (be_bytes n i) = n"
  by (simp add: be_bytes_def)

lemma be_bytes_Suc: "be_bytes (Suc n) i = ucast (drop_bit (8 * n) i) # be_bytes n i"
  by (simp add: be_bytes_def)

lemma length_putint: "length (putint i) = intsize i"
proof -
  obtain n where "putint i = be_bytes (Suc n) i" "unat i < 256 ^ Suc n" "n = 0 \<or> 256 ^ n \<le> unat i"
    by (rule putint_obtain) blast
  then show ?thesis by (simp add: intsize_def intsize_loop_eq)
qed

lemma intsize_bounds: "1 \<le> intsize i" "intsize i \<le> 8"
proof -
  obtain n where "n < 8" "unat i < 256 ^ Suc n" "n = 0 \<or> 256 ^ n \<le> unat i"
    by (rule putint_obtain) blast
  then show "1 \<le> intsize i" "intsize i \<le> 8" by (simp_all add: intsize_def intsize_loop_eq)
qed

lemma be_word_be_bytes: "be_word (be_bytes n i) = take_bit (8 * n) i"
proof (induction n)
  case (Suc n)
  have "push_bit (8 * n) (ucast (ucast (drop_bit (8 * n) i) :: u8)) OR take_bit (8 * n) i
      = take_bit (8 * Suc n) i"
    by (rule bit_word_eqI) (auto simp: bit_simps)
  then show ?case by (simp add: be_bytes_Suc Suc)
qed (simp add: be_bytes_def)

lemma be_word_putint: "be_word (putint i) = i"
proof -
  obtain n where n: "putint i = be_bytes (Suc n) i" "unat i < 256 ^ Suc n" by (rule putint_obtain) blast
  have "(256 :: nat) ^ Suc n = 2 ^ (8 * Suc n)" by (simp only: power_mult) simp
  then have "unat (take_bit (8 * Suc n) i) = unat i"
    unfolding unsigned_take_bit_eq using n(2) by (simp add: take_bit_nat_eq_self del: mult_Suc_right)
  then have "take_bit (8 * Suc n) i = i" by (simp only: word_unat_eq_iff)
  then show ?thesis by (simp add: n(1) be_word_be_bytes)
qed

section \<open>The reference encoding\<close>

definition enc_str :: "bytes \<Rightarrow> bytes" where
  "enc_str b = (if length b = 1 \<and> b ! 0 \<le> 0x7F then b else puthead 0x80 0xB7 (word_of_nat (length b)) @ b)"

fun enc :: "rval \<Rightarrow> bytes" where
  "enc (RUint i) = (if i = 0 then [0x80] else enc_str (putint i))"
| "enc (RBool b) = [if b then 0x01 else 0x80]"
| "enc (RBytes b) = enc_str b"
| "enc (RBigInt i) = enc_str (nat_bytes (nat i))"
| "enc (RRaw b) = b"
| "enc RNilInterface = [0xC0]"
| "enc (RList vs) =
     (let body = concat (map enc vs) in puthead 0xC0 0xF7 (word_of_nat (length body)) @ body)"

fun enc_ok :: "rval \<Rightarrow> bool" where
  "enc_ok (RBigInt i) \<longleftrightarrow> 0 \<le> i"
| "enc_ok (RList vs) \<longleftrightarrow> list_all enc_ok vs"
| "enc_ok _ \<longleftrightarrow> True"

text \<open>What a value contributes to the buffer at string offset \<open>off\<close>: string data and headers.\<close>

fun fstr :: "rval \<Rightarrow> bytes" where
  "fstr (RList vs) = concat (map fstr vs)"
| "fstr v = enc v"

fun fheads :: "nat \<Rightarrow> rval \<Rightarrow> listhead list"
  and fheads_list :: "nat \<Rightarrow> rval list \<Rightarrow> listhead list" where
  "fheads off (RList vs) =
     \<lparr>lh_offset = off, lh_size = length (concat (map enc vs))\<rparr> # fheads_list off vs"
| "fheads off (RUint _) = []"
| "fheads off (RBool _) = []"
| "fheads off (RBytes _) = []"
| "fheads off (RBigInt _) = []"
| "fheads off (RRaw _) = []"
| "fheads off RNilInterface = []"
| "fheads_list off [] = []"
| "fheads_list off (v # vs) = fheads off v @ fheads_list (off + length (fstr v)) vs"

definition hsize :: "listhead list \<Rightarrow> nat" where
  "hsize hs = sum_list (map (\<lambda>h. length (head_encode h)) hs)"

lemma hsize_simps [simp]:
  "hsize [] = 0" "hsize (h # hs) = length (head_encode h) + hsize hs"
  "hsize (hs @ hs') = hsize hs + hsize hs'"
  by (simp_all add: hsize_def)

lemma length_puthead: "length (puthead a b n) = headsize n"
  by (simp add: puthead_def headsize_def Let_def length_putint)

lemma length_enc_frag:
  "length (enc v) = length (fstr v) + hsize (fheads off v)"
  "length (concat (map enc vs)) = length (concat (map fstr vs)) + hsize (fheads_list off vs)"
proof (induction off v and off vs rule: fheads_fheads_list.induct)
  case (1 off vs)
  then show ?case by (simp add: Let_def head_encode_def length_puthead)
qed simp_all

lemma word_of_nat_less_56:
  "n < 2 ^ 64 \<Longrightarrow> ((word_of_nat n :: u64) < 56) = (n < 56)"
  by (simp add: word_less_nat_alt unat_of_nat)

lemma unat_ucast_u8: "unat (ucast (i :: u64) :: u8) = unat i mod 256"
  by (simp add: unsigned_ucast_eq take_bit_eq_mod)

lemma ucast_u64_u8: "(ucast (word_of_nat n :: u64) :: u8) = word_of_nat n"
  by (simp only: word_unat_eq_iff unat_ucast_u8 unat_of_nat) (simp add: mod_mod_cancel)

lemma encodeString_append:
  assumes "length b < 2 ^ 64"
  shows "encodeString b w = eb_append (enc_str b) w"
proof -
  show ?thesis
    using word_of_nat_less_56 [OF assms]
    by (auto simp: ucast_u64_u8 encodeString_def enc_str_def encodeStringHeader_def puthead_def eb_append_def Let_def
        length_Suc_conv)
qed

lemma putint_less_128: "i \<noteq> 0 \<Longrightarrow> i < 128 \<Longrightarrow> putint i = [ucast i] \<and> ucast i \<le> (0x7F :: u8)"
  by (auto simp: putint_def be_bytes_def word_less_nat_alt word_le_nat_alt unat_ucast_u8)

lemma putint_single: "length (putint i) = 1 \<Longrightarrow> putint i ! 0 \<le> 0x7F \<Longrightarrow> i < 128"
proof -
  assume 1: "length (putint i) = 1" and 2: "putint i ! 0 \<le> 0x7F"
  obtain n where n: "putint i = be_bytes (Suc n) i" "unat i < 256 ^ Suc n" by (rule putint_obtain) blast
  with 1 have "n = 0" by simp
  with n 2 show "i < 128"
    by (simp add: be_bytes_def word_less_nat_alt word_le_nat_alt unat_ucast_u8)
qed

lemma writeUint_append: "writeUint i w = eb_append (enc (RUint i)) w"
proof (cases "i = 0 \<or> i < 128")
  case True
  then show ?thesis using putint_less_128 [of i] by (auto simp: writeUint_def enc_str_def)
next
  case False
  have "length (putint i) < 56" using intsize_bounds [of i] by (simp add: length_putint)
  then show ?thesis
    using False putint_single [of i] word_of_nat_less_56 [of "length (putint i)"]
    by (auto simp: ucast_u64_u8 writeUint_def enc_str_def puthead_def Let_def)
qed

section \<open>The buffered encoder computes the reference encoding\<close>

definition eb_extend :: "bytes \<Rightarrow> listhead list \<Rightarrow> encbuf \<Rightarrow> encbuf" where
  "eb_extend s hs w = \<lparr>eb_str = eb_str w @ s, eb_lheads = eb_lheads w @ hs, eb_lhsize = eb_lhsize w + hsize hs\<rparr>"

lemma eb_append_extend: "eb_append b w = eb_extend b [] w"
  by (simp add: eb_append_def eb_extend_def)

lemma eb_extend_extend: "eb_extend s' hs' (eb_extend s hs w) = eb_extend (s @ s') (hs @ hs') w"
  by (simp add: eb_extend_def)

lemma length_enc_bytes: "length b \<le> length (enc_str b)"
  by (simp add: enc_str_def)

lemma listEnd_extend:
  assumes "n = length s + hsize hs" "n < 2 ^ 64"
  shows "listEnd (length (eb_lheads w)) (eb_extend s hs (snd (eb_list w))) =
    eb_extend s (\<lparr>lh_offset = length (eb_str w), lh_size = n\<rparr> # hs) w"
  using assms word_of_nat_less_56 [of n]
  by (simp add: listEnd_def eb_list_def eb_extend_def eb_size_def nth_append Let_def
      head_encode_def length_puthead headsize_def)

lemma write_val_frag:
  "enc_ok v \<Longrightarrow> length (enc v) < 2 ^ 64
    \<Longrightarrow> write_val v w = Inr (eb_extend (fstr v) (fheads (length (eb_str w)) v) w)"
  "list_all enc_ok vs \<Longrightarrow> length (concat (map enc vs)) < 2 ^ 64
    \<Longrightarrow> write_vals vs w = Inr (eb_extend (concat (map fstr vs)) (fheads_list (length (eb_str w)) vs) w)"
proof (induction v w and vs w rule: write_val_write_vals.induct)
  case (3 b w)
  then have "length b < 2 ^ 64" using length_enc_bytes [of b] by simp
  then show ?case by (simp add: encodeString_append eb_append_extend)
next
  case (4 i w)
  then have "length (nat_bytes (nat i)) < 2 ^ 64" using length_enc_bytes [of "nat_bytes (nat i)"] by simp
  moreover have "enc_str [] = [0x80]" by (simp add: enc_str_def puthead_def)
  ultimately show ?case using 4
    by (auto simp: writeBigInt_def encodeString_append eb_append_extend nat_bytes.simps [of 0])
next
  case (7 vs w)
  let ?n = "length (concat (map enc vs))"
  have "?n < 2 ^ 64" using 7(3) by (simp add: Let_def)
  moreover have "?n = length (concat (map fstr vs)) + hsize (fheads_list (length (eb_str w)) vs)"
    by (rule length_enc_frag)
  ultimately show ?case
    using 7(1) [OF refl, of "length (eb_lheads w)" "snd (eb_list w)"] 7(2) listEnd_extend
    by (simp add: eb_list_def)
next
  case (9 v vs w)
  then show ?case by (simp add: eb_extend_extend) (simp add: eb_extend_def)
qed (simp_all add: writeUint_append eb_append_extend writeBool_def eb_extend_def [of "[]" "[]"])

text \<open>Splicing headers into string data.\<close>

fun rend :: "nat \<Rightarrow> listhead list \<Rightarrow> bytes \<Rightarrow> bytes" where
  "rend p [] s = s"
| "rend p (h # hs) s =
     take (lh_offset h - p) s @ head_encode h @ rend (lh_offset h) hs (drop (lh_offset h - p) s)"

fun hok :: "nat \<Rightarrow> nat \<Rightarrow> listhead list \<Rightarrow> bool" where
  "hok p q [] \<longleftrightarrow> p \<le> q"
| "hok p q (h # hs) \<longleftrightarrow> p \<le> lh_offset h \<and> hok (lh_offset h) q hs"

lemma hok_le: "hok p q hs \<Longrightarrow> p \<le> q"
  by (induction hs arbitrary: p) (auto intro: order_trans)

lemma hok_append: "hok p q hs \<Longrightarrow> hok q r hs' \<Longrightarrow> hok p r (hs @ hs')"
proof (induction hs arbitrary: p)
  case Nil
  then show ?case by (cases hs') (auto dest: hok_le)
qed simp

lemma rend_shift:
  "hok (p + length s) q hs \<Longrightarrow> rend p hs (s @ s') = s @ rend (p + length s) hs s'"
  by (cases hs) auto

lemma rend_append:
  "hok p (p + length s) hs \<Longrightarrow> hok (p + length s) q hs'
    \<Longrightarrow> rend p (hs @ hs') (s @ s') = rend p hs s @ rend (p + length s) hs' s'"
proof (induction hs arbitrary: p s)
  case Nil
  then show ?case by (simp add: rend_shift)
next
  case (Cons h hs)
  let ?k = "lh_offset h - p"
  have k: "p \<le> lh_offset h" "lh_offset h \<le> p + length s" using Cons.prems(1) by (auto dest: hok_le)
  then have "lh_offset h + length (drop ?k s) = p + length s" by simp
  then show ?case
    using Cons.IH [of "lh_offset h" "drop ?k s"] Cons.prems k by (simp add: add.commute)
qed

lemma rend_frag:
  "hok off (off + length (fstr v)) (fheads off v) \<and> rend off (fheads off v) (fstr v) = enc v"
  "hok off (off + length (concat (map fstr vs))) (fheads_list off vs)
    \<and> rend off (fheads_list off vs) (concat (map fstr vs)) = concat (map enc vs)"
proof (induction off v and off vs rule: fheads_fheads_list.induct)
  case (1 off vs)
  then show ?case by (simp add: head_encode_def Let_def)
next
  case (9 off v vs)
  then show ?case
    by (auto simp: add.assoc intro: hok_append rend_append [THEN trans])
qed simp_all

lemma toBytes_loop_rend:
  assumes "hok strpos (length str) hs" "length out = pos + (length str - strpos) + hsize hs"
  shows "\<exists>strpos' pos' out'. toBytes_loop hs str strpos pos out = Inr (strpos', pos', out')
    \<and> take pos' out' @ go_copy (drop pos' out') (drop strpos' str)
      = take pos out @ rend strpos hs (drop strpos str)"
  using assms
proof (induction hs arbitrary: strpos pos out)
  case Nil
  then show ?case by (simp add: go_copy_same_length)
next
  case (Cons h hs)
  let ?o = "lh_offset h" and ?e = "head_encode h"
  let ?src = "take (?o - strpos) (drop strpos str)"
  let ?out1 = "take pos out @ ?src @ drop (pos + (?o - strpos)) out"
  let ?out2 = "take (pos + (?o - strpos)) ?out1 @ ?e @ drop (pos + (?o - strpos) + length ?e) ?out1"
  have o: "strpos \<le> ?o" "?o \<le> length str" "hok ?o (length str) hs"
    using Cons.prems(1) by (auto dest: hok_le)
  have out: "length out = pos + (length str - strpos) + length ?e + hsize hs" using Cons.prems(2) by simp
  have src: "length ?src = ?o - strpos" using o by simp
  have len2: "length ?out2 = length out" using out o by simp
  have pre: "take (pos + (?o - strpos) + length ?e) ?out2 = take pos out @ ?src @ ?e"
    using out o by simp
  have n: "min (length out - pos) (length ?src) = ?o - strpos" using o out src by simp
  have tk: "take (?o - strpos) ?src = ?src" by simp
  have sp: "strpos + (?o - strpos) = ?o" using o by simp
  have put: "put_at (pos + (?o - strpos)) ?e ?out1 = Inr ?out2" using o out by (simp add: put_at_def)
  have "toBytes_loop (h # hs) str strpos pos out
      = toBytes_loop hs str ?o (pos + (?o - strpos) + length ?e) ?out2"
    unfolding toBytes_loop.simps Let_def n tk sp put go_bind_simps
    by (simp only: o(1,2) simp_thms if_False)
  moreover have "\<exists>strpos' pos' out'.
      toBytes_loop hs str ?o (pos + (?o - strpos) + length ?e) ?out2 = Inr (strpos', pos', out')
    \<and> take pos' out' @ go_copy (drop pos' out') (drop strpos' str)
      = take (pos + (?o - strpos) + length ?e) ?out2 @ rend ?o hs (drop ?o str)"
    by (rule Cons.IH) (use o out len2 in simp_all)
  ultimately show ?case unfolding pre using o by simp
qed

lemma EncodeToBytes_enc:
  assumes "enc_ok v" "length (enc v) < 2 ^ 64"
  shows "EncodeToBytes eb v = Inr (Inr (enc v))"
proof -
  let ?w = "eb_extend (fstr v) (fheads 0 v) (reset eb)"
  have w: "write_val v (reset eb) = Inr ?w"
    using write_val_frag(1) [OF assms, of "reset eb"] by (simp add: reset_def)
  have "hok 0 (length (fstr v)) (fheads 0 v)" "rend 0 (fheads 0 v) (fstr v) = enc v"
    using rend_frag(1) [of 0 v] by simp_all
  then have "toBytes ?w = Inr (enc v)"
    using toBytes_loop_rend [of 0 "fstr v" "fheads 0 v" "replicate (length (fstr v) + hsize (fheads 0 v)) 0" 0]
    by (auto simp: toBytes_def eb_extend_def reset_def eb_size_def)
  then show ?thesis by (simp add: EncodeToBytes_def w)
qed

section \<open>Splitting what the encoder wrote\<close>

lemma toWriter_loop_rend:
  "hok strpos (length str) hs \<Longrightarrow> \<exists>strpos' out'. toWriter_loop hs str strpos out = Inr (strpos', out')
    \<and> out' @ drop strpos' str = out @ rend strpos hs (drop strpos str)"
proof (induction hs arbitrary: strpos out)
  case (Cons h hs)
  let ?o = "lh_offset h"
  have o: "strpos \<le> ?o" "?o \<le> length str" "hok ?o (length str) hs" using Cons.prems by (auto dest: hok_le)
  have "toWriter_loop (h # hs) str strpos out
      = toWriter_loop hs str ?o ((out @ take (?o - strpos) (drop strpos str)) @ head_encode h)"
    using o by auto
  moreover obtain strpos' out' where
    "toWriter_loop hs str ?o ((out @ take (?o - strpos) (drop strpos str)) @ head_encode h) = Inr (strpos', out')"
    "out' @ drop strpos' str = ((out @ take (?o - strpos) (drop strpos str)) @ head_encode h) @ rend ?o hs (drop ?o str)"
    using Cons.IH [OF o(3)] by blast
  ultimately show ?case using o by simp
qed simp

lemma Encode_enc:
  assumes "enc_ok v" "length (enc v) < 2 ^ 64"
  shows "Encode eb v out = Inr (Inr (out @ enc v))"
proof -
  let ?w = "eb_extend (fstr v) (fheads 0 v) (reset eb)"
  have w: "write_val v (reset eb) = Inr ?w"
    using write_val_frag(1) [OF assms, of "reset eb"] by (simp add: reset_def)
  have "hok 0 (length (fstr v)) (fheads 0 v)" "rend 0 (fheads 0 v) (fstr v) = enc v"
    using rend_frag(1) [of 0 v] by simp_all
  then obtain p out' where "toWriter_loop (fheads 0 v) (fstr v) 0 out = Inr (p, out')" "out' @ drop p (fstr v) = out @ enc v"
    using toWriter_loop_rend [of 0 "fstr v" "fheads 0 v" out] by auto
  then have "toWriter ?w out = Inr (out @ enc v)" by (auto simp: toWriter_def eb_extend_def reset_def)
  then show ?thesis by (simp add: Encode_def w)
qed

lemma putint_hd_nonzero: "256 \<le> unat i \<or> i \<noteq> 0 \<Longrightarrow> putint i ! 0 \<noteq> 0"
proof -
  assume i: "256 \<le> unat i \<or> i \<noteq> 0"
  obtain n where n: "putint i = be_bytes (Suc n) i" "unat i < 256 ^ Suc n" "n = 0 \<or> 256 ^ n \<le> unat i"
    by (rule putint_obtain) blast
  have p: "(2 :: nat) ^ (8 * n) = 256 ^ n" by (simp add: power_mult)
  have "unat (drop_bit (8 * n) i) = unat i div 256 ^ n"
    by (simp only: unat_drop_bit_eq) (simp add: drop_bit_eq_div p)
  moreover have "unat i div 256 ^ n < 256" using n(2) by (simp add: div_less_iff_less_mult mult.commute)
  moreover have "0 < unat i div 256 ^ n"
    using n(3) i unat_gt_0 [of i] by (auto simp: div_greater_zero_iff Suc_le_eq)
  ultimately have "unat (putint i ! 0) \<noteq> 0" by (simp add: n(1) be_bytes_Suc unat_ucast_u8)
  then show ?thesis by (metis unat_0)
qed

lemma readSize_putint:
  assumes "56 \<le> L" "m = word_of_nat (length (putint L))"
  shows "readSize (putint L @ rest) m = Inr (Inr L)"
proof -
  have n: "1 \<le> length (putint L)" "length (putint L) \<le> 8" using intsize_bounds by (simp_all add: length_putint)
  then have m: "unat m = length (putint L)" by (simp add: assms(2) unat_of_nat)
  have "putint L ! 0 \<noteq> 0" using assms(1) by (intro putint_hd_nonzero) auto
  moreover have "\<not> L < 56" using assms(1) by simp
  moreover have "1 \<le> m" "m \<le> 8" using n m by (simp_all add: word_le_nat_alt)
  moreover have "putint L \<noteq> []" using n(1) by auto
  ultimately show ?thesis using m n(1) by (simp add: readSize_def be_word_putint nth_append Let_def)
qed

lemma unat_tag:
  "k \<le> 8 \<Longrightarrow> unat (0xB7 + word_of_nat k :: u8) = 0xB7 + k"
  "k \<le> 8 \<Longrightarrow> unat (0xF7 + word_of_nat k :: u8) = 0xF7 + k"
  "k < 56 \<Longrightarrow> unat (0x80 + word_of_nat k :: u8) = 0x80 + k"
  "k < 56 \<Longrightarrow> unat (0xC0 + word_of_nat k :: u8) = 0xC0 + k"
  by (simp_all add: unat_word_ariths unat_of_nat)

lemma size_fits:
  assumes "length buf < 2 ^ 64" "t + n \<le> length buf"
  shows "\<not> word_of_nat n > (word_of_nat (length buf) - word_of_nat t :: u64)"
proof -
  have "unat (word_of_nat (length buf) - word_of_nat t :: u64) = length buf - t"
    using assms by (simp add: unat_sub word_le_nat_alt unat_of_nat)
  then show ?thesis using assms by (simp add: word_less_nat_alt unat_of_nat)
qed

text \<open>The four kinds of tag.\<close>

lemma readKind_byte: "t < 0x80 \<Longrightarrow> length (t # bs) < 2 ^ 64 \<Longrightarrow> readKind (t # bs) = Inr (Inr (Byte, 0, 1))"
  using size_fits [of "t # bs" 0 1] by (simp add: readKind_def)

lemma readKind_string:
  "\<not> t < 0x80 \<Longrightarrow> t < 0xB8 \<Longrightarrow> ucast (t - 0x80) = n \<Longrightarrow> \<not> (n = 1 \<and> bs \<noteq> [] \<and> bs ! 0 < 128)
    \<Longrightarrow> \<not> n > word_of_nat (length (t # bs)) - 1 \<Longrightarrow> readKind (t # bs) = Inr (Inr (String, 1, n))"
  by (simp add: readKind_def Let_def)

lemma readKind_long_string:
  "\<not> t < 0x80 \<Longrightarrow> \<not> t < 0xB8 \<Longrightarrow> t < 0xC0 \<Longrightarrow> readSize bs (t - 0xB7) = Inr (Inr n)
    \<Longrightarrow> ucast (t - 0xB7) + 1 = ts \<Longrightarrow> \<not> n > word_of_nat (length (t # bs)) - ts
    \<Longrightarrow> readKind (t # bs) = Inr (Inr (String, ts, n))"
  by (simp add: readKind_def)

lemma readKind_list:
  "\<not> t < 0x80 \<Longrightarrow> \<not> t < 0xB8 \<Longrightarrow> \<not> t < 0xC0 \<Longrightarrow> t < 0xF8 \<Longrightarrow> ucast (t - 0xC0) = n
    \<Longrightarrow> \<not> n > word_of_nat (length (t # bs)) - 1 \<Longrightarrow> readKind (t # bs) = Inr (Inr (List, 1, n))"
  by (simp add: readKind_def)

lemma readKind_long_list:
  "\<not> t < 0x80 \<Longrightarrow> \<not> t < 0xB8 \<Longrightarrow> \<not> t < 0xC0 \<Longrightarrow> \<not> t < 0xF8 \<Longrightarrow> readSize bs (t - 0xF7) = Inr (Inr n)
    \<Longrightarrow> ucast (t - 0xF7) + 1 = ts \<Longrightarrow> \<not> n > word_of_nat (length (t # bs)) - ts
    \<Longrightarrow> readKind (t # bs) = Inr (Inr (List, ts, n))"
  by (simp add: readKind_def)

text \<open>A header followed by its content.\<close>

lemma readKind_head:
  assumes len: "length (puthead 0x80 0xB7 (word_of_nat (length c)) @ c @ r) < 2 ^ 64"
    and canon: "length c = 1 \<Longrightarrow> \<not> c ! 0 \<le> 0x7F"
  shows "readKind (puthead 0x80 0xB7 (word_of_nat (length c)) @ c @ r)
    = Inr (Inr (String, word_of_nat (headsize (word_of_nat (length c))), word_of_nat (length c)))"
proof -
  let ?n = "word_of_nat (length c) :: u64" and ?buf = "puthead 0x80 0xB7 (word_of_nat (length c)) @ c @ r"
  have fit: "\<not> word_of_nat (length c) > (word_of_nat (length ?buf) - word_of_nat (headsize ?n) :: u64)"
    using size_fits [OF len, of "headsize ?n" "length c"] by (simp add: length_puthead)
  have lc: "length c < 2 ^ 64" using len by simp
  show ?thesis
  proof (cases "length c < 56")
    case True
    let ?t = "0x80 + word_of_nat (length c) :: u8"
    have t: "unat ?t = 0x80 + length c" using True by (rule unat_tag)
    have h: "puthead 0x80 0xB7 ?n = [?t]" "headsize ?n = 1"
      using True lc by (simp_all add: puthead_def headsize_def word_of_nat_less_56 ucast_u64_u8)
    have cs: "(ucast (?t - 0x80) :: u64) = ?n"
      using True by (simp add: word_unat_eq_iff unsigned_ucast_eq take_bit_eq_mod unat_of_nat)
    have "?n = 1 \<longleftrightarrow> length c = 1" using lc by (simp add: word_unat_eq_iff unat_of_nat)
    then have "\<not> (?n = 1 \<and> (c @ r) ! 0 < 128)"
      using canon by (auto simp: word_le_nat_alt word_less_nat_alt nth_append)
    moreover have "\<not> ?t < 0x80" "?t < 0xB8" unfolding word_less_nat_alt t using True by simp_all
    ultimately show ?thesis
      using readKind_string [of ?t ?n "c @ r"] cs fit unfolding h by simp
  next
    case False
    let ?b = "putint ?n" and ?t = "0xB7 + word_of_nat (length (putint ?n)) :: u8"
    have k: "1 \<le> length ?b" "length ?b \<le> 8" using intsize_bounds [of ?n] by (simp_all add: length_putint)
    have t: "unat ?t = 0xB7 + length ?b" using k(2) by (rule unat_tag)
    have h: "puthead 0x80 0xB7 ?n = ?t # ?b" "headsize ?n = 1 + length ?b"
      using False lc by (simp_all add: puthead_def headsize_def word_of_nat_less_56 Let_def length_putint)
    have ts: "(ucast (?t - 0xB7) :: u64) + 1 = word_of_nat (1 + length ?b)"
      using k by (simp add: word_unat_eq_iff unsigned_ucast_eq take_bit_eq_mod unat_of_nat unat_word_ariths)
    have "readSize (?b @ c @ r) (?t - 0xB7) = Inr (Inr ?n)"
      using False lc by (intro readSize_putint) (simp_all add: word_le_nat_alt unat_of_nat)
    moreover have "\<not> ?t < 0x80" "\<not> ?t < 0xB8" "?t < 0xC0"
      unfolding word_less_nat_alt t using k by (simp_all add: Suc_le_eq)
    ultimately show ?thesis
      using readKind_long_string [of ?t "?b @ c @ r" ?n "word_of_nat (1 + length ?b)"] ts fit unfolding h by simp
  qed
qed

lemma readKind_list_head:
  assumes len: "length (puthead 0xC0 0xF7 (word_of_nat (length c)) @ c @ r) < 2 ^ 64"
  shows "readKind (puthead 0xC0 0xF7 (word_of_nat (length c)) @ c @ r)
    = Inr (Inr (List, word_of_nat (headsize (word_of_nat (length c))), word_of_nat (length c)))"
proof -
  let ?n = "word_of_nat (length c) :: u64" and ?buf = "puthead 0xC0 0xF7 (word_of_nat (length c)) @ c @ r"
  have fit: "\<not> word_of_nat (length c) > (word_of_nat (length ?buf) - word_of_nat (headsize ?n) :: u64)"
    using size_fits [OF len, of "headsize ?n" "length c"] by (simp add: length_puthead)
  have lc: "length c < 2 ^ 64" using len by simp
  show ?thesis
  proof (cases "length c < 56")
    case True
    let ?t = "0xC0 + word_of_nat (length c) :: u8"
    have t: "unat ?t = 0xC0 + length c" using True by (rule unat_tag)
    have h: "puthead 0xC0 0xF7 ?n = [?t]" "headsize ?n = 1"
      using True lc by (simp_all add: puthead_def headsize_def word_of_nat_less_56 ucast_u64_u8)
    have cs: "(ucast (?t - 0xC0) :: u64) = ?n"
      using True by (simp add: word_unat_eq_iff unsigned_ucast_eq take_bit_eq_mod unat_of_nat)
    have "\<not> ?t < 0x80" "\<not> ?t < 0xB8" "\<not> ?t < 0xC0" "?t < 0xF8"
      unfolding word_less_nat_alt t using True by simp_all
    then show ?thesis using readKind_list [of ?t ?n "c @ r"] cs fit unfolding h by simp
  next
    case False
    let ?b = "putint ?n" and ?t = "0xF7 + word_of_nat (length (putint ?n)) :: u8"
    have k: "1 \<le> length ?b" "length ?b \<le> 8" using intsize_bounds [of ?n] by (simp_all add: length_putint)
    have t: "unat ?t = 0xF7 + length ?b" using k(2) by (rule unat_tag)
    have h: "puthead 0xC0 0xF7 ?n = ?t # ?b" "headsize ?n = 1 + length ?b"
      using False lc by (simp_all add: puthead_def headsize_def word_of_nat_less_56 Let_def length_putint)
    have ts: "(ucast (?t - 0xF7) :: u64) + 1 = word_of_nat (1 + length ?b)"
      using k by (simp add: word_unat_eq_iff unsigned_ucast_eq take_bit_eq_mod unat_of_nat unat_word_ariths)
    have "readSize (?b @ c @ r) (?t - 0xF7) = Inr (Inr ?n)"
      using False lc by (intro readSize_putint) (simp_all add: word_le_nat_alt unat_of_nat)
    moreover have "\<not> ?t < 0x80" "\<not> ?t < 0xB8" "\<not> ?t < 0xC0" "\<not> ?t < 0xF8"
      unfolding word_less_nat_alt t using k by (simp_all add: Suc_le_eq)
    ultimately show ?thesis
      using readKind_long_list [of ?t "?b @ c @ r" ?n "word_of_nat (1 + length ?b)"] ts fit
      unfolding h by simp
  qed
qed

lemma Split_of_readKind:
  assumes "length (h @ c @ r) < 2 ^ 64"
    and "readKind (h @ c @ r) = Inr (Inr (k, word_of_nat (length h), word_of_nat (length c)))"
  shows "Split (h @ c @ r) = Inr (Inr (k, c, r))"
proof -
  have "unat (word_of_nat (length h) :: u64) = length h"
    "unat (word_of_nat (length h) + word_of_nat (length c) :: u64) = length h + length c"
    using assms(1) by (simp_all add: unat_of_nat flip: of_nat_add)
  then show ?thesis by (simp add: Split_def assms(2) go_slice_def)
qed

datatype item = Str bytes | Lst "item list"

fun enc_item :: "item \<Rightarrow> bytes" where
  "enc_item (Str b) = enc_str b"
| "enc_item (Lst xs) =
     (let body = concat (map enc_item xs) in puthead 0xC0 0xF7 (word_of_nat (length body)) @ body)"

lemma Split_Str:
  assumes "length (enc_item (Str b) @ r) < 2 ^ 64"
  shows "\<exists>k. k \<noteq> List \<and> Split (enc_item (Str b) @ r) = Inr (Inr (k, b, r))"
proof (cases "length b = 1 \<and> b ! 0 \<le> 0x7F")
  case True
  then obtain x where b: "b = [x]" "x \<le> 0x7F" by (auto simp: length_Suc_conv)
  then have "x < 0x80" by (simp add: word_less_nat_alt word_le_nat_alt)
  then have "Split ([] @ b @ r) = Inr (Inr (Byte, b, r))"
    using assms b True by (intro Split_of_readKind) (auto simp: enc_str_def readKind_byte)
  then show ?thesis using True by (auto simp: enc_str_def)
next
  case False
  then have e: "enc_item (Str b) @ r = puthead 0x80 0xB7 (word_of_nat (length b)) @ b @ r"
    by (auto simp: enc_str_def)
  have "Split (puthead 0x80 0xB7 (word_of_nat (length b)) @ b @ r) = Inr (Inr (String, b, r))"
    using assms False unfolding e
    by (intro Split_of_readKind) (auto simp: length_puthead intro!: readKind_head)
  then show ?thesis unfolding e by blast
qed

lemma Split_String:
  assumes "length (enc_item (Str b) @ r) < 2 ^ 64" "length b \<noteq> 1"
  shows "Split (enc_item (Str b) @ r) = Inr (Inr (String, b, r))"
proof -
  have e: "enc_item (Str b) @ r = puthead 0x80 0xB7 (word_of_nat (length b)) @ b @ r"
    using assms(2) by (auto simp: enc_str_def)
  show ?thesis using assms unfolding e
    by (intro Split_of_readKind) (auto simp: length_puthead intro!: readKind_head)
qed

lemma Split_Lst:
  assumes "length (enc_item (Lst xs) @ r) < 2 ^ 64"
  shows "Split (enc_item (Lst xs) @ r) = Inr (Inr (List, concat (map enc_item xs), r))"
  using assms Split_of_readKind [of "puthead 0xC0 0xF7 (word_of_nat (length (concat (map enc_item xs))))"
      "concat (map enc_item xs)" r List] readKind_list_head [of "concat (map enc_item xs)" r]
  by (simp add: Let_def length_puthead)

lemma enc_item_nonempty: "enc_item x \<noteq> []"
  by (cases x) (auto simp: enc_str_def puthead_def Let_def)

lemma enc_items_inj:
  assumes "\<And>x y r r'. x \<in> set xs \<Longrightarrow> length (enc_item x @ r) < 2 ^ 64 \<Longrightarrow> enc_item x @ r = enc_item y @ r'
      \<Longrightarrow> x = y \<and> r = r'"
    and "length (concat (map enc_item xs)) < 2 ^ 64" "concat (map enc_item xs) = concat (map enc_item ys)"
  shows "xs = ys"
  using assms
proof (induction xs arbitrary: ys)
  case Nil
  then show ?case by (cases ys) (simp_all add: enc_item_nonempty)
next
  case (Cons x xs)
  show ?case
  proof (cases ys)
    case Nil
    then show ?thesis using Cons.prems(3) enc_item_nonempty [of x] by simp
  next
    case (Cons y ys')
    have "length (enc_item x @ concat (map enc_item xs)) < 2 ^ 64" using Cons.prems(2) by simp
    moreover have "enc_item x @ concat (map enc_item xs) = enc_item y @ concat (map enc_item ys')"
      using Cons.prems(3) Cons by simp
    ultimately have "x = y \<and> concat (map enc_item xs) = concat (map enc_item ys')"
      by (intro Cons.prems(1)) simp_all
    then show ?thesis using Cons.IH [of ys'] Cons.prems(1,2) Cons by auto
  qed
qed

lemma enc_item_inj:
  "length (enc_item x @ r) < 2 ^ 64 \<Longrightarrow> enc_item x @ r = enc_item y @ r' \<Longrightarrow> x = y \<and> r = r'"
proof (induction x arbitrary: r y r')
  case (Str b)
  have y: "length (enc_item y @ r') < 2 ^ 64" using Str.prems by (simp only:)
  obtain k where k: "k \<noteq> List" "Split (enc_item (Str b) @ r) = Inr (Inr (k, b, r))"
    using Split_Str [OF Str.prems(1)] by blast
  show ?case
  proof (cases y)
    case (Str c)
    then show ?thesis using Split_Str [OF y [unfolded Str]] k Str.prems(2) by auto
  next
    case (Lst ys)
    then show ?thesis using Split_Lst [OF y [unfolded Lst]] k Str.prems(2) by auto
  qed
next
  case (Lst xs)
  note sp = Split_Lst [OF Lst.prems(1)]
  have len: "length (enc_item y @ r') < 2 ^ 64" using Lst.prems by (simp only:)
  show ?case
  proof (cases y)
    case (Str c)
    then show ?thesis using Split_Str [OF len [unfolded Str]] sp Lst.prems(2) by auto
  next
    case y: (Lst ys)
    then have "concat (map enc_item xs) = concat (map enc_item ys)" "r = r'"
      using Split_Lst [OF len [unfolded y]] sp Lst.prems(2) by auto
    moreover have "xs = ys"
      using Lst.IH Lst.prems(1) \<open>concat (map enc_item xs) = concat (map enc_item ys)\<close>
      by (intro enc_items_inj) (auto simp: Let_def)
    ultimately show ?thesis using y by simp
  qed
qed

fun item_of :: "rval \<Rightarrow> item" where
  "item_of (RUint i) = Str (if i = 0 then [] else putint i)"
| "item_of (RBool b) = Str (if b then [1] else [])"
| "item_of (RBytes b) = Str b"
| "item_of (RBigInt i) = Str (nat_bytes (nat i))"
| "item_of (RRaw b) = Str b"
| "item_of RNilInterface = Lst []"
| "item_of (RList vs) = Lst (map item_of vs)"

fun no_raw :: "rval \<Rightarrow> bool" where
  "no_raw (RRaw _) \<longleftrightarrow> False"
| "no_raw (RList vs) \<longleftrightarrow> list_all no_raw vs"
| "no_raw _ \<longleftrightarrow> True"

lemma enc_str_simps: "enc_str [] = [0x80]" "enc_str [1] = [1]"
  by (simp_all add: enc_str_def puthead_def)

lemma enc_item_of: "no_raw v \<Longrightarrow> enc v = enc_item (item_of v)"
proof (induction v)
  case (RList vs)
  then have "map enc vs = map (enc_item \<circ> item_of) vs" by (auto simp: list_all_iff)
  then show ?case by (simp only: enc.simps item_of.simps enc_item.simps map_map)
qed (simp_all add: enc_str_simps puthead_def)

section \<open>Malformed input\<close>

lemma readSize_total:
  "(\<exists>e. readSize b n = Inr (Inl e)) \<or> (\<exists>s. readSize b n = Inr (Inr s) \<and> unat n \<le> length b)"
proof (cases "unat n > length b")
  case True
  then show ?thesis by (simp add: readSize_def)
next
  case False
  have "b \<noteq> []" if "1 \<le> n" using False that by (auto simp: word_le_nat_alt)
  then show ?thesis using False by (cases b) (auto simp: readSize_def Let_def)
qed

definition kind_ok :: "bytes \<Rightarrow> (rlp_err + rkind \<times> u64 \<times> u64) go \<Rightarrow> bool" where
  "kind_ok b m \<longleftrightarrow> (case m of Inl _ \<Rightarrow> False | Inr (Inl _) \<Rightarrow> True
     | Inr (Inr (k, ts, cs)) \<Rightarrow> unat ts + unat cs \<le> length b \<and> 0 < unat ts + unat cs \<and> (k = List \<longrightarrow> 0 < unat ts))"

lemma kind_ok_err [simp]: "kind_ok b (Inr (Inl e))"
  by (simp add: kind_ok_def)

lemma kind_ok_fit:
  assumes "length b < 2 ^ 64" "unat ts \<le> length b" "0 < unat ts + unat cs" "k = List \<longrightarrow> 0 < unat ts"
  shows "kind_ok b (if word_of_nat (length b) - ts < cs then Inr (Inl ErrValueTooLarge)
     else Inr (Inr (k, ts, cs)))"
  using assms unat_sub [of ts "word_of_nat (length b)"]
  by (auto simp: kind_ok_def word_less_nat_alt word_le_nat_alt unat_of_nat)

lemma kind_ok_sized:
  assumes b: "length (t # bs) < 2 ^ 64"
  shows "kind_ok (t # bs) (go_bind (go_map (map_sum id (\<lambda>s. (k, ucast n + 1, s))) (readSize bs n))
    (\<lambda>r. case r of Inl e \<Rightarrow> Inr (Inl e)
      | Inr (k, tagsize, contentsize) \<Rightarrow>
          if contentsize > word_of_nat (length (t # bs)) - tagsize then Inr (Inl ErrValueTooLarge)
          else Inr (Inr (k, tagsize, contentsize))))"
proof (cases "\<exists>e. readSize bs n = Inr (Inl e)")
  case False
  then obtain s where s: "readSize bs n = Inr (Inr s)" "unat n \<le> length bs"
    using readSize_total [of bs n] by blast
  have "unat (ucast n + 1 :: u64) = unat n + 1"
    using unsigned_less [of n, where 'a = nat] by (simp add: unat_word_ariths unsigned_ucast_eq take_bit_eq_mod)
  then show ?thesis using s(2) kind_ok_fit [OF b, of "ucast n + 1"] by (simp add: s(1) del: length_Cons)
qed auto

lemma readKind_ok:
  assumes "length b < 2 ^ 64"
  shows "kind_ok b (readKind b)"
proof (cases b)
  case (Cons t bs)
  note len = assms [unfolded Cons]
  consider "t < 0x80" | "\<not> t < 0x80" "t < 0xB8" | "\<not> t < 0x80" "\<not> t < 0xB8" "t < 0xC0"
    | "\<not> t < 0x80" "\<not> t < 0xB8" "\<not> t < 0xC0" "t < 0xF8"
    | "\<not> t < 0x80" "\<not> t < 0xB8" "\<not> t < 0xC0" "\<not> t < 0xF8" by blast
  then show ?thesis
  proof cases
    case 1 then show ?thesis using kind_ok_fit [OF len, of 0 1 Byte] by (simp add: Cons readKind_def)
  next
    case 2 then show ?thesis using kind_ok_fit [OF len, of 1 "ucast (t - 0x80)" String]
      by (simp add: Cons readKind_def Let_def del: length_Cons)
  next
    case 3 then show ?thesis using kind_ok_sized [OF len, of String "t - 0xB7"]
      unfolding Cons readKind_def list.case by (simp only: if_True if_False)
  next
    case 4 then show ?thesis using kind_ok_fit [OF len, of 1 "ucast (t - 0xC0)" List]
      by (simp add: Cons readKind_def del: length_Cons)
  next
    case 5 then show ?thesis using kind_ok_sized [OF len, of List "t - 0xF7"]
      unfolding Cons readKind_def list.case by (simp only: if_True if_False)
  qed
qed (simp add: readKind_def)

lemma Split_total:
  assumes len: "length b < 2 ^ 64"
  shows "(\<exists>e. Split b = Inr (Inl e)) \<or>
    (\<exists>k content rest tag. Split b = Inr (Inr (k, content, rest)) \<and> b = tag @ content @ rest
      \<and> length rest < length b \<and> (k = List \<longrightarrow> tag \<noteq> []))"
proof (cases "readKind b")
  case (Inl p)
  then show ?thesis using readKind_ok [OF len] by (simp add: kind_ok_def)
next
  case (Inr r)
  show ?thesis
  proof (cases r)
    case (Inl e)
    then show ?thesis using Inr by (simp add: Split_def)
  next
    case (Inr x)
    obtain k ts cs where x: "x = (k, ts, cs)" by (cases x)
    then have rk: "readKind b = Inr (Inr (k, ts, cs))" using \<open>readKind b = Inr r\<close> Inr by simp
    then have le: "unat ts + unat cs \<le> length b" "0 < unat ts + unat cs" "k = List \<longrightarrow> 0 < unat ts"
      using readKind_ok [OF len] by (simp_all add: kind_ok_def)
    have "unat (ts + cs) = unat ts + unat cs"
      using le(1) len by (intro unat_add_lem [THEN iffD1]) simp
    then have "Split b = Inr (Inr (k, take (unat cs) (drop (unat ts) b), drop (unat ts + unat cs) b))"
      using le by (simp add: Split_def rk go_slice_def)
    moreover have "b = take (unat ts) b @ take (unat cs) (drop (unat ts) b) @ drop (unat ts + unat cs) b"
      by (metis append_take_drop_id drop_drop add.commute)
    moreover have "length (drop (unat ts + unat cs) b) < length b"
      unfolding length_drop using le by linarith
    moreover have "k = List \<longrightarrow> take (unat ts) b \<noteq> []" using le by auto
    ultimately show ?thesis by blast
  qed
qed

text \<open>\<open>CountValues\<close> consumes at least one byte per round.\<close>

lemma CountValues_loop_total:
  "length b < fuel \<Longrightarrow> length b < 2 ^ 64 \<Longrightarrow> \<exists>r. CountValues_loop fuel i b = Some (Inr r)"
proof (induction fuel arbitrary: i b)
  case (Suc fuel)
  show ?case
  proof (cases "readKind b")
    case (Inl p)
    then show ?thesis using readKind_ok [OF Suc.prems(2)] by (simp add: kind_ok_def)
  next
    case (Inr r)
    show ?thesis
    proof (cases r)
      case (Inr x)
      obtain k ts cs where x: "x = (k, ts, cs)" by (cases x)
      then have rk: "readKind b = Inr (Inr (k, ts, cs))" using \<open>readKind b = Inr r\<close> Inr by simp
      then have le: "unat ts + unat cs \<le> length b" "0 < unat ts + unat cs"
        using readKind_ok [OF Suc.prems(2)] by (simp_all add: kind_ok_def)
      have "unat (ts + cs) = unat ts + unat cs"
        using le(1) Suc.prems(2) by (intro unat_add_lem [THEN iffD1]) simp
      moreover have "length (drop (unat ts + unat cs) b) < fuel"
        "length (drop (unat ts + unat cs) b) < 2 ^ 64" using le Suc.prems by simp_all linarith
      ultimately show ?thesis
        using rk le Suc.IH [of "drop (unat ts + unat cs) b" "i + 1"] by (simp add: go_slice_def)
    qed (simp add: \<open>readKind b = Inr r\<close>)
  qed
qed simp

lemma Split_readKind:
  assumes "Split b = Inr (Inr (k, c, r))"
  shows "\<exists>ts cs. readKind b = Inr (Inr (k, ts, cs)) \<and> go_slice b (unat (ts + cs)) (length b) = Inr r"
  using assms by (auto simp: Split_def go_bind_def split: sum.splits)

lemma Split_item: "length (enc_item x @ r) < 2 ^ 64 \<Longrightarrow> \<exists>k c. Split (enc_item x @ r) = Inr (Inr (k, c, r))"
  using Split_Str Split_Lst by (cases x) blast+

lemma CountValues_loop_items:
  "length (concat (map enc_item xs)) < 2 ^ 64 \<Longrightarrow> length xs < fuel
    \<Longrightarrow> CountValues_loop fuel i (concat (map enc_item xs)) = Some (Inr (Inr (i + length xs)))"
proof (induction xs arbitrary: fuel i)
  case Nil
  then show ?case by (cases fuel) simp_all
next
  case (Cons x xs)
  obtain f where f: "fuel = Suc f" using Cons.prems(2) by (cases fuel) auto
  obtain k c where "Split (enc_item x @ concat (map enc_item xs)) = Inr (Inr (k, c, concat (map enc_item xs)))"
    using Split_item [of x "concat (map enc_item xs)"] Cons.prems(1) by auto
  then obtain ts cs where "readKind (enc_item x @ concat (map enc_item xs)) = Inr (Inr (k, ts, cs))"
    "go_slice (enc_item x @ concat (map enc_item xs)) (unat (ts + cs)) (length (enc_item x @ concat (map enc_item xs))) = Inr (concat (map enc_item xs))"
    using Split_readKind by blast
  moreover have "CountValues_loop f (i + 1) (concat (map enc_item xs)) = Some (Inr (Inr (i + 1 + length xs)))"
    using Cons.prems f by (intro Cons.IH) simp_all
  ultimately show ?case using f by (simp add: enc_item_nonempty)
qed

lemma length_items: "length xs \<le> length (concat (map enc_item xs))"
proof (induction xs)
  case (Cons x xs)
  have "Suc 0 \<le> length (enc_item x)" using enc_item_nonempty [of x] by (cases "enc_item x") simp_all
  then have "Suc 0 + length xs \<le> length (enc_item x) + length (concat (map enc_item xs))" using Cons.IH by (rule add_mono)
  then show ?case by simp
qed simp

lemma CountValues_items:
  "length (concat (map enc_item xs)) < 2 ^ 64 \<Longrightarrow> CountValues (concat (map enc_item xs)) = Some (Inr (Inr (length xs)))"
  unfolding CountValues_def using CountValues_loop_items [of xs _ 0] length_items [of xs] by (simp del: CountValues_loop.simps)

section \<open>Properties\<close>

text \<open>C33: \<open>EncodeToBytes\<close> never panics and, whatever the pooled buffer held before, returns the
  recursive RLP encoding of the value: splicing the header table into the string data is the same
  as prefixing every list body with its header.\<close>
theorem EncodeToBytes_correct:
  assumes "enc_ok v" "length (enc v) < 2 ^ 64"
  shows "EncodeToBytes eb v = Inr (Inr (enc v))"
  by (rule EncodeToBytes_enc [OF assms])

abbreviation rval_example :: rval where
  "rval_example \<equiv> RList [RUint 1024, RList [RBytes [1, 2, 3], RBool True], RBigInt 300, RNilInterface]"

lemma small_length: "length xs < 100 \<Longrightarrow> length xs < 2 ^ 64"
  by simp

lemma rval_example_ok: "enc_ok rval_example" "length (enc rval_example) < 2 ^ 64"
  by code_simp (rule small_length, code_simp)

theorem EncodeToBytes_correct_witness:
  "EncodeToBytes \<lparr>eb_str = [7], eb_lheads = [], eb_lhsize = 3\<rparr> rval_example
    = Inr (Inr (enc rval_example))"
  by (rule EncodeToBytes_correct) (rule rval_example_ok)+

text \<open>The encoding determines the value up to the RLP view of it (integers and booleans are
  byte strings): two values without raw parts that encode to the same bytes denote the same item.\<close>
theorem encoding_injective:
  assumes "enc_ok v" "enc_ok v'" "no_raw v" "no_raw v'" "length (enc v) < 2 ^ 64" "length (enc v') < 2 ^ 64"
    and "EncodeToBytes eb v = EncodeToBytes eb' v'"
  shows "item_of v = item_of v'"
proof -
  have "enc v = enc v'" using assms by (simp add: EncodeToBytes_enc)
  then show ?thesis
    using enc_item_inj [of "item_of v" "[]" "item_of v'" "[]"] assms by (simp add: enc_item_of)
qed

theorem encoding_injective_witness: "item_of (RBool True) = item_of (RUint 1)"
proof (rule encoding_injective)
  show "EncodeToBytes (reset w) (RBool True) = EncodeToBytes (reset w) (RUint 1)" for w
    by (simp add: EncodeToBytes_enc enc_str_def putint_def be_bytes_def)
qed (simp_all add: enc_str_def putint_def be_bytes_def)

text \<open>C34: \<open>SplitList\<close> and \<open>SplitString\<close> undo the encoder: the content of a list is the
  concatenation of the encodings of its elements, the content of a string is the string, and the
  bytes behind the value are returned untouched.\<close>
theorem Split_undoes_encoding:
  assumes "length (enc_item (Lst xs) @ rest) < 2 ^ 64" "length (enc_item (Str b) @ rest) < 2 ^ 64"
  shows "SplitList (enc_item (Lst xs) @ rest) = Inr (Inr (concat (map enc_item xs), rest))
    \<and> SplitString (enc_item (Str b) @ rest) = Inr (Inr (b, rest))
    \<and> SplitString (enc_item (Lst xs) @ rest) = Inr (Inl ErrExpectedString)
    \<and> SplitList (enc_item (Str b) @ rest) = Inr (Inl ErrExpectedList)"
  using Split_Lst [OF assms(1)] Split_Str [OF assms(2)]
  by (auto simp: SplitList_def SplitString_def)

theorem Split_undoes_encoding_witness:
  "SplitList (enc_item (Lst [Str [200]]) @ [9]) = Inr (Inr (concat (map enc_item [Str [200]]), [9]))
    \<and> SplitString (enc_item (Str [200]) @ [9]) = Inr (Inr ([200], [9]))
    \<and> SplitString (enc_item (Lst [Str [200]]) @ [9]) = Inr (Inl ErrExpectedString)
    \<and> SplitList (enc_item (Str [200]) @ [9]) = Inr (Inl ErrExpectedList)"
  by (rule Split_undoes_encoding; rule small_length; code_simp)

text \<open>C37: On arbitrary input \<open>Split\<close> and \<open>CountValues\<close> never panic and \<open>CountValues\<close>
  terminates: \<open>Split\<close> either reports an error or cuts the input into tag, content and a strictly
  shorter rest.\<close>
theorem Split_safe:
  assumes "length b < 2 ^ 64"
  shows "((\<exists>e. Split b = Inr (Inl e)) \<or>
      (\<exists>k content rest tag. Split b = Inr (Inr (k, content, rest)) \<and> b = tag @ content @ rest
        \<and> length rest < length b))
    \<and> (\<exists>r. CountValues b = Some (Inr r))"
proof
  show "\<exists>r. CountValues b = Some (Inr r)" using CountValues_loop_total [of b "Suc (length b)" 0] assms by (simp add: CountValues_def)
qed (use Split_total [OF assms] in blast)

theorem Split_safe_witness:
  "((\<exists>e. Split [0xB8, 56] = Inr (Inl e)) \<or>
      (\<exists>k content rest tag. Split [0xB8, 56] = Inr (Inr (k, content, rest))
        \<and> [0xB8, 56] = tag @ content @ rest \<and> length rest < length [0xB8, 56 :: u8]))
    \<and> (\<exists>r. CountValues [0xB8, 56] = Some (Inr r))"
  by (rule Split_safe) simp

end
