(* ===== verification/QuorumCert.thy ===== *)
theory QuorumCert
  imports Bit_Array Rlp "HOL-Library.Product_Lexorder"
begin

text \<open>
  Quorum certificates: \<open>consensus/pbft/types/crypto.go\<close> and \<open>step.go\<close>.  Pointers to
  certificates that the code never leaves nil are values; \<open>*utils.BitArray\<close> is an option.  The
  hash function \<open>crypto.Keccak256\<close> is the parameter \<open>keccak\<close>; the bytes it is applied to are
  the RLP encoding of the listed fields.  \<open>threshold\<close> is the quorum size of \<open>pbft.go\<close>, and the
  locale \<open>quorum_system\<close> is what the agreement arguments use of it.
\<close>

section \<open>Model\<close>

type_synonym signature = bytes

definition SignatureLength :: nat where "SignatureLength = 64"

definition SetBytes :: "bytes \<Rightarrow> signature \<Rightarrow> signature" where
  "SetBytes signSlice sig = go_copy sig signSlice"

definition Bytes_sig :: "signature \<Rightarrow> bytes" where
  "Bytes_sig sig = go_copy (replicate (length sig) 0) sig"

definition BytesToSignature :: "bytes \<Rightarrow> signature" where
  "BytesToSignature signSlice = go_copy (replicate SignatureLength 0) signSlice"

type_synonym roundStepType = u32

abbreviation RoundStepPrepareBlock :: roundStepType where "RoundStepPrepareBlock \<equiv> 0x01"
abbreviation RoundStepPrepareVote :: roundStepType where "RoundStepPrepareVote \<equiv> 0x02"
abbreviation RoundStepPreCommit :: roundStepType where "RoundStepPreCommit \<equiv> 0x03"

definition IsValid_step :: "roundStepType \<Rightarrow> bool" where
  "IsValid_step rs \<longleftrightarrow> (ucast rs :: u8) \<ge> 0x01 \<and> (ucast rs :: u8) \<le> 0x08"

record quorumCert =
  q_Epoch :: u64
  q_ViewNumber :: u64
  q_BlockHash :: hash
  q_BlockNumber :: u64
  q_BlockIndex :: u32
  q_Step :: roundStepType
  q_Signature :: signature
  q_ValidatorSet :: "bitArray option"

text \<open>\<open>Hash.Bytes\<close>: the 32 bytes of a hash; \<open>EncodeToBytes\<close> followed by \<open>Keccak256\<close>.\<close>

definition hash_bytes :: "hash \<Rightarrow> bytes" where
  "hash_bytes h = map (\<lambda>k. ucast (drop_bit (8 * k) h)) (rev [0..<32])"

definition fresh_encbuf :: encbuf where
  "fresh_encbuf = \<lparr>eb_str = [], eb_lheads = [], eb_lhsize = 0\<rparr>"

definition cannibalize :: "(bytes \<Rightarrow> bytes) \<Rightarrow> rval list \<Rightarrow> (rlp_err + bytes) go" where
  "cannibalize keccak fs = go_map (map_sum id keccak) (EncodeToBytes fresh_encbuf (RList fs))"

definition CannibalizeBytes_qc :: "(bytes \<Rightarrow> bytes) \<Rightarrow> quorumCert \<Rightarrow> (rlp_err + bytes) go" where
  "CannibalizeBytes_qc keccak q =
     cannibalize keccak [RUint (q_Epoch q), RUint (q_ViewNumber q), RBytes (hash_bytes (q_BlockHash q)),
       RUint (q_BlockNumber q), RUint (ucast (q_BlockIndex q)), RUint (ucast (q_Step q))]"

text \<open>\<open>for i := uint32(0); i < set.Size(); i++ { if set.GetIndex(i) { length++ } }\<close>\<close>

definition count_set :: "bitArray option \<Rightarrow> nat go" where
  "count_set p =
     go_fold (\<lambda>i n. go_map (\<lambda>b. if b then n + 1 else n) (GetIndex p i)) (range_u32 (Size p)) 0"

definition Len_qc :: "quorumCert \<Rightarrow> nat go" where
  "Len_qc q = count_set (q_ValidatorSet q)"

definition HigherBlockView :: "quorumCert \<Rightarrow> u64 \<Rightarrow> u64 \<Rightarrow> bool" where
  "HigherBlockView q blockEpoch blockView \<longleftrightarrow>
     q_Epoch q > blockEpoch \<or> q_Epoch q = blockEpoch \<and> q_ViewNumber q > blockView"

definition HigherQuorumCert :: "quorumCert \<Rightarrow> u64 \<Rightarrow> u64 \<Rightarrow> u64 \<Rightarrow> bool" where
  "HigherQuorumCert q blockNumber blockEpoch blockView =
     (if q_BlockNumber q > blockNumber then True
      else if q_BlockNumber q = blockNumber then HigherBlockView q blockEpoch blockView
      else False)"

definition HigherStep :: "quorumCert \<Rightarrow> roundStepType \<Rightarrow> bool" where
  "HigherStep q step = (if q_Step q > step then True else False)"

record viewChangeQuorumCert =
  vq_Epoch :: u64
  vq_ViewNumber :: u64
  vq_BlockHash :: hash
  vq_BlockNumber :: u64
  vq_BlockEpoch :: u64
  vq_BlockViewNumber :: u64
  vq_Signature :: signature
  vq_ValidatorSet :: "bitArray option"

definition CannibalizeBytes_vcqc :: "(bytes \<Rightarrow> bytes) \<Rightarrow> viewChangeQuorumCert \<Rightarrow> (rlp_err + bytes) go" where
  "CannibalizeBytes_vcqc keccak q =
     cannibalize keccak [RUint (vq_Epoch q), RUint (vq_ViewNumber q), RBytes (hash_bytes (vq_BlockHash q)),
       RUint (vq_BlockNumber q), RUint (vq_BlockEpoch q), RUint (vq_BlockViewNumber q)]"

definition Len_vcqc :: "viewChangeQuorumCert \<Rightarrow> nat go" where
  "Len_vcqc q = count_set (vq_ValidatorSet q)"

definition HigherBlockView_vc :: "viewChangeQuorumCert \<Rightarrow> u64 \<Rightarrow> u64 \<Rightarrow> bool" where
  "HigherBlockView_vc q blockEpoch blockView \<longleftrightarrow>
     vq_BlockEpoch q > blockEpoch \<or> vq_BlockEpoch q = blockEpoch \<and> vq_BlockViewNumber q > blockView"

definition HigherQuorumCert_vc :: "viewChangeQuorumCert \<Rightarrow> viewChangeQuorumCert \<Rightarrow> bool" where
  "HigherQuorumCert_vc q c =
     (if vq_BlockNumber q > vq_BlockNumber c then True
      else if vq_BlockNumber q = vq_BlockNumber c
      then HigherBlockView_vc q (vq_BlockEpoch c) (vq_BlockViewNumber c)
      else False)"

text \<open>\<open>Copy\<close> leaves \<open>BlockEpoch\<close> and \<open>BlockViewNumber\<close> at zero.\<close>

definition Copy_vcqc :: "viewChangeQuorumCert \<Rightarrow> viewChangeQuorumCert" where
  "Copy_vcqc q =
     \<lparr>vq_Epoch = vq_Epoch q, vq_ViewNumber = vq_ViewNumber q, vq_BlockHash = vq_BlockHash q,
      vq_BlockNumber = vq_BlockNumber q, vq_BlockEpoch = 0, vq_BlockViewNumber = 0,
      vq_Signature = vq_Signature q, vq_ValidatorSet = Copy_ba (vq_ValidatorSet q)\<rparr>"

record viewChangeQC =
  QCs :: "viewChangeQuorumCert list"

text \<open>\<open>EqualAll\<close> returns the block number of the first certificate that differs as its error.\<close>

definition EqualAll :: "viewChangeQC \<Rightarrow> u64 \<Rightarrow> u64 \<Rightarrow> u64 \<Rightarrow> u64 option" where
  "EqualAll v epoch viewNumber blockNumber =
     map_option vq_BlockNumber
       (first_match (\<lambda>q. vq_ViewNumber q \<noteq> viewNumber \<or> vq_Epoch q \<noteq> epoch \<or> vq_BlockNumber q \<noteq> blockNumber)
         (QCs v))"

fun max_loop :: "viewChangeQuorumCert list \<Rightarrow> viewChangeQuorumCert \<Rightarrow> viewChangeQuorumCert" where
  "max_loop [] maxQC = maxQC"
| "max_loop (qc # qcs) maxQC = max_loop qcs (if HigherQuorumCert_vc qc maxQC then qc else maxQC)"

definition MaxBlock :: "viewChangeQC \<Rightarrow> u64 \<times> u64 \<times> u64 \<times> u64 \<times> hash \<times> u64" where
  "MaxBlock v =
     (case QCs v of [] \<Rightarrow> (0, 0, 0, 0, 0, 0)
      | q # _ \<Rightarrow>
          (let m = max_loop (QCs v) q
           in (vq_Epoch m, vq_ViewNumber m, vq_BlockEpoch m, vq_BlockViewNumber m, vq_BlockHash m,
               vq_BlockNumber m)))"

definition Len_vc :: "viewChangeQC \<Rightarrow> nat go" where
  "Len_vc v = go_fold (\<lambda>qc n. go_map (\<lambda>k. n + k) (Len_vcqc qc)) (QCs v) 0"

definition ExistViewChange :: "viewChangeQC \<Rightarrow> u64 \<Rightarrow> u64 \<Rightarrow> hash \<Rightarrow> bool" where
  "ExistViewChange v epoch viewNumber blockHash \<longleftrightarrow>
     list_ex (\<lambda>vc. vq_Epoch vc = epoch \<and> vq_ViewNumber vc = viewNumber \<and> vq_BlockHash vc = blockHash) (QCs v)"

definition AppendQuorumCert :: "viewChangeQuorumCert \<Rightarrow> viewChangeQC \<Rightarrow> viewChangeQC" where
  "AppendQuorumCert q v = v\<lparr>QCs := QCs v @ [q]\<rparr>"

text \<open>The quorum size of \<open>pbft.go\<close>; \<open>num\<close> is a validator count, hence positive.\<close>

definition threshold :: "nat \<Rightarrow> nat" where
  "threshold num = num - (num - 1) div 3"

section \<open>Counting signers\<close>

lemma go_fold_count:
  "(\<And>x. x \<in> set xs \<Longrightarrow> g x = Inr (P x)) \<Longrightarrow>
    go_fold (\<lambda>x n. go_map (\<lambda>b. if b then n + 1 else n) (g x)) xs n = Inr (n + length (filter P xs))"
  by (induction xs arbitrary: n) auto

lemma count_set_nil [simp]: "count_set None = Inr 0"
  by (simp add: count_set_def Size_def range_u32_def)

lemma count_set_wf:
  assumes "wf_ba bA"
  shows "count_set (Some bA) = Inr (card (ba_bits bA))"
proof -
  have "count_set (Some bA) = Inr (length (filter (\<lambda>i. unat i \<in> ba_bits bA) (range_u32 (Bits bA))))"
    using go_fold_count [of "range_u32 (Bits bA)" "GetIndex (Some bA)"] getIndex_wf [OF assms]
    by (simp add: count_set_def Size_def GetIndex_def)
  also have "length (filter (\<lambda>i. unat i \<in> ba_bits bA) (range_u32 (Bits bA)))
      = length (filter (\<lambda>i. i \<in> ba_bits bA) (map unat (range_u32 (Bits bA))))"
    by (simp add: filter_map o_def)
  also have "\<dots> = card (ba_bits bA)"
    unfolding unat_range_u32 using ba_bits_less by (subst distinct_length_filter) (auto intro!: arg_cong [of _ _ card])
  finally show ?thesis .
qed

text \<open>A certificate whose \<open>Elems\<close> is shorter than \<open>Bits\<close> needs panics the counter.\<close>

lemma count_set_short:
  assumes "unat (Bits bA) > 0" "Elems bA = []"
  shows "count_set (Some bA) = Inl IndexOutOfRange"
proof -
  have "range_u32 (Bits bA) = word_of_nat 0 # map word_of_nat [1..<unat (Bits bA)]"
    using assms(1) by (simp add: range_u32_def upt_conv_Cons)
  then show ?thesis
    using assms by (simp add: count_set_def Size_def GetIndex_def getIndex_def word_le_nat_alt)
qed

section \<open>Quorums\<close>

locale quorum_system =
  fixes qsize :: "nat \<Rightarrow> nat" and faults :: "nat \<Rightarrow> nat"
  assumes overlap: "0 < n \<Longrightarrow> n + faults n < 2 * qsize n"
    and available: "0 < n \<Longrightarrow> faults n + qsize n \<le> n"
begin

definition quorum :: "nat \<Rightarrow> nat set \<Rightarrow> bool" where
  "quorum n S \<longleftrightarrow> S \<subseteq> {..<n} \<and> qsize n \<le> card S"

lemma quorum_finite: "quorum n S \<Longrightarrow> finite S"
  by (auto simp: quorum_def intro: finite_subset)

lemma quorum_overlap:
  assumes "0 < n" "quorum n S" "quorum n T"
  shows "faults n < card (S \<inter> T)"
proof -
  have "card (S \<union> T) \<le> n" using assms card_mono [of "{..<n}" "S \<union> T"] by (auto simp: quorum_def)
  moreover have "card S + card T = card (S \<union> T) + card (S \<inter> T)"
    using assms quorum_finite by (intro card_Un_Int) auto
  ultimately show ?thesis using overlap [OF assms(1)] assms(2,3) by (simp add: quorum_def)
qed

lemma honest_in_overlap:
  assumes "0 < n" "quorum n S" "quorum n T" "finite B" "card B \<le> faults n"
  obtains i where "i \<in> S" "i \<in> T" "i \<notin> B"
proof -
  have "\<not> S \<inter> T \<subseteq> B"
    using quorum_overlap [OF assms(1-3)] card_mono [OF assms(4), of "S \<inter> T"] assms(5) by auto
  then show thesis using that by blast
qed

lemma honest_quorum:
  assumes "0 < n" "B \<subseteq> {..<n}" "card B \<le> faults n"
  shows "quorum n ({..<n} - B)"
  using assms available [OF assms(1)] card_Diff_subset [of B "{..<n}"] finite_subset [of B "{..<n}"]
  by (auto simp: quorum_def)

end

definition max_faults :: "nat \<Rightarrow> nat" where
  "max_faults num = (num - 1) div 3"

interpretation qs: quorum_system threshold max_faults
proof
  fix n :: nat assume n: "0 < n"
  have "3 * max_faults n \<le> n - 1" unfolding max_faults_def by (simp add: mult.commute)
  moreover have "max_faults n \<le> n" unfolding max_faults_def by (rule order_trans [OF div_le_dividend]) simp
  ultimately show "n + max_faults n < 2 * threshold n" "max_faults n + threshold n \<le> n"
    using n by (simp_all add: threshold_def flip: max_faults_def)
qed

section \<open>The order on certificates\<close>

definition vq_key :: "viewChangeQuorumCert \<Rightarrow> u64 \<times> u64 \<times> u64" where
  "vq_key q = (vq_BlockNumber q, vq_BlockEpoch q, vq_BlockViewNumber q)"

definition q_key :: "quorumCert \<Rightarrow> u64 \<times> u64 \<times> u64" where
  "q_key q = (q_BlockNumber q, q_Epoch q, q_ViewNumber q)"

lemma HigherQuorumCert_key: "HigherQuorumCert q n e v \<longleftrightarrow> (n, e, v) < q_key q"
  by (auto simp: HigherQuorumCert_def HigherBlockView_def q_key_def less_prod_def)

lemma HigherQuorumCert_vc_key: "HigherQuorumCert_vc q c \<longleftrightarrow> vq_key c < vq_key q"
  by (auto simp: HigherQuorumCert_vc_def HigherBlockView_vc_def vq_key_def less_prod_def)

lemma max_loop_max:
  "max_loop qs q \<in> insert q (set qs) \<and> (\<forall>c \<in> insert q (set qs). vq_key c \<le> vq_key (max_loop qs q))"
proof (induction qs arbitrary: q)
  case (Cons c qs)
  show ?case
    using Cons [of "if HigherQuorumCert_vc c q then c else q"]
    by (auto simp: HigherQuorumCert_vc_key split: if_splits intro: order_trans dest: less_imp_le)
qed simp

section \<open>Digests\<close>

lemma length_enc_RUint: "length (enc (RUint i)) \<le> 9"
proof -
  have "length (putint i) \<le> 8" using intsize_bounds [of i] by (simp add: length_putint)
  moreover from this have "(word_of_nat (length (putint i)) :: u64) < 56" by (simp add: word_of_nat_less_56)
  ultimately show ?thesis by (simp add: enc_str_def puthead_def)
qed

lemma length_hash_bytes [simp]: "length (hash_bytes h) = 32"
  by (simp add: hash_bytes_def)

lemma length_enc_hash: "length (enc (RBytes (hash_bytes h))) = 33"
  by (simp add: enc_str_def puthead_def)

lemma hash_bytes_inj: "hash_bytes h = hash_bytes h' \<Longrightarrow> h = h'"
proof (rule bit_word_eqI)
  fix n assume eq: "hash_bytes h = hash_bytes h'" and n: "n < LENGTH(256)"
  have "\<forall>k \<in> set (rev [0..<32]). (ucast (drop_bit (8 * k) h) :: u8) = ucast (drop_bit (8 * k) h')"
    using eq by (simp only: hash_bytes_def map_eq_conv)
  moreover have "n div 8 \<in> set (rev [0..<32])"
    unfolding set_rev set_upt using n less_mult_imp_div_less [of n 32 8] by simp
  ultimately have "(ucast (drop_bit (8 * (n div 8)) h) :: u8) = ucast (drop_bit (8 * (n div 8)) h')"
    by (rule bspec)
  then have "bit (ucast (drop_bit (8 * (n div 8)) h) :: u8) (n mod 8)
      = bit (ucast (drop_bit (8 * (n div 8)) h') :: u8) (n mod 8)" by simp
  then show "bit h n = bit h' n"
    unfolding bit_ucast_iff bit_drop_bit_eq o_def by (simp add: possible_bit_word)
qed

lemma putint_nonempty: "putint i \<noteq> []"
  using intsize_bounds(1) [of i] length_putint [of i] by (cases "putint i") simp_all

lemma putint_inj: "putint i = putint j \<Longrightarrow> i = j"
  by (metis be_word_putint)

lemma item_of_RUint_inj: "item_of (RUint i) = item_of (RUint j) \<Longrightarrow> i = j"
  using putint_nonempty putint_inj by (cases "i = 0"; cases "j = 0") (simp_all, metis+)

text \<open>The six-field digest all votes and certificates share.\<close>

definition digest6 :: "u64 \<Rightarrow> u64 \<Rightarrow> hash \<Rightarrow> u64 \<Rightarrow> u64 \<Rightarrow> u64 \<Rightarrow> rval list" where
  "digest6 a b h c d e = [RUint a, RUint b, RBytes (hash_bytes h), RUint c, RUint d, RUint e]"

definition preimage6 :: "u64 \<Rightarrow> u64 \<Rightarrow> hash \<Rightarrow> u64 \<Rightarrow> u64 \<Rightarrow> u64 \<Rightarrow> bytes" where
  "preimage6 a b h c d e = enc (RList (digest6 a b h c d e))"

lemma length_preimage6: "length (preimage6 a b h c d e) < 2 ^ 64"
proof -
  let ?body = "concat (map enc (digest6 a b h c d e))"
  have "length ?body \<le> 9 + 9 + 33 + 9 + 9 + 9"
    using length_enc_RUint [of a] length_enc_RUint [of b] length_enc_RUint [of c] length_enc_RUint [of d]
      length_enc_RUint [of e] length_enc_hash [of h] unfolding digest6_def by (simp del: enc.simps)
  moreover have "headsize n \<le> 9" for n using intsize_bounds [of n] by (simp add: headsize_def)
  ultimately have "length (preimage6 a b h c d e) \<le> 9 + (9 + 9 + 33 + 9 + 9 + 9)"
    unfolding preimage6_def enc.simps Let_def length_append length_puthead by (intro add_mono)
  then show ?thesis by simp
qed

lemma cannibalize_digest6: "cannibalize keccak (digest6 a b h c d e) = Inr (Inr (keccak (preimage6 a b h c d e)))"
  using EncodeToBytes_enc [of "RList (digest6 a b h c d e)" fresh_encbuf] length_preimage6 [of a b h c d e]
  by (simp add: cannibalize_def preimage6_def digest6_def)

lemma preimage6_inj:
  assumes "preimage6 a b h c d e = preimage6 a' b' h' c' d' e'"
  shows "a = a' \<and> b = b' \<and> h = h' \<and> c = c' \<and> d = d' \<and> e = e'"
proof -
  have "item_of (RList (digest6 a b h c d e)) = item_of (RList (digest6 a' b' h' c' d' e'))"
    using enc_item_inj [of "item_of (RList (digest6 a b h c d e))" "[]" "item_of (RList (digest6 a' b' h' c' d' e'))" "[]"]
      assms length_preimage6 [of a b h c d e]
    by (simp add: preimage6_def enc_item_of [symmetric] digest6_def del: enc.simps item_of.simps)
  then show ?thesis
    unfolding digest6_def item_of.simps(7)
    by (auto simp del: item_of.simps(1) dest: item_of_RUint_inj hash_bytes_inj)
qed

section \<open>Properties\<close>

lemma quorum_of_Len:
  assumes "wf_ba a" "Len_qc (q\<lparr>q_ValidatorSet := Some a\<rparr>) = Inr l" "threshold (unat (Bits a)) \<le> l"
  shows "qs.quorum (unat (Bits a)) (ba_bits a)"
  using assms ba_bits_less by (auto simp: qs.quorum_def Len_qc_def count_set_wf)

lemma GetIndex_member:
  assumes "wf_ba a" "i \<in> ba_bits a"
  shows "GetIndex (Some a) (word_of_nat i) = Inr True"
proof -
  have "unat (word_of_nat i :: u32) = i"
    using ba_bits_less [OF assms(2)] unsigned_less [of "Bits a", where 'a = nat] by (simp add: unat_of_nat)
  then show ?thesis using getIndex_wf [OF assms(1)] assms(2) by (simp add: GetIndex_def)
qed


abbreviation qc_example :: "u64 \<Rightarrow> quorumCert" where
  "qc_example w \<equiv> \<lparr>q_Epoch = 1, q_ViewNumber = 0, q_BlockHash = 7, q_BlockNumber = 5, q_BlockIndex = 0,
     q_Step = RoundStepPreCommit, q_Signature = [], q_ValidatorSet = Some \<lparr>Bits = 4, Elems = [w]\<rparr>\<rparr>"


text \<open>C25: \<open>MaxBlock\<close> of a non-empty view-change certificate returns the fields of one of its
  members, and no member has a lexicographically larger (block number, block epoch, block view).\<close>
theorem MaxBlock_maximal:
  assumes "QCs v \<noteq> []"
  shows "\<exists>m \<in> set (QCs v).
    MaxBlock v = (vq_Epoch m, vq_ViewNumber m, vq_BlockEpoch m, vq_BlockViewNumber m, vq_BlockHash m, vq_BlockNumber m)
    \<and> (\<forall>c \<in> set (QCs v). (vq_BlockNumber c, vq_BlockEpoch c, vq_BlockViewNumber c)
         \<le> (vq_BlockNumber m, vq_BlockEpoch m, vq_BlockViewNumber m))"
proof -
  obtain q qs where q: "QCs v = q # qs" using assms by (cases "QCs v") auto
  have "max_loop (QCs v) q \<in> set (QCs v)" "\<forall>c \<in> set (QCs v). vq_key c \<le> vq_key (max_loop (QCs v) q)"
    using max_loop_max [of "QCs v" q] by (auto simp: q)
  then show ?thesis
    by (intro bexI [of _ "max_loop (QCs v) q"]) (auto simp: MaxBlock_def q vq_key_def Let_def)
qed

abbreviation vcqc_example :: "u64 \<Rightarrow> viewChangeQuorumCert" where
  "vcqc_example n \<equiv> \<lparr>vq_Epoch = 1, vq_ViewNumber = 2, vq_BlockHash = 9, vq_BlockNumber = n, vq_BlockEpoch = 1,
     vq_BlockViewNumber = 1, vq_Signature = [], vq_ValidatorSet = None\<rparr>"

theorem MaxBlock_maximal_witness:
  "\<exists>m \<in> set (QCs \<lparr>QCs = [vcqc_example 3, vcqc_example 8]\<rparr>).
    MaxBlock \<lparr>QCs = [vcqc_example 3, vcqc_example 8]\<rparr>
      = (vq_Epoch m, vq_ViewNumber m, vq_BlockEpoch m, vq_BlockViewNumber m, vq_BlockHash m, vq_BlockNumber m)
    \<and> (\<forall>c \<in> set (QCs \<lparr>QCs = [vcqc_example 3, vcqc_example 8]\<rparr>).
        (vq_BlockNumber c, vq_BlockEpoch c, vq_BlockViewNumber c)
         \<le> (vq_BlockNumber m, vq_BlockEpoch m, vq_BlockViewNumber m))"
  by (rule MaxBlock_maximal) simp

section \<open>Divergences\<close>

text \<open>\<open>Copy\<close> of a view-change certificate does not preserve the block epoch and view, hence
  neither its digest nor its rank.\<close>

lemma Copy_vcqc_loses_rank:
  "vq_key (Copy_vcqc (vcqc_example 3)) \<noteq> vq_key (vcqc_example 3)"
  by (simp add: Copy_vcqc_def vq_key_def)

end
