(* ===== verification/Codec.thy ===== *)
theory Codec
  imports QuorumCert
begin

text \<open>
  The extra data of a block (\<open>consensus/pbft/types/codec.go\<close>): a version byte followed by the RLP form of the
  certificate.  Structs are lists of their fields, a nil pointer to a struct is the empty list.
\<close>

section \<open>Encoding\<close>

definition rval_ba :: "bitArray option \<Rightarrow> rval" where
  "rval_ba p = (case p of None \<Rightarrow> RList [] | Some bA \<Rightarrow> RList [RUint (ucast (Bits bA)), RList (map RUint (Elems bA))])"

definition rval_qc :: "quorumCert option \<Rightarrow> rval" where
  "rval_qc p = (case p of None \<Rightarrow> RList []
     | Some q \<Rightarrow> RList [RUint (q_Epoch q), RUint (q_ViewNumber q), RBytes (hash_bytes (q_BlockHash q)), RUint (q_BlockNumber q),
         RUint (ucast (q_BlockIndex q)), RUint (ucast (q_Step q)), RBytes (q_Signature q), rval_ba (q_ValidatorSet q)])"

definition EncodeExtra :: "u8 \<Rightarrow> quorumCert option \<Rightarrow> (rlp_err + bytes) go" where
  "EncodeExtra pbftVersion qc = go_map (map_sum (\<lambda>e. e) (\<lambda>b. pbftVersion # b)) (EncodeToBytes fresh_encbuf (rval_qc qc))"

lemma write_val_ok:
  "enc_ok v \<Longrightarrow> \<exists>w'. write_val v w = Inr w'"
  "list_all enc_ok vs \<Longrightarrow> \<exists>w'. write_vals vs w = Inr w'"
proof (induction v w and vs w rule: write_val_write_vals.induct)
  case (9 v vs w)
  then show ?case by fastforce
qed (auto simp: writeBigInt_def split: prod.split, metis go_map_simps(2))

lemma enc_ok_rval_qc [simp]: "enc_ok (rval_qc q)"
  by (auto simp: rval_qc_def rval_ba_def list_all_iff split: option.split)

text \<open>Encoding a certificate reports no error.\<close>

lemma EncodeExtra_no_error: "EncodeExtra v q \<noteq> Inr (Inl err)"
proof -
  obtain w where "write_val (rval_qc q) (Rlp.reset fresh_encbuf) = Inr w" using write_val_ok(1) [of "rval_qc q"] by auto
  then show ?thesis by (cases "toBytes w") (simp_all add: EncodeExtra_def EncodeToBytes_def)
qed

end
