(* ===== verification/Protocols.thy ===== *)
theory Protocols
  imports QuorumCert
begin

text \<open>
  The wire messages of the consensus protocol: \<open>consensus/pbft/protocols/protocol.go\<close> and
  \<open>precommit.go\<close>.  A \<open>types.Block\<close> is the record \<open>block\<close> of what the consensus reads of it; its
  hash and its RLP form are data.  Cached message hashes are recomputed.  The SHA3 digest behind
  \<open>BuildHash\<close> is the parameter \<open>sha3\<close>.
\<close>

section \<open>Messages\<close>

record block =
  blk_Hash :: hash
  blk_Number :: u64
  blk_ParentHash :: hash
  blk_Time :: u64
  blk_Rlp :: bytes

record prepareBlock =
  pb_Epoch :: u64
  pb_ViewNumber :: u64
  pb_Block :: block
  pb_BlockIndex :: u32
  pb_ProposalIndex :: u32
  pb_PrepareQC :: "quorumCert option"
  pb_ViewChangeQC :: "viewChangeQC option"
  pb_Signature :: signature

record prepareVote =
  pv_Epoch :: u64
  pv_ViewNumber :: u64
  pv_BlockHash :: hash
  pv_BlockNumber :: u64
  pv_BlockIndex :: u32
  pv_ValidatorIndex :: u32
  pv_ParentQC :: "quorumCert option"
  pv_Signature :: signature

record preCommit =
  pc_Epoch :: u64
  pc_ViewNumber :: u64
  pc_BlockHash :: hash
  pc_BlockNumber :: u64
  pc_BlockIndex :: u32
  pc_ValidatorIndex :: u32
  pc_ParentQC :: "quorumCert option"
  pc_Signature :: signature

record viewChange =
  vc_Epoch :: u64
  vc_ViewNumber :: u64
  vc_BlockHash :: hash
  vc_BlockNumber :: u64
  vc_ValidatorIndex :: u32
  vc_PrepareQC :: "quorumCert option"
  vc_Signature :: signature

record pbftStatusData =
  sd_ProtocolVersion :: u32
  sd_QCBn :: nat
  sd_QCBlock :: hash
  sd_LockBn :: nat
  sd_LockBlock :: hash
  sd_CmtBn :: nat
  sd_CmtBlock :: hash

record getPrepareBlock =
  gpb_Epoch :: u64
  gpb_BlockNumber :: u64
  gpb_ViewNumber :: u64
  gpb_BlockIndex :: u32

record getBlockQuorumCert =
  gbq_BlockHash :: hash
  gbq_BlockNumber :: u64

record getBlockPreCommitQuorumCert =
  gbp_BlockHash :: hash
  gbp_BlockNumber :: u64

record blockQuorumCert =
  bq_BlockQC :: quorumCert

record blockPreCommitQuorumCert =
  bp_BlockQC :: quorumCert

record getQCBlockList =
  gql_Epoch :: u64
  gql_BlockHash :: hash
  gql_BlockNumber :: u64

record getPrepareVote =
  gpv_Epoch :: u64
  gpv_ViewNumber :: u64
  gpv_BlockNumber :: u64
  gpv_BlockIndex :: u32
  gpv_UnKnownSet :: "bitArray option"

record getPreCommit =
  gpc_Epoch :: u64
  gpc_ViewNumber :: u64
  gpc_BlockNumber :: u64
  gpc_BlockIndex :: u32
  gpc_UnKnownSet :: "bitArray option"

record prepareVotes =
  pvs_Epoch :: u64
  pvs_ViewNumber :: u64
  pvs_BlockIndex :: u32
  pvs_Votes :: "prepareVote list"

record preCommits =
  pcs_Epoch :: u64
  pcs_ViewNumber :: u64
  pcs_BlockIndex :: u32
  pcs_Votes :: "preCommit list"

record prepareBlockHash =
  pbh_Epoch :: u64
  pbh_ViewNumber :: u64
  pbh_BlockIndex :: u32
  pbh_BlockHash :: hash
  pbh_BlockNumber :: u64

record qcBlockList =
  qbl_QC :: "quorumCert list"
  qbl_Blocks :: "block list"
  qbl_ForkedQC :: "quorumCert list"
  qbl_ForkedBlocks :: "block list"

record latestStatusData =
  ls_BlockNumber :: u64
  ls_BlockHash :: hash
  ls_QuorumCert :: "quorumCert option"
  ls_LBlockNumber :: u64
  ls_LBlockHash :: hash
  ls_LQuorumCert :: "quorumCert option"
  ls_LogicType :: u64

record getViewChange =
  gvc_Epoch :: u64
  gvc_BlockNumber :: u64
  gvc_ViewNumber :: u64
  gvc_ViewChangeBits :: "bitArray option"

record viewChangeQuorumCertMsg =
  vqm_ViewChangeQC :: viewChangeQC
  vqm_HighestViewChangeQC :: "viewChangeQC option"

datatype message =
    MPbftStatusData pbftStatusData
  | MPrepareBlock prepareBlock
  | MPrepareVote prepareVote
  | MPreCommit preCommit
  | MViewChange viewChange
  | MGetPrepareBlock getPrepareBlock
  | MGetBlockQuorumCert getBlockQuorumCert
  | MBlockQuorumCert blockQuorumCert
  | MGetBlockPreCommitQuorumCert getBlockPreCommitQuorumCert
  | MBlockPreCommitQuorumCert blockPreCommitQuorumCert
  | MGetQCBlockList getQCBlockList
  | MGetPrepareVote getPrepareVote
  | MGetPreCommit getPreCommit
  | MPrepareBlockHash prepareBlockHash
  | MPrepareVotes prepareVotes
  | MPreCommits preCommits
  | MQCBlockList qcBlockList
  | MGetLatestStatus latestStatusData
  | MLatestStatus latestStatusData
  | MGetViewChange getViewChange
  | MPing bytes
  | MPong bytes
  | MViewChangeQuorumCert viewChangeQuorumCertMsg
  | MViewChanges "viewChange list"

fun MessageType :: "message \<Rightarrow> u8" where
  "MessageType (MPbftStatusData _) = 0x00"
| "MessageType (MPrepareBlock _) = 0x01"
| "MessageType (MPrepareVote _) = 0x02"
| "MessageType (MPreCommit _) = 0x13"
| "MessageType (MViewChange _) = 0x03"
| "MessageType (MGetPrepareBlock _) = 0x04"
| "MessageType (MGetBlockQuorumCert _) = 0x05"
| "MessageType (MBlockQuorumCert _) = 0x06"
| "MessageType (MGetBlockPreCommitQuorumCert _) = 0x15"
| "MessageType (MBlockPreCommitQuorumCert _) = 0x16"
| "MessageType (MGetQCBlockList _) = 0x09"
| "MessageType (MGetPrepareVote _) = 0x07"
| "MessageType (MGetPreCommit _) = 0x14"
| "MessageType (MPrepareBlockHash _) = 0x0d"
| "MessageType (MPrepareVotes _) = 0x08"
| "MessageType (MPreCommits _) = 0x17"
| "MessageType (MQCBlockList _) = 0x0a"
| "MessageType (MGetLatestStatus _) = 0x0b"
| "MessageType (MLatestStatus _) = 0x0c"
| "MessageType (MGetViewChange _) = 0x0e"
| "MessageType (MPing _) = 0x0f"
| "MessageType (MPong _) = 0x10"
| "MessageType (MViewChangeQuorumCert _) = 0x11"
| "MessageType (MViewChanges _) = 0x12"

section \<open>Signing digests\<close>

definition CannibalizeBytes_pb :: "(bytes \<Rightarrow> bytes) \<Rightarrow> prepareBlock \<Rightarrow> (rlp_err + bytes) go" where
  "CannibalizeBytes_pb keccak pb =
     cannibalize keccak [RUint (pb_Epoch pb), RUint (pb_ViewNumber pb), RBytes (hash_bytes (blk_Hash (pb_Block pb))),
       RUint (blk_Number (pb_Block pb)), RBytes (keccak (blk_Rlp (pb_Block pb))),
       RUint (ucast (pb_BlockIndex pb)), RUint (ucast (pb_ProposalIndex pb))]"

definition CannibalizeBytes_pv :: "(bytes \<Rightarrow> bytes) \<Rightarrow> prepareVote \<Rightarrow> (rlp_err + bytes) go" where
  "CannibalizeBytes_pv keccak pv =
     cannibalize keccak [RUint (pv_Epoch pv), RUint (pv_ViewNumber pv), RBytes (hash_bytes (pv_BlockHash pv)),
       RUint (pv_BlockNumber pv), RUint (ucast (pv_BlockIndex pv)), RUint (ucast RoundStepPrepareVote)]"

definition CannibalizeBytes_pc :: "(bytes \<Rightarrow> bytes) \<Rightarrow> preCommit \<Rightarrow> (rlp_err + bytes) go" where
  "CannibalizeBytes_pc keccak pv =
     cannibalize keccak [RUint (pc_Epoch pv), RUint (pc_ViewNumber pv), RBytes (hash_bytes (pc_BlockHash pv)),
       RUint (pc_BlockNumber pv), RUint (ucast (pc_BlockIndex pv)), RUint (ucast RoundStepPreCommit)]"

definition CannibalizeBytes_vc :: "(bytes \<Rightarrow> bytes) \<Rightarrow> viewChange \<Rightarrow> (rlp_err + bytes) go" where
  "CannibalizeBytes_vc keccak vc =
     (let (blockEpoch, blockView) =
        (case vc_PrepareQC vc of None \<Rightarrow> (0, 0) | Some qc \<Rightarrow> (q_Epoch qc, q_ViewNumber qc))
      in cannibalize keccak [RUint (vc_Epoch vc), RUint (vc_ViewNumber vc), RBytes (hash_bytes (vc_BlockHash vc)),
           RUint (vc_BlockNumber vc), RUint blockEpoch, RUint blockView])"

definition SetSign_pv :: "bytes \<Rightarrow> prepareVote \<Rightarrow> prepareVote" where
  "SetSign_pv sign pv = pv\<lparr>pv_Signature := SetBytes sign (pv_Signature pv)\<rparr>"

definition SetSign_pc :: "bytes \<Rightarrow> preCommit \<Rightarrow> preCommit" where
  "SetSign_pc sign pv = pv\<lparr>pc_Signature := SetBytes sign (pc_Signature pv)\<rparr>"

definition SetSign_pb :: "bytes \<Rightarrow> prepareBlock \<Rightarrow> prepareBlock" where
  "SetSign_pb sign pb = pb\<lparr>pb_Signature := SetBytes sign (pb_Signature pb)\<rparr>"

definition SetSign_vc :: "bytes \<Rightarrow> viewChange \<Rightarrow> viewChange" where
  "SetSign_vc sign vc = vc\<lparr>vc_Signature := SetBytes sign (vc_Signature vc)\<rparr>"

definition EqualState_pv :: "prepareVote \<Rightarrow> prepareVote \<Rightarrow> bool" where
  "EqualState_pv pv vote \<longleftrightarrow> pv_Epoch pv = pv_Epoch vote \<and> pv_BlockHash pv = pv_BlockHash vote
     \<and> pv_BlockNumber pv = pv_BlockNumber vote \<and> pv_BlockIndex pv = pv_BlockIndex vote"

definition EqualState_pc :: "preCommit \<Rightarrow> preCommit \<Rightarrow> bool" where
  "EqualState_pc pv vote \<longleftrightarrow> pc_Epoch pv = pc_Epoch vote \<and> pc_BlockHash pv = pc_BlockHash vote
     \<and> pc_BlockNumber pv = pc_BlockNumber vote \<and> pc_BlockIndex pv = pc_BlockIndex vote"

section \<open>Message hashes\<close>

definition Uint64ToBytes :: "u64 \<Rightarrow> bytes" where
  "Uint64ToBytes i = be_bytes 8 i"

definition Uint32ToBytes :: "u32 \<Rightarrow> bytes" where
  "Uint32ToBytes i = be_bytes 4 (ucast i)"

text \<open>\<open>BuildHash\<close> overwrites the first byte of the payload with the message type.\<close>

definition BuildHash :: "(bytes \<Rightarrow> hash) \<Rightarrow> u8 \<Rightarrow> bytes \<Rightarrow> hash go" where
  "BuildHash sha3 msgType bs =
     (if bs = [] then Inl IndexOutOfRange else Inr (sha3 (bs[0 := msgType])))"

definition MergeBytes :: "bytes list \<Rightarrow> bytes" where
  "MergeBytes bts = concat bts"

fun MsgHash :: "(bytes \<Rightarrow> hash) \<Rightarrow> message \<Rightarrow> hash go" where
  "MsgHash sha3 (MPrepareBlock pb) = BuildHash sha3 0x01 (MergeBytes
     [Uint64ToBytes (pb_ViewNumber pb), hash_bytes (blk_Hash (pb_Block pb)), Bytes_sig (pb_Signature pb)])"
| "MsgHash sha3 (MPrepareVote pv) = BuildHash sha3 0x02 (MergeBytes
     [Uint64ToBytes (pv_ViewNumber pv), hash_bytes (pv_BlockHash pv), Uint32ToBytes (pv_BlockIndex pv),
      Bytes_sig (pv_Signature pv)])"
| "MsgHash sha3 (MPreCommit pv) = BuildHash sha3 0x17 (MergeBytes
     [Uint64ToBytes (pc_ViewNumber pv), hash_bytes (pc_BlockHash pv), Uint32ToBytes (pc_BlockIndex pv),
      Bytes_sig (pc_Signature pv)])"
| "MsgHash sha3 (MViewChange vc) = BuildHash sha3 0x03 (MergeBytes
     [Uint64ToBytes (vc_ViewNumber vc), hash_bytes (vc_BlockHash vc), Uint64ToBytes (vc_BlockNumber vc),
      Uint32ToBytes (vc_ValidatorIndex vc), Bytes_sig (vc_Signature vc)])"
| "MsgHash sha3 (MViewChanges vcs) =
     (case vcs of [] \<Rightarrow> BuildHash sha3 0x12 (hash_bytes 0)
      | v # _ \<Rightarrow> BuildHash sha3 0x12 (MergeBytes [Uint64ToBytes (vc_Epoch v), Uint64ToBytes (vc_ViewNumber v)]))"
| "MsgHash sha3 (MPbftStatusData s) = BuildHash sha3 0x00 (MergeBytes
     [hash_bytes (sd_QCBlock s), hash_bytes (sd_LockBlock s), hash_bytes (sd_CmtBlock s)])"
| "MsgHash sha3 (MGetPrepareBlock s) = BuildHash sha3 0x04 (MergeBytes
     [Uint64ToBytes (gpb_Epoch s), Uint64ToBytes (gpb_BlockNumber s), Uint64ToBytes (gpb_ViewNumber s),
      Uint32ToBytes (gpb_BlockIndex s)])"
| "MsgHash sha3 (MGetBlockQuorumCert s) = BuildHash sha3 0x05 (MergeBytes
     [hash_bytes (gbq_BlockHash s), Uint64ToBytes (gbq_BlockNumber s)])"
| "MsgHash sha3 (MGetBlockPreCommitQuorumCert s) = BuildHash sha3 0x15 (MergeBytes
     [hash_bytes (gbp_BlockHash s), Uint64ToBytes (gbp_BlockNumber s)])"
| "MsgHash sha3 (MBlockQuorumCert s) = BuildHash sha3 0x06 (MergeBytes
     [hash_bytes (q_BlockHash (bq_BlockQC s)), Uint64ToBytes (q_BlockNumber (bq_BlockQC s)),
      Bytes_sig (q_Signature (bq_BlockQC s))])"
| "MsgHash sha3 (MBlockPreCommitQuorumCert s) = BuildHash sha3 0x16 (MergeBytes
     [hash_bytes (q_BlockHash (bp_BlockQC s)), Uint64ToBytes (q_BlockNumber (bp_BlockQC s)),
      Bytes_sig (q_Signature (bp_BlockQC s))])"
| "MsgHash sha3 (MGetQCBlockList s) = BuildHash sha3 0x09 (MergeBytes [Uint64ToBytes (gql_BlockNumber s)])"
| "MsgHash sha3 (MGetPrepareVote s) = BuildHash sha3 0x07 (MergeBytes
     [Uint64ToBytes (gpv_Epoch s), Uint64ToBytes (gpv_ViewNumber s), Uint64ToBytes (gpv_BlockNumber s),
      Uint32ToBytes (gpv_BlockIndex s)])"
| "MsgHash sha3 (MGetPreCommit s) = BuildHash sha3 0x14 (MergeBytes
     [Uint64ToBytes (gpc_Epoch s), Uint64ToBytes (gpc_ViewNumber s), Uint32ToBytes (gpc_BlockIndex s)])"
| "MsgHash sha3 (MPrepareVotes s) = BuildHash sha3 0x08 (MergeBytes
     [Uint64ToBytes (pvs_Epoch s), Uint64ToBytes (pvs_ViewNumber s), Uint32ToBytes (pvs_BlockIndex s)])"
| "MsgHash sha3 (MPreCommits s) = BuildHash sha3 0x17 (MergeBytes
     [Uint64ToBytes (pcs_Epoch s), Uint64ToBytes (pcs_ViewNumber s), Uint32ToBytes (pcs_BlockIndex s)])"
| "MsgHash sha3 (MPrepareBlockHash s) = BuildHash sha3 0x0d (MergeBytes
     [hash_bytes (pbh_BlockHash s), Uint64ToBytes (pbh_BlockNumber s), Uint32ToBytes (pbh_BlockIndex s),
      Uint64ToBytes (pbh_ViewNumber s)])"
| "MsgHash sha3 (MPing s) = BuildHash sha3 0x0f (MergeBytes [s])"
| "MsgHash sha3 (MPong s) = BuildHash sha3 0x10 (MergeBytes [s])"
| "MsgHash sha3 (MQCBlockList s) =
     (case qbl_Blocks s of
        b # _ \<Rightarrow> BuildHash sha3 0x0a (MergeBytes [hash_bytes (blk_Hash b), nat_bytes (unat (blk_Number b))])
      | [] \<Rightarrow> (case qbl_QC s of
          q # _ \<Rightarrow> BuildHash sha3 0x0a (MergeBytes [hash_bytes (q_BlockHash q), Bytes_sig (q_Signature q)])
        | [] \<Rightarrow> Inr 0))"
| "MsgHash sha3 (MGetLatestStatus s) = BuildHash sha3 0x0b (MergeBytes
     [Uint64ToBytes (ls_BlockNumber s), Uint64ToBytes (ls_LogicType s), Uint64ToBytes (ls_LBlockNumber s),
      hash_bytes (ls_BlockHash s), hash_bytes (ls_LBlockHash s)])"
| "MsgHash sha3 (MLatestStatus s) = BuildHash sha3 0x0c (MergeBytes
     [Uint64ToBytes (ls_BlockNumber s), Uint64ToBytes (ls_LogicType s), Uint64ToBytes (ls_LBlockNumber s),
      hash_bytes (ls_BlockHash s), hash_bytes (ls_LBlockHash s)])"
| "MsgHash sha3 (MGetViewChange s) = BuildHash sha3 0x0e (MergeBytes
     [Uint64ToBytes (gvc_Epoch s), Uint64ToBytes (gvc_ViewNumber s)])"
| "MsgHash sha3 (MViewChangeQuorumCert v) =
     (let (epoch, viewNumber, blockEpoch, blockViewNumber, h, number) = MaxBlock (vqm_ViewChangeQC v)
      in BuildHash sha3 0x11 (MergeBytes
           [Uint64ToBytes epoch, Uint64ToBytes viewNumber, Uint64ToBytes blockEpoch,
            Uint64ToBytes blockViewNumber, hash_bytes h, Uint64ToBytes number]))"

section \<open>Digest lemmas\<close>

definition preimage_qc :: "quorumCert \<Rightarrow> bytes" where
  "preimage_qc q = preimage6 (q_Epoch q) (q_ViewNumber q) (q_BlockHash q) (q_BlockNumber q)
     (ucast (q_BlockIndex q)) (ucast (q_Step q))"

definition preimage_pv :: "prepareVote \<Rightarrow> bytes" where
  "preimage_pv pv = preimage6 (pv_Epoch pv) (pv_ViewNumber pv) (pv_BlockHash pv) (pv_BlockNumber pv)
     (ucast (pv_BlockIndex pv)) (ucast RoundStepPrepareVote)"

definition preimage_pc :: "preCommit \<Rightarrow> bytes" where
  "preimage_pc pv = preimage6 (pc_Epoch pv) (pc_ViewNumber pv) (pc_BlockHash pv) (pc_BlockNumber pv)
     (ucast (pc_BlockIndex pv)) (ucast RoundStepPreCommit)"

lemma digest_preimage:
  "CannibalizeBytes_qc keccak q = Inr (Inr (keccak (preimage_qc q)))"
  "CannibalizeBytes_pv keccak pv = Inr (Inr (keccak (preimage_pv pv)))"
  "CannibalizeBytes_pc keccak pc = Inr (Inr (keccak (preimage_pc pc)))"
  unfolding CannibalizeBytes_qc_def CannibalizeBytes_pv_def CannibalizeBytes_pc_def
    preimage_qc_def preimage_pv_def preimage_pc_def cannibalize_digest6 [unfolded digest6_def]
  by simp_all

lemma ucast_u32_u64_eq: "(ucast (i :: u32) :: u64) = ucast j \<longleftrightarrow> i = j"
proof -
  have "unat (ucast k :: u64) = unat k" for k :: u32
    using unsigned_less [of k, where 'a = nat] by (simp add: unsigned_ucast_eq take_bit_eq_mod)
  then show ?thesis by (metis word_unat_eq_iff)
qed

lemma preimage_pv_qc:
  "preimage_pv pv = preimage_qc q \<longleftrightarrow>
    (pv_Epoch pv, pv_ViewNumber pv, pv_BlockHash pv, pv_BlockNumber pv, pv_BlockIndex pv, RoundStepPrepareVote)
      = (q_Epoch q, q_ViewNumber q, q_BlockHash q, q_BlockNumber q, q_BlockIndex q, q_Step q)"
proof
  assume "preimage_pv pv = preimage_qc q"
  from preimage6_inj [OF this [unfolded preimage_pv_def preimage_qc_def]]
  show "(pv_Epoch pv, pv_ViewNumber pv, pv_BlockHash pv, pv_BlockNumber pv, pv_BlockIndex pv, RoundStepPrepareVote)
      = (q_Epoch q, q_ViewNumber q, q_BlockHash q, q_BlockNumber q, q_BlockIndex q, q_Step q)"
    by (simp only: ucast_u32_u64_eq prod.inject simp_thms)
qed (simp only: prod.inject preimage_pv_def preimage_qc_def)

lemma preimage_pc_qc:
  "preimage_pc pv = preimage_qc q \<longleftrightarrow>
    (pc_Epoch pv, pc_ViewNumber pv, pc_BlockHash pv, pc_BlockNumber pv, pc_BlockIndex pv, RoundStepPreCommit)
      = (q_Epoch q, q_ViewNumber q, q_BlockHash q, q_BlockNumber q, q_BlockIndex q, q_Step q)"
proof
  assume "preimage_pc pv = preimage_qc q"
  from preimage6_inj [OF this [unfolded preimage_pc_def preimage_qc_def]]
  show "(pc_Epoch pv, pc_ViewNumber pv, pc_BlockHash pv, pc_BlockNumber pv, pc_BlockIndex pv, RoundStepPreCommit)
      = (q_Epoch q, q_ViewNumber q, q_BlockHash q, q_BlockNumber q, q_BlockIndex q, q_Step q)"
    by (simp only: ucast_u32_u64_eq prod.inject simp_thms)
qed (simp only: prod.inject preimage_pc_def preimage_qc_def)

lemma preimage_pv_pc: "preimage_pv pv \<noteq> preimage_pc pc"
  by (auto simp: preimage_pv_def preimage_pc_def dest!: preimage6_inj)

section \<open>Properties\<close>

text \<open>C21: Signing digests bind what is voted.  Where the hash function has no collision among the
  three inputs, a \<open>PrepareVote\<close> and a \<open>PreCommit\<close> never have the same digest, and the digest of a
  certificate equals that of a vote exactly when epoch, view, block hash, block number, block index
  and step agree, so that aggregated vote signatures verify only against their own certificate.\<close>
theorem vote_digests_bind:
  assumes "inj_on keccak {preimage_pv pv, preimage_pc pc, preimage_qc q}"
  shows "CannibalizeBytes_pv keccak pv \<noteq> CannibalizeBytes_pc keccak pc
    \<and> (CannibalizeBytes_pv keccak pv = CannibalizeBytes_qc keccak q \<longleftrightarrow>
        (pv_Epoch pv, pv_ViewNumber pv, pv_BlockHash pv, pv_BlockNumber pv, pv_BlockIndex pv, RoundStepPrepareVote)
          = (q_Epoch q, q_ViewNumber q, q_BlockHash q, q_BlockNumber q, q_BlockIndex q, q_Step q))
    \<and> (CannibalizeBytes_pc keccak pc = CannibalizeBytes_qc keccak q \<longleftrightarrow>
        (pc_Epoch pc, pc_ViewNumber pc, pc_BlockHash pc, pc_BlockNumber pc, pc_BlockIndex pc, RoundStepPreCommit)
          = (q_Epoch q, q_ViewNumber q, q_BlockHash q, q_BlockNumber q, q_BlockIndex q, q_Step q))"
proof -
  have eq: "keccak x = keccak y \<longleftrightarrow> x = y"
    if "x \<in> {preimage_pv pv, preimage_pc pc, preimage_qc q}" "y \<in> {preimage_pv pv, preimage_pc pc, preimage_qc q}" for x y
    using assms that by (rule inj_on_eq_iff)
  show ?thesis
    unfolding digest_preimage sum.inject
    using eq [of "preimage_pv pv" "preimage_pc pc"] eq [of "preimage_pv pv" "preimage_qc q"]
      eq [of "preimage_pc pc" "preimage_qc q"] preimage_pv_pc [of pv pc]
    by (simp only: preimage_pv_qc preimage_pc_qc) simp
qed

abbreviation pv_example :: prepareVote where
  "pv_example \<equiv> \<lparr>pv_Epoch = 1, pv_ViewNumber = 0, pv_BlockHash = 7, pv_BlockNumber = 5, pv_BlockIndex = 0,
     pv_ValidatorIndex = 2, pv_ParentQC = None, pv_Signature = []\<rparr>"

abbreviation pc_example :: preCommit where
  "pc_example \<equiv> \<lparr>pc_Epoch = 1, pc_ViewNumber = 0, pc_BlockHash = 7, pc_BlockNumber = 5, pc_BlockIndex = 0,
     pc_ValidatorIndex = 2, pc_ParentQC = None, pc_Signature = []\<rparr>"

theorem vote_digests_bind_witness:
  "CannibalizeBytes_pv id pv_example \<noteq> CannibalizeBytes_pc id pc_example
    \<and> (CannibalizeBytes_pv id pv_example = CannibalizeBytes_qc id (qc_example 7) \<longleftrightarrow> False)
    \<and> (CannibalizeBytes_pc id pc_example = CannibalizeBytes_qc id (qc_example 7) \<longleftrightarrow> True)"
  using vote_digests_bind [of id pv_example pc_example "qc_example 7"] by simp

text \<open>\<open>MsgHash\<close> panics on no message except a \<open>Ping\<close> or \<open>Pong\<close> that carries the empty
  string, where \<open>BuildHash\<close> indexes an empty slice.\<close>
theorem MsgHash_panics_only_on_empty_ping:
  "(\<exists>p. MsgHash sha3 m = Inl p) \<longleftrightarrow> m = MPing [] \<or> m = MPong []"
proof -
  have "Uint64ToBytes i @ xs \<noteq> []" "hash_bytes h @ xs \<noteq> []" "hash_bytes h \<noteq> []" for i h xs
    using length_hash_bytes [of h] by (auto simp: Uint64ToBytes_def be_bytes_def simp del: length_hash_bytes)
  then show ?thesis
    by (cases m) (auto simp: BuildHash_def MergeBytes_def split: list.splits prod.splits)
qed

section \<open>Divergences\<close>

text \<open>A view change whose prepare certificate has epoch \<open>e\<close> and view \<open>v\<close> has the digest of a vote
  with block index \<open>e\<close> and step \<open>v\<close>: the two message kinds are not separated.\<close>

lemma view_change_digest_collides_with_vote:
  "CannibalizeBytes_vc keccak \<lparr>vc_Epoch = 1, vc_ViewNumber = 3, vc_BlockHash = 7, vc_BlockNumber = 5,
      vc_ValidatorIndex = 0, vc_PrepareQC = Some (qc_example 7\<lparr>q_Epoch := 1, q_ViewNumber := 2\<rparr>), vc_Signature = []\<rparr>
   = CannibalizeBytes_pv keccak (pv_example\<lparr>pv_ViewNumber := 3, pv_BlockIndex := 1\<rparr>)"
  by (simp add: CannibalizeBytes_vc_def CannibalizeBytes_pv_def)

text \<open>\<open>EqualState\<close> does not compare the view.\<close>

lemma EqualState_ignores_view: "EqualState_pv pv_example (pv_example\<lparr>pv_ViewNumber := 9\<rparr>)"
  by (simp add: EqualState_pv_def)

end
