(* ===== verification/Block_Tree.thy ===== *)
theory Block_Tree
  imports Protocols
begin

text \<open>
  The tree of blocks that carry a certificate and are not yet discarded:
  \<open>consensus/pbft/types/block_tree.go\<close>.  The nodes \<open>*blockExt\<close> point to each other, so the tree
  is a heap (a list of nodes indexed by address, grown by allocation) with a root address and the
  two-level map from number and hash to addresses.  A nil map is \<open>None\<close>: writing to it panics.
  The receive time of a node and the JSON view are not modelled.  The callback \<open>clearFn\<close> of
  \<open>PruneBlock\<close> is modelled by the list of blocks it is called on.
\<close>

section \<open>Model\<close>

type_synonym addr = nat

record blockExt =
  be_ViewNumber :: u64
  be_Block :: block
  be_QC :: "quorumCert option"
  be_Parent :: "addr option"
  be_Children :: "(hash, addr) gomap option"

record blockTree =
  bt_heap :: "blockExt list"
  bt_root :: "addr option"
  bt_blocks :: "(u64, (hash, addr) gomap) gomap"

definition heap_upd :: "addr \<Rightarrow> (blockExt \<Rightarrow> blockExt) \<Rightarrow> blockTree \<Rightarrow> blockTree" where
  "heap_upd a f t = t\<lparr>bt_heap := (bt_heap t)[a := f (bt_heap t ! a)]\<rparr>"

definition clearParent :: "addr \<Rightarrow> blockTree \<Rightarrow> blockTree" where
  "clearParent a t =
     (case be_Parent (bt_heap t ! a) of None \<Rightarrow> t
      | Some p \<Rightarrow> heap_upd a (\<lambda>b. b\<lparr>be_Parent := None\<rparr>) (heap_upd p (\<lambda>b. b\<lparr>be_Children := None\<rparr>) t))"

definition clearChildren :: "addr \<Rightarrow> blockTree \<Rightarrow> blockTree" where
  "clearChildren a t =
     (if be_Children (bt_heap t ! a) \<noteq> None then heap_upd a (\<lambda>b. b\<lparr>be_Children := None\<rparr>) t else t)"

text \<open>The genesis block has view \<open>MaxUint64\<close>; every other block takes the view of its certificate.\<close>

definition ext_view :: "block \<Rightarrow> quorumCert option \<Rightarrow> u64 go" where
  "ext_view b qc = (if blk_Number b = 0 then Inr MaxUint64 else go_map q_ViewNumber (go_deref qc))"

definition new_ext :: "block \<Rightarrow> quorumCert option \<Rightarrow> u64 \<Rightarrow> blockExt" where
  "new_ext b qc view =
     \<lparr>be_ViewNumber = view, be_Block = b, be_QC = qc, be_Parent = None, be_Children = Some []\<rparr>"

definition NewBlockTree :: "block \<Rightarrow> quorumCert option \<Rightarrow> blockTree go" where
  "NewBlockTree root qc =
     go_map (\<lambda>view. \<lparr>bt_heap = [new_ext root qc view], bt_root = Some 0,
                     bt_blocks = [(blk_Number root, [(blk_Hash root, 0)])]\<rparr>)
       (ext_view root qc)"

definition findBlockExt :: "blockTree \<Rightarrow> hash \<Rightarrow> u64 \<Rightarrow> addr option" where
  "findBlockExt t h number =
     (case gget (bt_blocks t) number of None \<Rightarrow> None
      | Some extMap \<Rightarrow> map_option snd (first_match (\<lambda>(k, _). h = k) extMap))"

definition findParent :: "blockTree \<Rightarrow> hash \<Rightarrow> u64 \<Rightarrow> addr option" where
  "findParent t h number =
     (case gget (bt_blocks t) (number - 1) of None \<Rightarrow> None
      | Some extMap \<Rightarrow>
          map_option snd (first_match (\<lambda>(_, v). blk_Hash (be_Block (bt_heap t ! v)) = h) extMap))"

definition findChild :: "blockTree \<Rightarrow> hash \<Rightarrow> u64 \<Rightarrow> addr option" where
  "findChild t h number =
     (case gget (bt_blocks t) (number + 1) of None \<Rightarrow> None
      | Some extMap \<Rightarrow>
          map_option snd (first_match (\<lambda>(_, v). blk_ParentHash (be_Block (bt_heap t ! v)) = h) extMap))"

text \<open>\<open>m[k] = v\<close> on a possibly nil map.\<close>

definition children_put :: "hash \<Rightarrow> addr \<Rightarrow> blockExt \<Rightarrow> blockExt go" where
  "children_put k v b =
     (case be_Children b of None \<Rightarrow> Inl NilMapWrite
      | Some cs \<Rightarrow> Inr (b\<lparr>be_Children := Some (gset k v cs)\<rparr>))"

definition fixTree :: "addr \<Rightarrow> blockTree \<Rightarrow> blockTree go" where
  "fixTree ext t =
     (let blk = be_Block (bt_heap t ! ext);
          parent = findParent t (blk_ParentHash blk) (blk_Number blk);
          child = findChild t (blk_Hash blk) (blk_Number blk)
      in go_bind
           (case parent of None \<Rightarrow> Inr t
            | Some p \<Rightarrow>
                go_map (\<lambda>b. heap_upd ext (\<lambda>b. b\<lparr>be_Parent := Some p\<rparr>) (heap_upd p (\<lambda>_. b) t))
                  (children_put (blk_Hash blk) ext (bt_heap t ! p)))
           (\<lambda>t. case child of None \<Rightarrow> Inr t
                 | Some c \<Rightarrow>
                     (let t = heap_upd c (\<lambda>b. b\<lparr>be_Parent := Some ext\<rparr>) t
                      in go_map (\<lambda>b. heap_upd ext (\<lambda>_. b) t)
                           (children_put (blk_Hash (be_Block (bt_heap t ! c))) c (bt_heap t ! ext)))))"

definition maxBlock :: "addr \<Rightarrow> blockTree \<Rightarrow> addr" where
  "maxBlock ext t =
     (case gget (bt_blocks t) (blk_Number (be_Block (bt_heap t ! ext))) of None \<Rightarrow> ext
      | Some extMap \<Rightarrow>
          fold (\<lambda>(_, e) mx. if be_ViewNumber (bt_heap t ! mx) + 1 < be_ViewNumber (bt_heap t ! e) + 1
                                 \<and> be_Parent (bt_heap t ! e) \<noteq> None then e else mx)
            extMap ext)"

definition commitBlock_bt :: "addr \<Rightarrow> blockTree \<Rightarrow> (block option \<times> block option) go" where
  "commitBlock_bt lock t =
     go_bind (go_deref (bt_root t))
       (\<lambda>r. let lb = be_Block (bt_heap t ! lock); rb = be_Block (bt_heap t ! r)
             in Inr (if blk_Hash lb = blk_Hash rb then (Some rb, Some rb)
                     else (Some lb, map_option (\<lambda>c. be_Block (bt_heap t ! c)) (be_Parent (bt_heap t ! lock)))))"

definition insertBlock :: "blockExt \<Rightarrow> blockTree \<Rightarrow> (blockTree \<times> block option \<times> block option) go" where
  "insertBlock ext t =
     (let number = blk_Number (be_Block ext); h = blk_Hash (be_Block ext);
          a = length (bt_heap t);
          extMap = (case gget (bt_blocks t) number of None \<Rightarrow> [] | Some m \<Rightarrow> m)
      in if gget extMap h \<noteq> None then Inr (t, None, None)
         else let t1 = t\<lparr>bt_heap := bt_heap t @ [ext], bt_blocks := gset number (gset h a extMap) (bt_blocks t)\<rparr>
              in go_bind (fixTree a t1)
                   (\<lambda>t2. go_map (\<lambda>r. (t2, r)) (commitBlock_bt (maxBlock a t2) t2)))"

definition InsertQCBlock ::
  "block \<Rightarrow> quorumCert option \<Rightarrow> blockTree \<Rightarrow> (blockTree \<times> block option \<times> block option) go" where
  "InsertQCBlock b qc t = go_bind (ext_view b qc) (\<lambda>view. insertBlock (new_ext b qc view) t)"

text \<open>\<open>pruneBranch\<close> recurses over the children; \<open>fuel\<close> bounds the depth.\<close>

fun opt_fold :: "('a \<Rightarrow> 's \<Rightarrow> 's option) \<Rightarrow> 'a list \<Rightarrow> 's \<Rightarrow> 's option" where
  "opt_fold f [] s = Some s"
| "opt_fold f (x # xs) s = (case f x s of None \<Rightarrow> None | Some s' \<Rightarrow> opt_fold f xs s')"

definition prune_child ::
  "(addr \<Rightarrow> blockTree \<times> block list \<Rightarrow> (blockTree \<times> block list) option) \<Rightarrow> hash \<times> addr
    \<Rightarrow> blockTree \<times> block list \<Rightarrow> (blockTree \<times> block list) option" where
  "prune_child rec = (\<lambda>(h, e) (t, cleared).
     (let number = blk_Number (be_Block (bt_heap t ! e))
      in case gget (bt_blocks t) number of None \<Rightarrow> Some (t, cleared)
         | Some extMap \<Rightarrow>
             (let cleared = cleared @ [be_Block (bt_heap t ! e)];
                  t = clearParent e t;
                  t = t\<lparr>bt_blocks := gset number (gdel h extMap) (bt_blocks t)\<rparr>
              in rec e (t, cleared))))"

primrec pruneBranch ::
  "nat \<Rightarrow> addr \<Rightarrow> blockTree \<times> block list \<Rightarrow> (blockTree \<times> block list) option" where
  "pruneBranch 0 = (\<lambda>ext s. None)"
| "pruneBranch (Suc fuel) = (\<lambda>ext s.
     map_option (\<lambda>(t, cleared). (clearChildren ext t, cleared))
       (opt_fold (prune_child (pruneBranch fuel))
         (case be_Children (bt_heap (fst s) ! ext) of None \<Rightarrow> [] | Some cs \<Rightarrow> cs) s))"

text \<open>\<open>for num := lo; num < hi; num++ { delete(m, num) }\<close>\<close>

definition del_range :: "u64 \<Rightarrow> u64 \<Rightarrow> (u64, 'v) gomap \<Rightarrow> (u64, 'v) gomap" where
  "del_range lo hi m = filter (\<lambda>(n, _). \<not> (lo \<le> n \<and> n < hi)) m"

definition prune_ext :: "nat \<Rightarrow> hash \<Rightarrow> u64 \<Rightarrow> hash \<times> addr
    \<Rightarrow> blockTree \<times> block list \<Rightarrow> (blockTree \<times> block list) option" where
  "prune_ext fuel hash number = (\<lambda>(h, ext) (t, cleared).
     (let t = clearParent ext t
      in if h \<noteq> hash then
           (let m = (case gget (bt_blocks t) number of None \<Rightarrow> [] | Some m \<Rightarrow> m)
            in pruneBranch fuel ext (t\<lparr>bt_blocks := gset number (gdel h m) (bt_blocks t)\<rparr>, cleared))
         else Some (t\<lparr>bt_root := Some ext\<rparr>, cleared)))"

definition PruneBlock :: "hash \<Rightarrow> u64 \<Rightarrow> blockTree \<Rightarrow> (blockTree \<times> block list) option go" where
  "PruneBlock hash number t =
     go_bind (go_deref (bt_root t))
       (\<lambda>r. let t = t\<lparr>bt_blocks := del_range (blk_Number (be_Block (bt_heap t ! r))) number (bt_blocks t)\<rparr>
             in Inr (case gget (bt_blocks t) number of None \<Rightarrow> Some (t, [])
                  | Some extMap \<Rightarrow>
                      opt_fold (prune_ext (Suc (length (bt_heap t))) hash number) extMap (t, [])))"

definition NewRoot :: "block \<Rightarrow> blockTree \<Rightarrow> blockTree go" where
  "NewRoot b t =
     go_bind (go_deref (bt_root t))
       (\<lambda>r. let t = t\<lparr>bt_blocks := del_range (blk_Number (be_Block (bt_heap t ! r))) (blk_Number b) (bt_blocks t)\<rparr>
             in Inr (t\<lparr>bt_root := findBlockExt t (blk_Hash b) (blk_Number b)\<rparr>))"

definition FindBlockAndQC :: "blockTree \<Rightarrow> hash \<Rightarrow> u64 \<Rightarrow> block option \<times> quorumCert option" where
  "FindBlockAndQC t h number =
     (case findBlockExt t h number of None \<Rightarrow> (None, None)
      | Some a \<Rightarrow> (Some (be_Block (bt_heap t ! a)), be_QC (bt_heap t ! a)))"

definition findForkedBlockExts :: "blockTree \<Rightarrow> hash \<Rightarrow> u64 \<Rightarrow> addr list option" where
  "findForkedBlockExts t hash number =
     map_option (\<lambda>extMap. map snd (filter (\<lambda>(h, _). hash \<noteq> h) extMap)) (gget (bt_blocks t) number)"

definition IsForked :: "blockTree \<Rightarrow> hash \<Rightarrow> u64 \<Rightarrow> hash \<times> u64 \<times> bool" where
  "IsForked t hash number =
     (case findForkedBlockExts t hash number of
        Some (a # _) \<Rightarrow> (blk_Hash (be_Block (bt_heap t ! a)), blk_Number (be_Block (bt_heap t ! a)), True)
      | _ \<Rightarrow> (0, 0, False))"

definition FindForkedBlocksAndQCs :: "blockTree \<Rightarrow> hash \<Rightarrow> u64 \<Rightarrow> block list \<times> quorumCert option list" where
  "FindForkedBlocksAndQCs t hash number =
     (case findForkedBlockExts t hash number of None \<Rightarrow> ([], [])
      | Some as \<Rightarrow> (map (\<lambda>a. be_Block (bt_heap t ! a)) as, map (\<lambda>a. be_QC (bt_heap t ! a)) as))"

definition FindBlocksAndQCs :: "blockTree \<Rightarrow> u64 \<Rightarrow> block list \<times> quorumCert option list" where
  "FindBlocksAndQCs t number =
     (case gget (bt_blocks t) number of None \<Rightarrow> ([], [])
      | Some m \<Rightarrow> (map (\<lambda>(_, a). be_Block (bt_heap t ! a)) m, map (\<lambda>(_, a). be_QC (bt_heap t ! a)) m))"

definition FindBlockByHash :: "blockTree \<Rightarrow> hash \<Rightarrow> block option" where
  "FindBlockByHash t hash =
     map_option (\<lambda>(_, a). be_Block (bt_heap t ! a))
       (first_match (\<lambda>(h, _). h = hash) (concat (map snd (bt_blocks t))))"

definition Reset :: "block \<Rightarrow> quorumCert option \<Rightarrow> blockTree \<Rightarrow> blockTree go" where
  "Reset root qc t =
     go_map (\<lambda>view. let a = length (bt_heap t)
                    in t\<lparr>bt_heap := bt_heap t @ [new_ext root qc view], bt_root := Some a,
                         bt_blocks := [(blk_Number root, [(blk_Hash root, a)])]\<rparr>)
       (ext_view root qc)"

section \<open>Well-formed trees\<close>

abbreviation blk :: "blockTree \<Rightarrow> addr \<Rightarrow> block" where
  "blk t a \<equiv> be_Block (bt_heap t ! a)"

definition lookup :: "blockTree \<Rightarrow> u64 \<Rightarrow> hash \<Rightarrow> addr option" where
  "lookup t n h = (case gget (bt_blocks t) n of None \<Rightarrow> None | Some m \<Rightarrow> gget m h)"

definition member :: "blockTree \<Rightarrow> addr \<Rightarrow> bool" where
  "member t a \<longleftrightarrow> lookup t (blk_Number (blk t a)) (blk_Hash (blk t a)) = Some a"

definition has_child :: "blockTree \<Rightarrow> addr \<Rightarrow> addr \<Rightarrow> bool" where
  "has_child t p c \<longleftrightarrow>
     (\<exists>cs. be_Children (bt_heap t ! p) = Some cs \<and> (blk_Hash (blk t c), c) \<in> set cs)"

definition wf_index :: "blockTree \<Rightarrow> bool" where
  "wf_index t \<longleftrightarrow> gwf (bt_blocks t) \<and> (\<forall>n m. gget (bt_blocks t) n = Some m \<longrightarrow> gwf m)
     \<and> (\<forall>n h a. lookup t n h = Some a \<longrightarrow>
          a < length (bt_heap t) \<and> blk_Number (blk t a) = n \<and> blk_Hash (blk t a) = h \<and> n \<noteq> MaxUint64
          \<and> be_Children (bt_heap t ! a) \<noteq> None)"

definition wf_parents :: "blockTree \<Rightarrow> bool" where
  "wf_parents t \<longleftrightarrow> (\<forall>a p. a < length (bt_heap t) \<longrightarrow> be_Parent (bt_heap t ! a) = Some p \<longrightarrow>
     p < length (bt_heap t) \<and> blk_Number (blk t p) \<noteq> MaxUint64 \<and> blk_Number (blk t a) = blk_Number (blk t p) + 1
     \<and> blk_ParentHash (blk t a) = blk_Hash (blk t p))"

definition wf_children :: "blockTree \<Rightarrow> bool" where
  "wf_children t \<longleftrightarrow> (\<forall>a cs. a < length (bt_heap t) \<longrightarrow> be_Children (bt_heap t ! a) = Some cs \<longrightarrow>
     gwf cs \<and> (\<forall>(h, c) \<in> set cs. c < length (bt_heap t) \<and> be_Parent (bt_heap t ! c) = Some a
       \<and> blk_Hash (blk t c) = h))"

definition wf_links :: "blockTree \<Rightarrow> addr set \<Rightarrow> bool" where
  "wf_links t S \<longleftrightarrow> (\<forall>c p. member t c \<longrightarrow> be_Parent (bt_heap t ! c) = Some p \<longrightarrow>
     p \<in> S \<or> member t p \<and> has_child t p c)"

definition wf_kids :: "blockTree \<Rightarrow> bool" where
  "wf_kids t \<longleftrightarrow> (\<forall>a cs. member t a \<longrightarrow> be_Children (bt_heap t ! a) = Some cs \<longrightarrow>
     (\<forall>(h, c) \<in> set cs. member t c))"

definition wf_bt :: "blockTree \<Rightarrow> bool" where
  "wf_bt t \<longleftrightarrow> wf_index t \<and> wf_parents t \<and> wf_children t \<and> wf_links t {} \<and> wf_kids t
     \<and> (\<exists>r. bt_root t = Some r \<and> r < length (bt_heap t))"

lemma wf_index_lookup:
  assumes "wf_index t" "lookup t n h = Some a"
  shows "a < length (bt_heap t)" "blk_Number (blk t a) = n" "blk_Hash (blk t a) = h" "n \<noteq> MaxUint64"
    "be_Children (bt_heap t ! a) \<noteq> None" "member t a"
  using assms by (auto simp: wf_index_def member_def)

lemma member_valid: "wf_index t \<Longrightarrow> member t a \<Longrightarrow> a < length (bt_heap t)"
  by (auto simp: member_def dest: wf_index_lookup)

lemma findBlockExt_lookup: "findBlockExt t h n = lookup t n h"
proof -
  have "(\<lambda>(k, _). h = k) = (\<lambda>p :: hash \<times> addr. fst p = h)" by auto
  then show ?thesis by (simp add: findBlockExt_def lookup_def first_match_key split: option.split)
qed

lemma wf_childrenD:
  assumes "wf_children t" "a < length (bt_heap t)" "be_Children (bt_heap t ! a) = Some cs"
  shows "gwf cs" "(h, c) \<in> set cs \<Longrightarrow> c < length (bt_heap t) \<and> be_Parent (bt_heap t ! c) = Some a
    \<and> blk_Hash (blk t c) = h"
  using assms unfolding wf_children_def by blast+

lemma entries_lookup:
  assumes "wf_index t" "gget (bt_blocks t) n = Some m" "(h, a) \<in> set m"
  shows "lookup t n h = Some a"
  using assms gget_if_in_set [of m h a] by (auto simp: wf_index_def lookup_def)

lemma findParent_lookup:
  assumes wf: "wf_index t"
  shows "findParent t h n = lookup t (n - 1) h"
proof (cases "gget (bt_blocks t) (n - 1)")
  case (Some m)
  have "blk_Hash (blk t v) = k" if "(k, v) \<in> set m" for k v
    using entries_lookup [OF wf Some that] wf wf_index_lookup by blast
  then have "first_match (\<lambda>(_, v). blk_Hash (blk t v) = h) m = first_match (\<lambda>p. fst p = h) m"
    by (induction m) fastforce+
  then show ?thesis using Some first_match_key [of h m] by (simp add: findParent_def lookup_def)
qed (simp add: findParent_def lookup_def)

lemma findChild_member:
  assumes wf: "wf_index t" and c: "findChild t h n = Some c"
  shows "member t c" "c < length (bt_heap t)" "blk_Number (blk t c) = n + 1" "blk_ParentHash (blk t c) = h"
proof -
  obtain m k where m: "gget (bt_blocks t) (n + 1) = Some m" "(k, c) \<in> set m" "blk_ParentHash (blk t c) = h"
    using c by (auto simp: findChild_def split: option.splits dest: first_match_Some)
  have l: "lookup t (n + 1) k = Some c" using entries_lookup [OF wf m(1,2)] .
  show "member t c" "c < length (bt_heap t)" "blk_Number (blk t c) = n + 1" "blk_ParentHash (blk t c) = h"
    using wf_index_lookup [OF wf l] m(3) by auto
qed

section \<open>Linking a child to its parent\<close>

definition link :: "addr \<Rightarrow> addr \<Rightarrow> (hash, addr) gomap \<Rightarrow> blockTree \<Rightarrow> blockTree" where
  "link p c cs t = heap_upd c (\<lambda>b. b\<lparr>be_Parent := Some p\<rparr>)
     (heap_upd p (\<lambda>b. b\<lparr>be_Children := Some (gset (blk_Hash (blk t c)) c cs)\<rparr>) t)"

lemma heap_upd_simps [simp]:
  "bt_blocks (heap_upd a f t) = bt_blocks t" "bt_root (heap_upd a f t) = bt_root t"
  "length (bt_heap (heap_upd a f t)) = length (bt_heap t)"
  by (simp_all add: heap_upd_def)

lemma nth_heap_upd:
  "a < length (bt_heap t) \<Longrightarrow>
    bt_heap (heap_upd a f t) ! x = (if x = a then f (bt_heap t ! a) else bt_heap t ! x)"
  by (simp add: heap_upd_def)

lemma nth_link:
  assumes "p < length (bt_heap t)" "c < length (bt_heap t)" "p \<noteq> c"
  shows "bt_heap (link p c cs t) ! x =
    (if x = c then (bt_heap t ! c)\<lparr>be_Parent := Some p\<rparr>
     else if x = p then (bt_heap t ! p)\<lparr>be_Children := Some (gset (blk_Hash (blk t c)) c cs)\<rparr>
     else bt_heap t ! x)"
  using assms by (simp add: link_def nth_heap_upd)

lemma link_simps [simp]:
  "bt_blocks (link p c cs t) = bt_blocks t" "bt_root (link p c cs t) = bt_root t"
  "length (bt_heap (link p c cs t)) = length (bt_heap t)" "lookup (link p c cs t) n h = lookup t n h"
  by (simp_all add: link_def lookup_def)

lemma wf_bt_parts:
  assumes "wf_bt t"
  shows "wf_index t" "wf_parents t" "wf_children t" "wf_links t {}" "wf_kids t"
  using assms by (simp_all add: wf_bt_def)

lemma wf_bt_link:
  assumes wf: "wf_bt t" and p: "member t p" and c: "member t c" and cs: "be_Children (bt_heap t ! p) = Some cs"
    and par: "be_Parent (bt_heap t ! c) = None"
    and num: "blk_Number (blk t c) = blk_Number (blk t p) + 1" and ph: "blk_ParentHash (blk t c) = blk_Hash (blk t p)"
  shows "wf_bt (link p c cs t)"
proof -
  note parts = wf_bt_parts [OF wf]
  have v: "p < length (bt_heap t)" "c < length (bt_heap t)" "p \<noteq> c"
    using member_valid [OF parts(1)] p c num by auto
  note nth = nth_link [OF v, of cs]
  have blk: "blk (link p c cs t) x = blk t x" for x by (simp add: nth)
  have mem: "member (link p c cs t) x = member t x" for x by (simp add: member_def blk)
  have pmax: "blk_Number (blk t p) \<noteq> MaxUint64"
    using wf_index_lookup(4) [OF parts(1) p [unfolded member_def]] .
  have gw: "gwf cs" and kids: "\<And>h x. (h, x) \<in> set cs \<Longrightarrow> x < length (bt_heap t)
      \<and> be_Parent (bt_heap t ! x) = Some p \<and> blk_Hash (blk t x) = h"
    using wf_childrenD [OF parts(3) v(1) cs] by blast+
  have i: "wf_index (link p c cs t)"
    using parts(1) unfolding wf_index_def by (auto simp: blk nth)
  have pa: "wf_parents (link p c cs t)"
    using parts(2) v num ph pmax unfolding wf_parents_def blk by (auto simp: nth)
  have ch: "wf_children (link p c cs t)"
    unfolding wf_children_def
  proof (intro allI impI)
    fix a ds assume a: "a < length (bt_heap (link p c cs t))" "be_Children (bt_heap (link p c cs t) ! a) = Some ds"
    show "gwf ds \<and> (\<forall>(h, x) \<in> set ds. x < length (bt_heap (link p c cs t))
        \<and> be_Parent (bt_heap (link p c cs t) ! x) = Some a \<and> blk_Hash (blk (link p c cs t) x) = h)"
    proof (cases "a = p")
      case True
      then have "ds = gset (blk_Hash (blk t c)) c cs" using a(2) v by (simp add: nth)
      then show ?thesis
        using True gw v kids gwf_set_gset [OF gw] unfolding blk by (auto simp: nth)
    next
      case False
      then have "be_Children (bt_heap t ! a) = Some ds" using a(2) by (auto simp: nth split: if_splits)
      then have *: "gwf ds" "\<And>h x. (h, x) \<in> set ds \<Longrightarrow> x < length (bt_heap t)
          \<and> be_Parent (bt_heap t ! x) = Some a \<and> blk_Hash (blk t x) = h"
        using wf_childrenD [OF parts(3)] a(1) by simp_all
      then show ?thesis using par v unfolding blk by (fastforce simp: nth)
    qed
  qed
  have kidnum: "blk_Number (blk t x) = blk_Number (blk t p) + 1" if "(h, x) \<in> set cs" for h x
    using kids [OF that] parts(2) unfolding wf_parents_def by blast
  have hc: "has_child (link p c cs t) q x" if hx: "has_child t q x" and mx: "member t x" for q x
  proof -
    obtain ds where ds: "be_Children (bt_heap t ! q) = Some ds" "(blk_Hash (blk t x), x) \<in> set ds"
      using hx by (auto simp: has_child_def)
    show ?thesis
    proof (cases "q = p")
      case True
      have "(blk_Hash (blk t x), x) \<in> set cs" using ds cs True by simp
      then have nx: "blk_Number (blk t x) = blk_Number (blk t c)" unfolding num by (rule kidnum)
      have "x = c" if "blk_Hash (blk t x) = blk_Hash (blk t c)"
        using mx c unfolding member_def nx that by simp
      then have "(blk_Hash (blk t x), x) \<in> set (gset (blk_Hash (blk t c)) c cs)"
        using ds cs gwf_set_gset [OF gw, of "blk_Hash (blk t c)" c] by (auto simp: True)
      then show ?thesis unfolding has_child_def blk using True v by (simp add: nth)
    next
      case False
      then show ?thesis unfolding has_child_def blk using ds by (auto simp: nth)
    qed
  qed
  have "has_child (link p c cs t) p c"
    using gwf_set_gset [OF gw] v unfolding has_child_def blk by (simp add: nth)
  then have li: "wf_links (link p c cs t) {}"
    using parts(4) p hc v unfolding wf_links_def mem by (auto simp: nth split: if_splits)
  have ki: "wf_kids (link p c cs t)"
    unfolding wf_kids_def mem
  proof (intro allI impI)
    fix a ds assume a: "member t a" "be_Children (bt_heap (link p c cs t) ! a) = Some ds"
    show "\<forall>(h, x) \<in> set ds. member t x"
    proof (cases "a = p")
      case True
      then have "ds = gset (blk_Hash (blk t c)) c cs" using a(2) v by (simp add: nth)
      moreover have "\<forall>(h, x) \<in> set cs. member t x" using parts(5) p cs unfolding wf_kids_def by blast
      ultimately show ?thesis using c gwf_set_gset [OF gw] by auto
    next
      case False
      then have "be_Children (bt_heap t ! a) = Some ds" using a(2) by (auto simp: nth split: if_splits)
      then show ?thesis using parts(5) a(1) unfolding wf_kids_def by blast
    qed
  qed
  show ?thesis using i pa ch li ki wf by (simp add: wf_bt_def)
qed

section \<open>Insertion\<close>

definition add_node :: "blockExt \<Rightarrow> blockTree \<Rightarrow> blockTree" where
  "add_node ext t =
     (let number = blk_Number (be_Block ext);
          extMap = (case gget (bt_blocks t) number of None \<Rightarrow> [] | Some m \<Rightarrow> m)
      in t\<lparr>bt_heap := bt_heap t @ [ext],
           bt_blocks := gset number (gset (blk_Hash (be_Block ext)) (length (bt_heap t)) extMap) (bt_blocks t)\<rparr>)"

lemma lookup_add_node:
  "lookup (add_node ext t) n h =
    (if n = blk_Number (be_Block ext) \<and> h = blk_Hash (be_Block ext) then Some (length (bt_heap t))
     else lookup t n h)"
  by (auto simp: add_node_def lookup_def Let_def split: option.splits)

lemma insertBlock_fresh:
  assumes "lookup t (blk_Number (be_Block ext)) (blk_Hash (be_Block ext)) = None"
  shows "insertBlock ext t =
    go_bind (fixTree (length (bt_heap t)) (add_node ext t))
      (\<lambda>t2. go_map (\<lambda>r. (t2, r)) (commitBlock_bt (maxBlock (length (bt_heap t)) t2) t2))"
  using assms by (auto simp: insertBlock_def add_node_def Let_def lookup_def split: option.splits)

lemma insertBlock_known:
  assumes "lookup t (blk_Number (be_Block ext)) (blk_Hash (be_Block ext)) \<noteq> None"
  shows "insertBlock ext t = Inr (t, None, None)"
  using assms by (auto simp: insertBlock_def Let_def lookup_def split: option.splits)

lemma nth_add_node:
  "bt_heap (add_node ext t) ! x = (if x < length (bt_heap t) then bt_heap t ! x
     else if x = length (bt_heap t) then ext else (bt_heap t @ [ext]) ! x)"
  by (simp add: add_node_def Let_def nth_append)

lemma length_add_node [simp]: "length (bt_heap (add_node ext t)) = Suc (length (bt_heap t))"
  by (simp add: add_node_def Let_def)

lemma wf_bt_add_node:
  assumes wf: "wf_bt t" and new: "ext = new_ext b qc view" "blk_Number b \<noteq> MaxUint64"
    and fresh: "lookup t (blk_Number b) (blk_Hash b) = None"
  shows "wf_bt (add_node ext t)"
proof -
  note parts = wf_bt_parts [OF wf]
  let ?t = "add_node ext t" and ?a = "length (bt_heap t)"
  have ext: "be_Block ext = b" "be_Parent ext = None" "be_Children ext = Some []"
    by (simp_all add: new(1) new_ext_def)
  have old: "bt_heap ?t ! x = bt_heap t ! x" if "x < ?a" for x using that by (simp add: nth_add_node)
  have nw: "bt_heap ?t ! ?a = ext" by (simp add: nth_add_node)
  have look: "lookup ?t n h = (if n = blk_Number b \<and> h = blk_Hash b then Some ?a else lookup t n h)" for n h
    by (simp add: lookup_add_node ext)
  have val: "x < ?a" if "lookup t n h = Some x" for n h x using wf_index_lookup(1) [OF parts(1) that] .
  have maps: "gwf (bt_blocks ?t) \<and> (\<forall>n m. gget (bt_blocks ?t) n = Some m \<longrightarrow> gwf m)"
    using parts(1) by (auto simp: wf_index_def add_node_def Let_def split: option.splits)
  have i: "wf_index ?t"
    unfolding wf_index_def
  proof (intro conjI allI impI)
    fix n h a assume l: "lookup ?t n h = Some a"
    show "a < length (bt_heap ?t)" "blk_Number (blk ?t a) = n" "blk_Hash (blk ?t a) = h" "n \<noteq> MaxUint64"
      "be_Children (bt_heap ?t ! a) \<noteq> None"
      using l wf_index_lookup [OF parts(1), of n h a] new(2) ext by (auto simp: look nw old split: if_splits)
  qed (use maps in blast)+
  have mem: "member ?t x \<longleftrightarrow> x = ?a \<or> member t x" if "x \<le> ?a" for x
  proof (cases "x = ?a")
    case True
    then show ?thesis by (simp add: member_def look nw ext)
  next
    case False
    then have "x < ?a" using that by simp
    then show ?thesis using fresh by (auto simp: member_def look old)
  qed
  have p: "wf_parents ?t"
    using parts(2) ext unfolding wf_parents_def by (auto simp: less_Suc_eq nw old)
  have c: "wf_children ?t"
    unfolding wf_children_def
  proof (intro allI impI)
    fix a cs assume a: "a < length (bt_heap ?t)" "be_Children (bt_heap ?t ! a) = Some cs"
    show "gwf cs \<and> (\<forall>(h, c) \<in> set cs. c < length (bt_heap ?t) \<and> be_Parent (bt_heap ?t ! c) = Some a
        \<and> blk_Hash (blk ?t c) = h)"
    proof (cases "a = ?a")
      case True
      then show ?thesis using a ext by (simp add: nw)
    next
      case False
      then have a': "a < ?a" "be_Children (bt_heap t ! a) = Some cs" using a by (simp_all add: old)
      then show ?thesis using wf_childrenD [OF parts(3) a'] by (auto simp: old less_Suc_eq)
    qed
  qed
  have l: "wf_links ?t {}"
    unfolding wf_links_def
  proof (intro allI impI)
    fix c q assume c: "member ?t c" "be_Parent (bt_heap ?t ! c) = Some q"
    have ca: "c < ?a" using member_valid [OF i c(1)] c(2) ext by (auto simp: less_Suc_eq nw)
    then have m: "member t c" "be_Parent (bt_heap t ! c) = Some q" using c mem [of c] by (simp_all add: old)
    then have q: "member t q" "has_child t q c" using parts(4) by (auto simp: wf_links_def)
    have qa: "q < ?a" using member_valid [OF parts(1) q(1)] .
    then show "q \<in> {} \<or> member ?t q \<and> has_child ?t q c"
      using q mem [of q] ca by (simp add: has_child_def old)
  qed
  have k: "wf_kids ?t"
    unfolding wf_kids_def
  proof (intro allI impI)
    fix a cs assume a: "member ?t a" "be_Children (bt_heap ?t ! a) = Some cs"
    show "\<forall>(h, c) \<in> set cs. member ?t c"
    proof (cases "a = ?a")
      case True
      then show ?thesis using a ext by (simp add: nw)
    next
      case False
      then have "a < ?a" using member_valid [OF i a(1)] by simp
      then have a': "member t a" "be_Children (bt_heap t ! a) = Some cs" using a mem [of a] by (simp_all add: old)
      have "member ?t c" if "(h, c) \<in> set cs" for h c
      proof -
        have "member t c" using parts(5) a' that unfolding wf_kids_def by blast
        then show ?thesis using mem [of c] member_valid [OF parts(1), of c] by simp
      qed
      then show ?thesis by blast
    qed
  qed
  show ?thesis
    using i p c l k wf by (auto simp: wf_bt_def add_node_def Let_def intro: less_SucI)
qed

definition same_data :: "blockTree \<Rightarrow> blockTree \<Rightarrow> bool" where
  "same_data t t' \<longleftrightarrow> bt_blocks t' = bt_blocks t \<and> bt_root t' = bt_root t
     \<and> length (bt_heap t') = length (bt_heap t)
     \<and> (\<forall>x. be_Block (bt_heap t' ! x) = be_Block (bt_heap t ! x) \<and> be_QC (bt_heap t' ! x) = be_QC (bt_heap t ! x)
          \<and> be_ViewNumber (bt_heap t' ! x) = be_ViewNumber (bt_heap t ! x))"

lemma same_data_refl: "same_data t t"
  by (simp add: same_data_def)

lemma same_data_trans: "same_data t u \<Longrightarrow> same_data u v \<Longrightarrow> same_data t v"
  by (simp add: same_data_def)

lemma same_data_link:
  "p < length (bt_heap t) \<Longrightarrow> c < length (bt_heap t) \<Longrightarrow> p \<noteq> c \<Longrightarrow> same_data t (link p c cs t)"
  by (simp add: same_data_def nth_link)

lemma same_data_lookup: "same_data t t' \<Longrightarrow> lookup t' n h = lookup t n h"
  by (simp add: same_data_def lookup_def)

lemma same_data_member: "same_data t t' \<Longrightarrow> member t' x = member t x"
  by (simp add: member_def same_data_lookup) (simp add: same_data_def)

text \<open>The two halves of \<open>fixTree\<close>.\<close>

definition fix_parent :: "addr \<Rightarrow> blockTree \<Rightarrow> blockTree go" where
  "fix_parent ext t =
     (case findParent t (blk_ParentHash (blk t ext)) (blk_Number (blk t ext)) of None \<Rightarrow> Inr t
      | Some p \<Rightarrow>
          go_map (\<lambda>b. heap_upd ext (\<lambda>b. b\<lparr>be_Parent := Some p\<rparr>) (heap_upd p (\<lambda>_. b) t))
            (children_put (blk_Hash (blk t ext)) ext (bt_heap t ! p)))"

definition fix_child :: "addr \<Rightarrow> addr option \<Rightarrow> blockTree \<Rightarrow> blockTree go" where
  "fix_child ext child t =
     (case child of None \<Rightarrow> Inr t
      | Some c \<Rightarrow>
          (let t = heap_upd c (\<lambda>b. b\<lparr>be_Parent := Some ext\<rparr>) t
           in go_map (\<lambda>b. heap_upd ext (\<lambda>_. b) t)
                (children_put (blk_Hash (be_Block (bt_heap t ! c))) c (bt_heap t ! ext))))"

lemma fixTree_halves:
  "fixTree ext t = go_bind (fix_parent ext t) (fix_child ext (findChild t (blk_Hash (blk t ext)) (blk_Number (blk t ext))))"
  unfolding fixTree_def fix_parent_def fix_child_def [abs_def] Let_def ..

lemma fix_parent_wf:
  assumes wf: "wf_bt t" and a: "member t a" "be_Parent (bt_heap t ! a) = None"
  obtains t' where "fix_parent a t = Inr t'" "wf_bt t'" "same_data t t'"
    "\<And>x. x \<noteq> a \<Longrightarrow> be_Parent (bt_heap t' ! x) = be_Parent (bt_heap t ! x)"
    "be_Parent (bt_heap t' ! a) = lookup t (blk_Number (blk t a) - 1) (blk_ParentHash (blk t a))"
proof (cases "lookup t (blk_Number (blk t a) - 1) (blk_ParentHash (blk t a))")
  case None
  then show thesis
    using that [of t] wf a same_data_refl findParent_lookup [OF wf_bt_parts(1) [OF wf]] by (simp add: fix_parent_def)
next
  case (Some p)
  note p = wf_index_lookup [OF wf_bt_parts(1) [OF wf] Some]
  obtain cs where cs: "be_Children (bt_heap t ! p) = Some cs" using p(5) by auto
  have v: "p < length (bt_heap t)" "a < length (bt_heap t)" "p \<noteq> a"
    using p member_valid [OF wf_bt_parts(1) [OF wf] a(1)] by auto
  have "fix_parent a t = Inr (link p a cs t)"
    using Some cs findParent_lookup [OF wf_bt_parts(1) [OF wf]]
    by (simp add: fix_parent_def children_put_def link_def heap_upd_def)
  moreover have "wf_bt (link p a cs t)" using wf_bt_link [OF wf p(6) a(1) cs a(2)] p by simp
  ultimately show thesis
    using that [of "link p a cs t"] same_data_link [OF v] Some v by (simp add: nth_link)
qed

lemma fix_child_wf:
  assumes wf: "wf_bt t" and a: "member t a" and c: "\<And>c. child = Some c \<Longrightarrow> member t c
      \<and> blk_Number (blk t c) = blk_Number (blk t a) + 1 \<and> blk_ParentHash (blk t c) = blk_Hash (blk t a)
      \<and> be_Parent (bt_heap t ! c) = None"
  obtains t' where "fix_child a child t = Inr t'" "wf_bt t'" "same_data t t'"
    "be_Parent (bt_heap t' ! a) = be_Parent (bt_heap t ! a)"
proof (cases child)
  case None
  then show thesis using that [of t] wf same_data_refl by (simp add: fix_child_def)
next
  case (Some c')
  note c = c [OF Some]
  obtain cs where cs: "be_Children (bt_heap t ! a) = Some cs"
    using wf_index_lookup(5) [OF wf_bt_parts(1) [OF wf] a [unfolded member_def]] by auto
  have v: "a < length (bt_heap t)" "c' < length (bt_heap t)" "a \<noteq> c'"
    using member_valid [OF wf_bt_parts(1) [OF wf]] a c by auto
  have "fix_child a child t = Inr (link a c' cs t)"
    using cs v by (simp add: Some fix_child_def children_put_def link_def nth_heap_upd Let_def)
      (simp add: heap_upd_def list_update_swap)
  moreover have "wf_bt (link a c' cs t)"
    using wf_bt_link [OF wf a _ cs, of c'] c by simp
  ultimately show thesis using that [of "link a c' cs t"] same_data_link [OF v] v by (simp add: nth_link)
qed

lemma insert_fixTree:
  fixes qc view
  assumes wf: "wf_bt t" and b: "blk_Number b \<noteq> MaxUint64" "lookup t (blk_Number b) (blk_Hash b) = None"
  defines "t1 \<equiv> add_node (new_ext b qc view) t" and "a \<equiv> length (bt_heap t)"
  obtains t2 where "fixTree a t1 = Inr t2" "wf_bt t2" "same_data t1 t2" "member t2 a" "blk t2 a = b"
    "be_Parent (bt_heap t2 ! a) = lookup t1 (blk_Number b - 1) (blk_ParentHash b)"
proof -
  have wf1: "wf_bt t1" unfolding t1_def by (rule wf_bt_add_node [OF wf refl b])
  have na: "bt_heap t1 ! a = new_ext b qc view" by (simp add: t1_def a_def nth_add_node)
  have ba: "blk t1 a = b" by (simp add: na new_ext_def)
  have ma: "member t1 a" by (simp add: member_def ba) (simp add: t1_def a_def lookup_add_node new_ext_def)
  have pa: "be_Parent (bt_heap t1 ! a) = None" by (simp add: na new_ext_def)
  obtain t' where t': "fix_parent a t1 = Inr t'" "wf_bt t'" "same_data t1 t'"
    "\<And>x. x \<noteq> a \<Longrightarrow> be_Parent (bt_heap t' ! x) = be_Parent (bt_heap t1 ! x)"
    "be_Parent (bt_heap t' ! a) = lookup t1 (blk_Number (blk t1 a) - 1) (blk_ParentHash (blk t1 a))"
    by (rule fix_parent_wf [OF wf1 ma pa]) blast
  have blk': "blk t' x = blk t1 x" for x using t'(3) by (simp add: same_data_def)
  have child: "member t' c \<and> blk_Number (blk t' c) = blk_Number (blk t' a) + 1
      \<and> blk_ParentHash (blk t' c) = blk_Hash (blk t' a) \<and> be_Parent (bt_heap t' ! c) = None"
    if fc: "findChild t1 (blk_Hash (blk t1 a)) (blk_Number (blk t1 a)) = Some c" for c
  proof -
    note c = findChild_member [OF wf_bt_parts(1) [OF wf1] fc]
    have "be_Parent (bt_heap t1 ! c) = None"
    proof (rule ccontr)
      assume "be_Parent (bt_heap t1 ! c) \<noteq> None"
      then obtain q where q: "be_Parent (bt_heap t1 ! c) = Some q" by blast
      have mq: "member t1 q" "has_child t1 q c"
        using wf_bt_parts(4) [OF wf1] c(1) q by (auto simp: wf_links_def)
      have "blk_Number (blk t1 q) = blk_Number (blk t1 a)" "blk_Hash (blk t1 q) = blk_Hash (blk t1 a)"
        using wf_bt_parts(2) [OF wf1] c q unfolding wf_parents_def by auto
      then have "q = a" using mq(1) ma by (simp add: member_def)
      then show False using mq(2) by (simp add: has_child_def na new_ext_def)
    qed
    moreover have "c \<noteq> a" using c(3) by auto
    ultimately show ?thesis using c t'(4) same_data_member [OF t'(3)] by (simp add: blk')
  qed
  have "member t' a" using ma same_data_member [OF t'(3)] by simp
  from fix_child_wf [OF t'(2) this child]
  obtain t2 where t2: "fix_child a (findChild t1 (blk_Hash (blk t1 a)) (blk_Number (blk t1 a))) t' = Inr t2"
    "wf_bt t2" "same_data t' t2" "be_Parent (bt_heap t2 ! a) = be_Parent (bt_heap t' ! a)" by blast
  show thesis
  proof
    show "fixTree a t1 = Inr t2" using t'(1) t2(1) by (simp add: fixTree_halves)
    show sd: "same_data t1 t2" using same_data_trans [OF t'(3) t2(3)] .
    show "member t2 a" using ma same_data_member [OF sd] by simp
    show "blk t2 a = b" using sd ba by (simp add: same_data_def)
    show "be_Parent (bt_heap t2 ! a) = lookup t1 (blk_Number b - 1) (blk_ParentHash b)"
      using t2(4) t'(5) ba by simp
  qed (rule t2(2))
qed

lemma fold_max:
  fixes f :: "'a \<Rightarrow> 'b :: linorder" and P :: "'a \<Rightarrow> bool"
  defines "g \<equiv> (\<lambda>(_, e) mx. if f mx < f e \<and> P e then e else mx)"
  shows "(fold g m a = a \<or> (\<exists>k. (k, fold g m a) \<in> set m) \<and> P (fold g m a)) \<and> f a \<le> f (fold g m a)
    \<and> (\<forall>(k, e) \<in> set m. P e \<longrightarrow> f e \<le> f (fold g m a))"
proof (induction m arbitrary: a)
  case (Cons x m)
  obtain k e where x: "x = (k, e)" by (cases x)
  show ?case
    using Cons [of "g x a"] by (auto simp: x g_def split: if_splits intro: order_trans)
qed simp

lemma maxBlock_max:
  assumes wf: "wf_index t" and a: "member t a"
  shows "member t (maxBlock a t) \<and> blk_Number (blk t (maxBlock a t)) = blk_Number (blk t a)
    \<and> be_ViewNumber (bt_heap t ! a) + 1 \<le> be_ViewNumber (bt_heap t ! maxBlock a t) + 1
    \<and> (\<forall>h e. lookup t (blk_Number (blk t a)) h = Some e \<longrightarrow> be_Parent (bt_heap t ! e) \<noteq> None \<longrightarrow>
          be_ViewNumber (bt_heap t ! e) + 1 \<le> be_ViewNumber (bt_heap t ! maxBlock a t) + 1)"
proof -
  let ?n = "blk_Number (blk t a)"
  let ?f = "\<lambda>e. be_ViewNumber (bt_heap t ! e) + 1" and ?P = "\<lambda>e. be_Parent (bt_heap t ! e) \<noteq> None"
  obtain m where m: "gget (bt_blocks t) ?n = Some m"
    using a by (auto simp: member_def lookup_def split: option.splits)
  have mx: "maxBlock a t = fold (\<lambda>(_, e) mx. if ?f mx < ?f e \<and> ?P e then e else mx) m a"
    by (simp add: maxBlock_def m)
  note F = fold_max [where f = ?f and P = ?P and m = m and a = a, folded mx]
  have "member t (maxBlock a t) \<and> blk_Number (blk t (maxBlock a t)) = ?n"
    using F a entries_lookup [OF wf m] wf_index_lookup [OF wf] by metis
  moreover have "?f e \<le> ?f (maxBlock a t)" if "lookup t ?n h = Some e" "?P e" for h e
  proof -
    have "(h, e) \<in> set m" using that(1) m gget_in_set by (fastforce simp: lookup_def)
    then show ?thesis using F that(2) by blast
  qed
  ultimately show ?thesis using F by blast
qed

section \<open>Pruning\<close>

definition prune_inv :: "addr set \<Rightarrow> blockTree \<Rightarrow> bool" where
  "prune_inv S t \<longleftrightarrow> wf_index t \<and> wf_parents t \<and> wf_children t \<and> wf_links t S \<and> wf_kids t
     \<and> (\<forall>s \<in> S. \<not> member t s)"

text \<open>What a pruning step leaves alone: the data of the nodes, everything up to height \<open>k\<close>, and the
  parents of the nodes it keeps; and it removes no node whose parent it keeps.\<close>

definition prune_rel :: "u64 \<Rightarrow> blockTree \<Rightarrow> blockTree \<Rightarrow> bool" where
  "prune_rel k t t' \<longleftrightarrow> bt_root t' = bt_root t \<and> length (bt_heap t') = length (bt_heap t)
     \<and> (\<forall>x. be_Block (bt_heap t' ! x) = be_Block (bt_heap t ! x) \<and> be_QC (bt_heap t' ! x) = be_QC (bt_heap t ! x))
     \<and> (\<forall>n h a. lookup t' n h = Some a \<longrightarrow> lookup t n h = Some a)
     \<and> (\<forall>n h. n \<le> k \<longrightarrow> lookup t' n h = lookup t n h)
     \<and> (\<forall>x. blk_Number (blk t x) \<le> k \<or> member t' x \<longrightarrow> be_Parent (bt_heap t' ! x) = be_Parent (bt_heap t ! x))
     \<and> (\<forall>x. member t x \<and> \<not> member t' x \<longrightarrow> (\<exists>p. be_Parent (bt_heap t ! x) = Some p \<and> \<not> member t' p))"

lemma prune_rel_refl: "prune_rel k t t"
  by (simp add: prune_rel_def)

lemma prune_rel_member: "prune_rel k t t' \<Longrightarrow> member t' x \<Longrightarrow> member t x"
  by (simp add: prune_rel_def member_def)

lemma prune_relD:
  assumes "prune_rel k t t'"
  shows "bt_root t' = bt_root t" "length (bt_heap t') = length (bt_heap t)"
    "blk t' x = blk t x" "be_QC (bt_heap t' ! x) = be_QC (bt_heap t ! x)"
    "lookup t' n h = Some a \<Longrightarrow> lookup t n h = Some a"
    "n \<le> k \<Longrightarrow> lookup t' n h = lookup t n h"
    "blk_Number (blk t x) \<le> k \<Longrightarrow> be_Parent (bt_heap t' ! x) = be_Parent (bt_heap t ! x)"
    "member t' x \<Longrightarrow> be_Parent (bt_heap t' ! x) = be_Parent (bt_heap t ! x)"
    "member t x \<Longrightarrow> \<not> member t' x \<Longrightarrow> \<exists>p. be_Parent (bt_heap t ! x) = Some p \<and> \<not> member t' p"
  using assms unfolding prune_rel_def by blast+

lemma prune_rel_trans:
  assumes tu: "prune_rel k t u" and uv: "prune_rel k u v"
  shows "prune_rel k t v"
proof -
  note 1 = prune_relD [OF tu] and 2 = prune_relD [OF uv]
  have "\<exists>p. be_Parent (bt_heap t ! x) = Some p \<and> \<not> member v p" if x: "member t x" "\<not> member v x" for x
  proof (cases "member u x")
    case True
    then show ?thesis using 2(9) [OF True x(2)] 1(8) [OF True] by simp
  next
    case False
    then show ?thesis using 1(9) [OF x(1) False] prune_rel_member [OF uv] by blast
  qed
  moreover have "be_Parent (bt_heap v ! x) = be_Parent (bt_heap t ! x)"
    if "blk_Number (blk t x) \<le> k \<or> member v x" for x
    using that 1(7,8) [of x] 2(7,8) [of x] 1(3) [of x] prune_rel_member [OF uv, of x] by auto
  moreover have "lookup v n h = Some a \<Longrightarrow> lookup t n h = Some a" "n \<le> k \<Longrightarrow> lookup v n h = lookup t n h" for n h a
    using 1(5,6) 2(5,6) by metis+
  moreover have "bt_root v = bt_root t" "length (bt_heap v) = length (bt_heap t)" "blk v x = blk t x"
    "be_QC (bt_heap v ! x) = be_QC (bt_heap t ! x)" for x
    using 1(1-4) 2(1-4) by metis+
  ultimately show ?thesis unfolding prune_rel_def by blast
qed

lemma prune_rel_mono: "prune_rel k t t' \<Longrightarrow> j \<le> k \<Longrightarrow> prune_rel j t t'"
  unfolding prune_rel_def by (meson order_trans)

text \<open>Removing one entry of the index.\<close>

definition del_entry :: "u64 \<Rightarrow> hash \<Rightarrow> blockTree \<Rightarrow> blockTree" where
  "del_entry n h t =
     t\<lparr>bt_blocks := gset n (gdel h (case gget (bt_blocks t) n of None \<Rightarrow> [] | Some m \<Rightarrow> m)) (bt_blocks t)\<rparr>"

lemma del_entry_simps [simp]:
  "bt_heap (del_entry n h t) = bt_heap t" "bt_root (del_entry n h t) = bt_root t"
  by (simp_all add: del_entry_def)

lemma lookup_del_entry: "lookup (del_entry n h t) n' h' = (if n' = n \<and> h' = h then None else lookup t n' h')"
  by (auto simp: del_entry_def lookup_def split: option.splits)

lemma member_del_entry:
  "member (del_entry n h t) x \<longleftrightarrow> member t x \<and> \<not> (blk_Number (blk t x) = n \<and> blk_Hash (blk t x) = h)"
  by (auto simp: member_def lookup_del_entry)

lemma has_child_del_entry [simp]: "has_child (del_entry n h t) p c = has_child t p c"
  by (simp add: has_child_def)

lemma wf_index_del_entry: "wf_index t \<Longrightarrow> wf_index (del_entry n h t)"
  unfolding wf_index_def lookup_del_entry by (auto simp: del_entry_def split: option.splits if_splits)

lemma nth_clearParent:
  assumes "e < length (bt_heap t)" "be_Parent (bt_heap t ! e) = Some p" "p < length (bt_heap t)" "p \<noteq> e"
  shows "bt_heap (clearParent e t) ! x =
    (if x = e then (bt_heap t ! e)\<lparr>be_Parent := None\<rparr>
     else if x = p then (bt_heap t ! p)\<lparr>be_Children := None\<rparr> else bt_heap t ! x)"
  using assms by (simp add: clearParent_def nth_heap_upd)

lemma clearParent_simps [simp]:
  "bt_blocks (clearParent e t) = bt_blocks t" "bt_root (clearParent e t) = bt_root t"
  "length (bt_heap (clearParent e t)) = length (bt_heap t)" "lookup (clearParent e t) n h = lookup t n h"
  by (simp_all add: clearParent_def lookup_def split: option.splits)

lemma wf_parents_neq:
  assumes "wf_parents t" "e < length (bt_heap t)" "be_Parent (bt_heap t ! e) = Some p"
  shows "p < length (bt_heap t)" "p \<noteq> e" "blk_Number (blk t e) = blk_Number (blk t p) + 1"
    "blk_Number (blk t p) < blk_Number (blk t e)"
proof -
  have *: "p < length (bt_heap t)" "blk_Number (blk t p) \<noteq> MaxUint64" "blk_Number (blk t e) = blk_Number (blk t p) + 1"
    using assms unfolding wf_parents_def by blast+
  then show "p < length (bt_heap t)" "p \<noteq> e" "blk_Number (blk t e) = blk_Number (blk t p) + 1"
    "blk_Number (blk t p) < blk_Number (blk t e)"
    using u64_less_plus_1 [of "blk_Number (blk t p)"] by auto
qed

lemma clearParent_inv:
  assumes inv: "prune_inv S t" and e: "e < length (bt_heap t)"
    and p: "be_Parent (bt_heap t ! e) = Some p" "\<not> member t p"
  shows "prune_inv S (clearParent e t)"
proof -
  have wf: "wf_index t" "wf_parents t" "wf_children t" "wf_links t S" "wf_kids t" "\<forall>s \<in> S. \<not> member t s"
    using inv by (simp_all add: prune_inv_def)
  note pe = wf_parents_neq [OF wf(2) e p(1)]
  note nth = nth_clearParent [OF e p(1) pe(1,2)]
  let ?t = "clearParent e t"
  have blk: "blk ?t x = blk t x" for x by (simp add: nth)
  have mem: "member ?t x = member t x" for x by (simp add: member_def blk)
  have kids: "be_Children (bt_heap ?t ! x) = (if x = p then None else be_Children (bt_heap t ! x))" for x
    using pe(2) by (simp add: nth)
  have par: "be_Parent (bt_heap ?t ! x) = (if x = e then None else be_Parent (bt_heap t ! x))" for x
    by (simp add: nth)
  have "wf_index ?t"
    using wf(1) p(2) unfolding wf_index_def blk kids by (auto simp: member_def)
  moreover have "wf_parents ?t" using wf(2) unfolding wf_parents_def blk par by auto
  moreover have "wf_children ?t"
    unfolding wf_children_def
  proof (intro allI impI)
    fix a cs assume a: "a < length (bt_heap ?t)" "be_Children (bt_heap ?t ! a) = Some cs"
    then have a': "a < length (bt_heap t)" "be_Children (bt_heap t ! a) = Some cs" "a \<noteq> p"
      by (auto simp: kids split: if_splits)
    show "gwf cs \<and> (\<forall>(h, c) \<in> set cs. c < length (bt_heap ?t) \<and> be_Parent (bt_heap ?t ! c) = Some a
        \<and> blk_Hash (blk ?t c) = h)"
      using wf_childrenD [OF wf(3) a'(1,2)] a'(3) p(1) by (fastforce simp: blk par)
  qed
  moreover have "wf_links ?t S"
    using wf(4) p(2) unfolding wf_links_def mem par has_child_def kids blk by (auto split: if_splits)
  moreover have "wf_kids ?t" using wf(5) unfolding wf_kids_def mem kids by (auto split: if_splits)
  ultimately show ?thesis using wf(6) by (simp add: prune_inv_def mem)
qed

lemma del_entry_inv:
  assumes inv: "prune_inv S t" and e: "member t e" "be_Parent (bt_heap t ! e) = None"
  shows "prune_inv (insert e S) (del_entry (blk_Number (blk t e)) (blk_Hash (blk t e)) t)"
proof -
  have wf: "wf_index t" "wf_parents t" "wf_children t" "wf_links t S" "wf_kids t" "\<forall>s \<in> S. \<not> member t s"
    using inv by (simp_all add: prune_inv_def)
  let ?t = "del_entry (blk_Number (blk t e)) (blk_Hash (blk t e)) t"
  have mem: "member ?t x \<longleftrightarrow> member t x \<and> x \<noteq> e" for x
    using e(1) unfolding member_del_entry unfolding member_def by auto
  have "wf_children ?t" "wf_parents ?t" using wf(2,3) by (simp_all add: wf_children_def wf_parents_def)
  moreover have "wf_links ?t (insert e S)"
    using wf(4) unfolding wf_links_def mem by auto
  moreover have "wf_kids ?t"
    unfolding wf_kids_def mem
  proof (intro allI impI)
    fix a cs assume a: "member t a \<and> a \<noteq> e" "be_Children (bt_heap ?t ! a) = Some cs"
    have "c \<noteq> e" if "(h, c) \<in> set cs" for h c
      using wf_childrenD(2) [OF wf(3) member_valid [OF wf(1)], of a cs h c] a that e(2) by auto
    then show "\<forall>(h, c) \<in> set cs. member t c \<and> c \<noteq> e"
      using wf(5) a unfolding wf_kids_def by fastforce
  qed
  ultimately show ?thesis using wf_index_del_entry [OF wf(1)] wf(6) by (auto simp: prune_inv_def mem)
qed

lemma clearChildren_simps [simp]:
  "bt_blocks (clearChildren e t) = bt_blocks t" "bt_root (clearChildren e t) = bt_root t"
  "length (bt_heap (clearChildren e t)) = length (bt_heap t)" "lookup (clearChildren e t) n h = lookup t n h"
  by (simp_all add: clearChildren_def lookup_def)

lemma clearChildren_inv:
  assumes inv: "prune_inv S t" and a: "a < length (bt_heap t)" "\<not> member t a"
  shows "prune_inv S (clearChildren a t) \<and> prune_rel k t (clearChildren a t)"
proof -
  let ?t = "clearChildren a t"
  have nth: "bt_heap ?t ! x = (if x = a then (bt_heap t ! a)\<lparr>be_Children := None\<rparr> else bt_heap t ! x)" for x
    using a(1) by (cases "bt_heap t ! a") (auto simp: clearChildren_def nth_heap_upd)
  have blk: "blk ?t x = blk t x" and par: "be_Parent (bt_heap ?t ! x) = be_Parent (bt_heap t ! x)"
    and qc: "be_QC (bt_heap ?t ! x) = be_QC (bt_heap t ! x)" for x by (simp_all add: nth)
  have kids: "be_Children (bt_heap ?t ! x) = (if x = a then None else be_Children (bt_heap t ! x))" for x
    by (simp add: nth)
  have mem: "member ?t x = member t x" for x by (simp add: member_def blk)
  have "wf_index ?t" using inv a(2) unfolding prune_inv_def wf_index_def blk kids by (auto simp: member_def)
  moreover have "wf_parents ?t" using inv unfolding prune_inv_def wf_parents_def blk par by simp
  moreover have "wf_children ?t" using inv unfolding prune_inv_def wf_children_def kids blk par by auto
  moreover have "wf_links ?t S"
    using inv a(2) unfolding prune_inv_def wf_links_def mem par has_child_def kids blk by auto
  moreover have "wf_kids ?t" using inv unfolding prune_inv_def wf_kids_def mem kids by auto
  ultimately show ?thesis using inv unfolding prune_inv_def prune_rel_def mem par blk qc by simp
qed

definition above :: "blockTree \<Rightarrow> addr \<Rightarrow> nat" where
  "above t a = card {x. x < length (bt_heap t) \<and> blk_Number (blk t a) < blk_Number (blk t x)}"

lemma above_child:
  assumes "e < length (bt_heap t)" "blk_Number (blk t a) < blk_Number (blk t e)"
  shows "above t e < above t a"
  unfolding above_def using assms by (intro psubset_card_mono) auto

lemma above_cong:
  "length (bt_heap t') = length (bt_heap t) \<Longrightarrow> (\<And>x. blk t' x = blk t x) \<Longrightarrow> above t' a = above t a"
  by (simp add: above_def)

lemma above_bound: "a < length (bt_heap t) \<Longrightarrow> above t a < length (bt_heap t)"
  unfolding above_def using psubset_card_mono [of "{..<length (bt_heap t)}"
      "{x. x < length (bt_heap t) \<and> blk_Number (blk t a) < blk_Number (blk t x)}"] by auto

definition branch_pre :: "addr set \<Rightarrow> addr \<Rightarrow> blockTree \<Rightarrow> bool" where
  "branch_pre S a t \<longleftrightarrow> prune_inv (insert a S) t \<and> a < length (bt_heap t)
     \<and> (\<forall>c. member t c \<and> be_Parent (bt_heap t ! c) = Some a \<longrightarrow> has_child t a c)
     \<and> (\<forall>cs. be_Children (bt_heap t ! a) = Some cs \<longrightarrow> (\<forall>(h, c) \<in> set cs. member t c))"

text \<open>Taking one node \<open>e\<close> off the tree.\<close>

lemma detach:
  assumes inv: "prune_inv S t" and e: "member t e" and p: "be_Parent (bt_heap t ! e) = Some a" "\<not> member t a"
    and m: "gget (bt_blocks t) (blk_Number (blk t e)) = Some m"
  defines "u \<equiv> (clearParent e t)\<lparr>bt_blocks := gset (blk_Number (blk t e)) (gdel (blk_Hash (blk t e)) m)
      (bt_blocks (clearParent e t))\<rparr>"
  shows "branch_pre S e u" "prune_rel (blk_Number (blk t a)) t u" "\<not> member u e"
    "\<And>x. x \<noteq> e \<Longrightarrow> member t x \<Longrightarrow> member u x" "\<And>x. x \<noteq> e \<Longrightarrow> be_Parent (bt_heap u ! x) = be_Parent (bt_heap t ! x)"
    "be_Parent (bt_heap u ! e) = None"
proof -
  have wf: "wf_index t" "wf_parents t" "wf_children t" "wf_links t S" "wf_kids t" "\<forall>s \<in> S. \<not> member t s"
    using inv by (simp_all add: prune_inv_def)
  have ev: "e < length (bt_heap t)" using member_valid [OF wf(1) e] .
  note pe = wf_parents_neq [OF wf(2) ev p(1)]
  note nth = nth_clearParent [OF ev p(1) pe(1,2)]
  have u: "u = del_entry (blk_Number (blk (clearParent e t) e)) (blk_Hash (blk (clearParent e t) e)) (clearParent e t)"
    by (simp add: u_def del_entry_def m nth)
  have mc: "member (clearParent e t) x = member t x" for x by (simp add: member_def nth)
  have hu: "bt_heap u = bt_heap (clearParent e t)" by (simp add: u)
  have mem: "member u x \<longleftrightarrow> member t x \<and> x \<noteq> e" for x
    using e unfolding u member_del_entry mc by (auto simp: nth member_def)
  have par: "be_Parent (bt_heap u ! x) = (if x = e then None else be_Parent (bt_heap t ! x))" for x
    by (simp add: hu nth)
  show "\<not> member u e" "\<And>x. x \<noteq> e \<Longrightarrow> member t x \<Longrightarrow> member u x" by (simp_all add: mem)
  show "\<And>x. x \<noteq> e \<Longrightarrow> be_Parent (bt_heap u ! x) = be_Parent (bt_heap t ! x)" "be_Parent (bt_heap u ! e) = None"
    by (simp_all add: par)
  have kids: "be_Children (bt_heap u ! e) = be_Children (bt_heap t ! e)" by (simp add: hu nth)
  have blk: "blk u x = blk t x" and qc: "be_QC (bt_heap u ! x) = be_QC (bt_heap t ! x)" for x by (simp_all add: hu nth)
  have "prune_inv S (clearParent e t)" by (rule clearParent_inv [OF inv ev p])
  then have iu: "prune_inv (insert e S) u" unfolding u by (rule del_entry_inv) (simp_all add: mc e nth)
  have "has_child u e c" if "member u c" "be_Parent (bt_heap u ! c) = Some e" for c
  proof -
    have "member t c" "be_Parent (bt_heap t ! c) = Some e" using that by (auto simp: mem par split: if_splits)
    then have "has_child t e c" using wf(4,6) e unfolding wf_links_def by blast
    then show ?thesis by (simp add: has_child_def kids blk)
  qed
  moreover have "member u c" if cs: "be_Children (bt_heap u ! e) = Some cs" "(h, c) \<in> set cs" for cs h c
  proof -
    have "member t c" using wf(5) e cs unfolding wf_kids_def kids by blast
    moreover have "c \<noteq> e" using wf_childrenD(2) [OF wf(3) ev _ cs(2)] cs(1) p(1) pe(2) by (auto simp: kids)
    ultimately show ?thesis by (simp add: mem)
  qed
  ultimately show "branch_pre S e u" using iu ev unfolding branch_pre_def by (auto simp: hu)
  have "lookup u n h = (if n = blk_Number (blk t e) \<and> h = blk_Hash (blk t e) then None else lookup t n h)" for n h
    by (simp add: u lookup_del_entry nth)
  moreover have "bt_root u = bt_root t" "length (bt_heap u) = length (bt_heap t)" by (simp_all add: u)
  ultimately show "prune_rel (blk_Number (blk t a)) t u"
    unfolding prune_rel_def blk qc par mem using pe p by auto
qed

definition branch_post :: "addr set \<Rightarrow> addr \<Rightarrow> blockTree \<Rightarrow> (blockTree \<times> block list) option \<Rightarrow> bool" where
  "branch_post S a t r \<longleftrightarrow>
     (\<exists>t' cl. r = Some (t', cl) \<and> prune_inv S t' \<and> prune_rel (blk_Number (blk t a)) t t')"

definition loop_pre :: "addr set \<Rightarrow> addr \<Rightarrow> (hash \<times> addr) list \<Rightarrow> blockTree \<Rightarrow> bool" where
  "loop_pre S a R t \<longleftrightarrow> prune_inv (insert a S) t \<and> gwf R
     \<and> (\<forall>(h, e) \<in> set R. member t e \<and> be_Parent (bt_heap t ! e) = Some a \<and> blk_Hash (blk t e) = h)
     \<and> (\<forall>c. member t c \<and> be_Parent (bt_heap t ! c) = Some a \<longrightarrow> (blk_Hash (blk t c), c) \<in> set R)"

lemma loop_pre_step:
  assumes pre: "loop_pre S a ((h, e) # R) t" and m: "gget (bt_blocks t) (blk_Number (blk t e)) = Some m"
  defines "u \<equiv> (clearParent e t)\<lparr>bt_blocks := gset (blk_Number (blk t e)) (gdel h m) (bt_blocks (clearParent e t))\<rparr>"
  assumes v: "prune_inv (insert a S) v" "prune_rel (blk_Number (blk u e)) u v"
  shows "branch_pre (insert a S) e u" "prune_rel (blk_Number (blk t a)) t v" "loop_pre S a R v"
proof -
  have inv: "prune_inv (insert a S) t" and na: "\<not> member t a" using pre by (simp_all add: loop_pre_def prune_inv_def)
  have e: "member t e" "be_Parent (bt_heap t ! e) = Some a" "blk_Hash (blk t e) = h" using pre by (auto simp: loop_pre_def)
  note d = detach [OF inv e(1,2) na m, unfolded e(3), folded u_def]
  show "branch_pre (insert a S) e u" by (rule d(1))
  have num: "blk_Number (blk t x) = blk_Number (blk t a) + 1" "blk_Number (blk t a) < blk_Number (blk t x)"
    if "member t x" "be_Parent (bt_heap t ! x) = Some a" for x
    using wf_parents_neq [of t x a] member_valid [of t x] that inv by (simp_all add: prune_inv_def)
  have bu: "blk u x = blk t x" for x using prune_relD(3) [OF d(2)] .
  show "prune_rel (blk_Number (blk t a)) t v"
    using prune_rel_trans [OF d(2) prune_rel_mono [OF v(2)]] num(2) [OF e(1,2)] by (simp add: bu less_imp_le)
  note V = prune_relD [OF v(2)]
  have R: "member v x \<and> be_Parent (bt_heap v ! x) = Some a \<and> blk_Hash (blk v x) = k" if x: "(k, x) \<in> set R" for k x
  proof -
    have t: "member t x" "be_Parent (bt_heap t ! x) = Some a" "blk_Hash (blk t x) = k"
      using pre x by (auto simp: loop_pre_def)
    have "x \<noteq> e" using pre x t(3) e(3) by (force simp: loop_pre_def gwf_def)
    then have xu: "member u x" "be_Parent (bt_heap u ! x) = Some a" using d(4,5) t by simp_all
    have "blk_Number (blk u x) \<le> blk_Number (blk u e)" using num(1) [OF t(1,2)] num(1) [OF e(1,2)] by (simp add: bu)
    then show ?thesis using xu t(3) V(3,6,7) by (simp add: member_def bu)
  qed
  moreover have "(blk_Hash (blk v c), c) \<in> set R" if c: "member v c" "be_Parent (bt_heap v ! c) = Some a" for c
  proof -
    have u: "member u c" "be_Parent (bt_heap u ! c) = Some a" using prune_rel_member [OF v(2)] V(8) c by simp_all
    then have "c \<noteq> e" using d(6) by auto
    then have "member t c" "be_Parent (bt_heap t ! c) = Some a"
      using u d(5) prune_rel_member [OF d(2)] by simp_all
    then have "(blk_Hash (blk t c), c) \<in> set ((h, e) # R)" using pre unfolding loop_pre_def by blast
    then show ?thesis using \<open>c \<noteq> e\<close> V(3) by (simp add: bu)
  qed
  moreover have "gwf R" using pre by (simp add: loop_pre_def gwf_def)
  ultimately show "loop_pre S a R v" using v(1) unfolding loop_pre_def by blast
qed

lemma prune_loop:
  assumes rec: "\<And>e t cl. branch_pre (insert a S) e t \<Longrightarrow> above t e < fuel \<Longrightarrow> branch_post (insert a S) e t (rec e (t, cl))"
  shows "loop_pre S a R t \<Longrightarrow> above t a \<le> fuel \<Longrightarrow>
    \<exists>t' cl'. opt_fold (prune_child rec) R (t, cl) = Some (t', cl') \<and> loop_pre S a [] t'
      \<and> prune_rel (blk_Number (blk t a)) t t'"
proof (induction R arbitrary: t cl)
  case Nil
  then show ?case by (simp add: prune_rel_refl)
next
  case (Cons x R)
  obtain h e where x: "x = (h, e)" by (cases x)
  have e: "member t e" "be_Parent (bt_heap t ! e) = Some a" and inv: "prune_inv (insert a S) t"
    using Cons.prems(1) by (auto simp: loop_pre_def x)
  obtain m where m: "gget (bt_blocks t) (blk_Number (blk t e)) = Some m"
    using e(1) by (auto simp: member_def lookup_def split: option.splits)
  let ?u = "(clearParent e t)\<lparr>bt_blocks := gset (blk_Number (blk t e)) (gdel h m) (bt_blocks (clearParent e t))\<rparr>"
  have ev: "e < length (bt_heap t)" using member_valid e(1) inv by (simp add: prune_inv_def)
  have hb: "blk_Hash (blk t e) = h" using Cons.prems(1) by (simp add: loop_pre_def x)
  have na: "\<not> member t a" using inv by (simp add: prune_inv_def)
  note d = detach [OF inv e na m, unfolded hb]
  have bu: "blk ?u y = blk t y" for y using prune_relD(3) [OF d(2)] .
  have "above t e < above t a" using above_child [OF ev] wf_parents_neq(4) [OF _ ev e(2)] inv by (simp add: prune_inv_def)
  moreover have "above ?u e = above t e" using above_cong [of ?u t] bu prune_relD(2) [OF d(2)] by simp
  ultimately have "above ?u e < fuel" using Cons.prems(2) by simp
  then obtain v cl2 where v: "rec e (?u, cl @ [blk t e]) = Some (v, cl2)" "prune_inv (insert a S) v"
    "prune_rel (blk_Number (blk ?u e)) ?u v"
    using rec [OF d(1)] unfolding branch_post_def by blast
  note st = loop_pre_step [OF Cons.prems(1) [unfolded x] m v(2,3)]
  have bv: "blk v y = blk t y" for y using prune_relD(3) [OF st(2)] .
  have "above v a \<le> fuel" using above_cong [of v t a] bv prune_relD(2) [OF st(2)] Cons.prems(2) by simp
  from Cons.IH [OF st(3) this, of cl2] obtain t' cl' where t': "opt_fold (prune_child rec) R (v, cl2) = Some (t', cl')"
    "loop_pre S a [] t'" "prune_rel (blk_Number (blk v a)) v t'" by blast
  have "prune_child rec x (t, cl) = Some (v, cl2)" using v(1) by (simp add: prune_child_def x Let_def m)
  then show ?case using t' prune_rel_trans [OF st(2)] by (simp add: bv)
qed

lemma pruneBranch_ok:
  "branch_pre S a t \<Longrightarrow> above t a < fuel \<Longrightarrow> branch_post S a t (pruneBranch fuel a (t, cl))"
proof (induction fuel arbitrary: S a t cl)
  case (Suc fuel)
  let ?R = "case be_Children (bt_heap t ! a) of None \<Rightarrow> [] | Some cs \<Rightarrow> cs"
  have inv: "prune_inv (insert a S) t" "a < length (bt_heap t)" using Suc.prems(1) by (simp_all add: branch_pre_def)
  have lp: "loop_pre S a ?R t"
  proof (cases "be_Children (bt_heap t ! a)")
    case None
    then show ?thesis using Suc.prems(1) by (auto simp: loop_pre_def branch_pre_def has_child_def)
  next
    case (Some cs)
    have "gwf cs" "\<And>h c. (h, c) \<in> set cs \<Longrightarrow> be_Parent (bt_heap t ! c) = Some a \<and> blk_Hash (blk t c) = h"
      using wf_childrenD [of t a cs] inv Some by (auto simp: prune_inv_def)
    then show ?thesis using Suc.prems(1) Some by (fastforce simp: loop_pre_def branch_pre_def has_child_def)
  qed
  obtain t' cl' where t': "opt_fold (prune_child (pruneBranch fuel)) ?R (t, cl) = Some (t', cl')"
    "loop_pre S a [] t'" "prune_rel (blk_Number (blk t a)) t t'"
    using prune_loop [where cl = cl and fuel = fuel and rec = "pruneBranch fuel", OF Suc.IH lp] Suc.prems(2)
    by auto
  have "wf_links t' S"
    using t'(2) unfolding loop_pre_def prune_inv_def wf_links_def by auto
  then have "prune_inv S t'" "\<not> member t' a" "a < length (bt_heap t')"
    using t'(2) inv(2) prune_relD(2) [OF t'(3)] by (simp_all add: loop_pre_def prune_inv_def)
  then have "prune_inv S (clearChildren a t')" "prune_rel (blk_Number (blk t a)) t' (clearChildren a t')"
    using clearChildren_inv by blast+
  then show ?case
    using t'(1,3) prune_rel_trans by (auto simp: branch_post_def)
qed simp

text \<open>The loop of \<open>PruneBlock\<close> over the blocks of the committed height.\<close>

definition rooted :: "blockTree \<Rightarrow> bool" where
  "rooted t \<longleftrightarrow> (\<exists>r. bt_root t = Some r \<and> r < length (bt_heap t)
     \<and> (\<forall>n h a. lookup t n h = Some a \<longrightarrow> blk_Number (blk t r) \<le> n))"

definition top_rel :: "u64 \<Rightarrow> blockTree \<Rightarrow> blockTree \<Rightarrow> bool" where
  "top_rel k t t' \<longleftrightarrow> length (bt_heap t') = length (bt_heap t)
     \<and> (\<forall>x. blk t' x = blk t x \<and> be_QC (bt_heap t' ! x) = be_QC (bt_heap t ! x))
     \<and> (\<forall>n h a. lookup t' n h = Some a \<longrightarrow> lookup t n h = Some a)
     \<and> (\<forall>x. k < blk_Number (blk t x) \<and> member t' x \<longrightarrow> be_Parent (bt_heap t' ! x) = be_Parent (bt_heap t ! x))
     \<and> (\<forall>x. k < blk_Number (blk t x) \<and> member t x \<and> \<not> member t' x \<longrightarrow>
          (\<exists>p. be_Parent (bt_heap t ! x) = Some p \<and> \<not> member t' p))"

lemma top_relD:
  assumes "top_rel k t t'"
  shows "length (bt_heap t') = length (bt_heap t)" "blk t' x = blk t x" "be_QC (bt_heap t' ! x) = be_QC (bt_heap t ! x)"
    "lookup t' n h = Some a \<Longrightarrow> lookup t n h = Some a"
    "k < blk_Number (blk t x) \<Longrightarrow> member t' x \<Longrightarrow> be_Parent (bt_heap t' ! x) = be_Parent (bt_heap t ! x)"
    "k < blk_Number (blk t x) \<Longrightarrow> member t x \<Longrightarrow> \<not> member t' x
      \<Longrightarrow> \<exists>p. be_Parent (bt_heap t ! x) = Some p \<and> \<not> member t' p"
  using assms unfolding top_rel_def by blast+

lemma top_rel_member: "top_rel k t t' \<Longrightarrow> member t' x \<Longrightarrow> member t x"
  by (simp add: top_rel_def member_def)

lemma top_rel_refl: "top_rel k t t"
  by (simp add: top_rel_def)

lemma top_rel_trans:
  assumes tu: "top_rel k t u" and uv: "top_rel k u v"
  shows "top_rel k t v"
proof -
  note 1 = top_relD [OF tu] and 2 = top_relD [OF uv]
  have "\<exists>p. be_Parent (bt_heap t ! x) = Some p \<and> \<not> member v p"
    if x: "k < blk_Number (blk t x)" "member t x" "\<not> member v x" for x
  proof (cases "member u x")
    case True
    then show ?thesis using 2(6) [of x] 1(5) [OF x(1) True] x 1(2) [of x] by simp
  next
    case False
    then show ?thesis using 1(6) [OF x(1,2) False] top_rel_member [OF uv] by blast
  qed
  moreover have "be_Parent (bt_heap v ! x) = be_Parent (bt_heap t ! x)"
    if "k < blk_Number (blk t x)" "member v x" for x
    using that 1(5) [of x] 2(5) [of x] 1(2) [of x] top_rel_member [OF uv, of x] by auto
  moreover have "lookup v n h = Some a \<Longrightarrow> lookup t n h = Some a" for n h a using 1(4) 2(4) by blast
  moreover have "length (bt_heap v) = length (bt_heap t)" "blk v x = blk t x"
    "be_QC (bt_heap v ! x) = be_QC (bt_heap t ! x)" for x using 1(1-3) 2(1-3) by metis+
  ultimately show ?thesis unfolding top_rel_def by blast
qed

lemma top_relI:
  assumes "length (bt_heap t') = length (bt_heap t)" "\<And>x. blk t' x = blk t x"
    "\<And>x. be_QC (bt_heap t' ! x) = be_QC (bt_heap t ! x)"
    and "\<And>n h a. lookup t' n h = Some a \<Longrightarrow> lookup t n h = Some a" "\<And>n h. k < n \<Longrightarrow> lookup t' n h = lookup t n h"
    and "\<And>x. k < blk_Number (blk t x) \<Longrightarrow> be_Parent (bt_heap t' ! x) = be_Parent (bt_heap t ! x)"
  shows "top_rel k t t'"
proof -
  have "member t' x = member t x" if "k < blk_Number (blk t x)" for x
    using assms(5) [OF that] unfolding member_def assms(2) by simp
  then show ?thesis using assms unfolding top_rel_def by blast
qed

lemma prune_rel_top: "prune_rel k t t' \<Longrightarrow> top_rel k t t'"
  unfolding prune_rel_def top_rel_def by blast

definition top_pre :: "hash \<Rightarrow> u64 \<Rightarrow> (hash \<times> addr) list \<Rightarrow> blockTree \<Rightarrow> bool" where
  "top_pre hash number R t \<longleftrightarrow>
     prune_inv {p. p < length (bt_heap t) \<and> blk_Number (blk t p) < number} t \<and> gwf R
     \<and> (\<forall>n h a. lookup t n h = Some a \<longrightarrow> number \<le> n)
     \<and> (\<forall>(h, e) \<in> set R. lookup t number h = Some e)
     \<and> (\<forall>h c. lookup t number h = Some c \<longrightarrow>
          (h, c) \<in> set R \<or> h = hash \<and> be_Parent (bt_heap t ! c) = None)"

lemma top_preI:
  assumes "prune_inv {p. p < length (bt_heap t) \<and> blk_Number (blk t p) < number} t" "gwf R"
    "\<And>n h a. lookup t n h = Some a \<Longrightarrow> number \<le> n" "\<And>h e. (h, e) \<in> set R \<Longrightarrow> lookup t number h = Some e"
    "\<And>h c. lookup t number h = Some c \<Longrightarrow> (h, c) \<in> set R"
  shows "top_pre hash number R t"
  using assms unfolding top_pre_def by blast

lemma top_preD:
  assumes "top_pre hash number ((h, e) # R) t"
  shows "(k, x) \<in> set R \<Longrightarrow> lookup t number k = Some x" "gwf R"
    "lookup t number k = Some c \<Longrightarrow> (k, c) \<in> set ((h, e) # R) \<or> k = hash \<and> be_Parent (bt_heap t ! c) = None"
    "lookup t n k = Some a \<Longrightarrow> number \<le> n" "(k, x) \<in> set R \<Longrightarrow> k \<noteq> h"
proof -
  have g: "gwf ((h, e) # R)" using assms by (simp add: top_pre_def)
  then show "gwf R" by (simp add: gwf_def)
  show "(k, x) \<in> set R \<Longrightarrow> k \<noteq> h" using g by (auto simp: gwf_def rev_image_eqI)
qed (use assms in \<open>auto simp: top_pre_def\<close>)

text \<open>Detaching a node without a parent.\<close>

lemma detach_top:
  assumes inv: "prune_inv S t" and e: "member t e" "be_Parent (bt_heap t ! e) = None"
  defines "u \<equiv> del_entry (blk_Number (blk t e)) (blk_Hash (blk t e)) t"
  shows "branch_pre S e u"
proof -
  have wf: "wf_index t" "wf_parents t" "wf_children t" "wf_links t S" "wf_kids t" "\<forall>s \<in> S. \<not> member t s"
    using inv by (simp_all add: prune_inv_def)
  have ev: "e < length (bt_heap t)" using member_valid [OF wf(1) e(1)] .
  have mem: "member u x \<longleftrightarrow> member t x \<and> x \<noteq> e" for x
    using e(1) unfolding u_def member_del_entry unfolding member_def by auto
  have hu: "bt_heap u = bt_heap t" by (simp add: u_def)
  have "has_child u e c" if "member u c" "be_Parent (bt_heap u ! c) = Some e" for c
    using that wf(4,6) e(1) unfolding wf_links_def mem hu by (auto simp: u_def)
  moreover have "member u c" if cs: "be_Children (bt_heap u ! e) = Some cs" "(h, c) \<in> set cs" for cs h c
  proof -
    have "member t c" using wf(5) e(1) cs unfolding wf_kids_def hu by blast
    moreover have "c \<noteq> e" using wf_childrenD(2) [OF wf(3) ev _ cs(2)] cs(1) e(2) by (auto simp: hu)
    ultimately show ?thesis by (simp add: mem)
  qed
  moreover have "prune_inv (insert e S) u" unfolding u_def by (rule del_entry_inv [OF inv e])
  ultimately show ?thesis using ev unfolding branch_pre_def by (auto simp: hu)
qed

lemma top_clear:
  assumes pre: "top_pre hash number ((h, e) # R) t"
  defines "u \<equiv> clearParent e t"
  shows "prune_inv {p. p < length (bt_heap t) \<and> blk_Number (blk t p) < number} u" "member u e"
    "be_Parent (bt_heap u ! e) = None" "\<And>x. x \<noteq> e \<Longrightarrow> be_Parent (bt_heap u ! x) = be_Parent (bt_heap t ! x)"
    "\<And>x. blk u x = blk t x" "\<And>x. be_QC (bt_heap u ! x) = be_QC (bt_heap t ! x)"
    "blk_Number (blk t e) = number" "blk_Hash (blk t e) = h"
proof -
  let ?S = "{p. p < length (bt_heap t) \<and> blk_Number (blk t p) < number}"
  have inv: "prune_inv ?S t" and l: "lookup t number h = Some e" using pre by (auto simp: top_pre_def)
  have wf: "wf_index t" "wf_parents t" using inv by (simp_all add: prune_inv_def)
  note e = wf_index_lookup [OF wf(1) l]
  show "blk_Number (blk t e) = number" "blk_Hash (blk t e) = h" using e by simp_all
  have "prune_inv ?S u \<and> be_Parent (bt_heap u ! e) = None \<and> (\<forall>x. x \<noteq> e \<longrightarrow> be_Parent (bt_heap u ! x) = be_Parent (bt_heap t ! x))
    \<and> (\<forall>x. blk u x = blk t x \<and> be_QC (bt_heap u ! x) = be_QC (bt_heap t ! x))"
  proof (cases "be_Parent (bt_heap t ! e)")
    case None
    then show ?thesis using inv by (simp add: u_def clearParent_def)
  next
    case (Some p)
    note pe = wf_parents_neq [OF wf(2) e(1) Some]
    have "blk_Number (blk t p) < number" using pe(4) e(2) by simp
    then have "\<not> member t p" using pre by (fastforce simp: top_pre_def member_def)
    then show ?thesis
      using clearParent_inv [OF inv e(1) Some] nth_clearParent [OF e(1) Some pe(1,2)] by (simp add: u_def)
  qed
  then show "prune_inv ?S u" "be_Parent (bt_heap u ! e) = None" "\<And>x. x \<noteq> e \<Longrightarrow> be_Parent (bt_heap u ! x) = be_Parent (bt_heap t ! x)"
    and b: "\<And>x. blk u x = blk t x" "\<And>x. be_QC (bt_heap u ! x) = be_QC (bt_heap t ! x)" by blast+
  show "member u e" using e(6) unfolding member_def b by (simp add: u_def)
qed

lemma prune_inv_root [simp]: "prune_inv S (t\<lparr>bt_root := r\<rparr>) = prune_inv S t"
  by (simp add: prune_inv_def wf_index_def wf_parents_def wf_children_def wf_links_def wf_kids_def member_def
      has_child_def lookup_def)

lemma lookup_root [simp]: "lookup (t\<lparr>bt_root := r\<rparr>) = lookup t"
  by (simp add: lookup_def fun_eq_iff)

lemma member_root [simp]: "member (t\<lparr>bt_root := r\<rparr>) = member t"
  by (simp add: member_def fun_eq_iff)

lemma top_keep:
  assumes pre: "top_pre hash number ((hash, e) # R) t"
  defines "v \<equiv> (clearParent e t)\<lparr>bt_root := Some e\<rparr>"
  shows "top_pre hash number R v" "top_rel number t v"
proof -
  note u = top_clear [OF pre]
  note R = top_preD [OF pre]
  have "(k, c) \<in> set R \<or> k = hash \<and> be_Parent (bt_heap (clearParent e t) ! c) = None"
    if "lookup t number k = Some c" for k c
    using R(3) [OF that] u(3,4) by (cases "c = e") auto
  then show "top_pre hash number R v" using u(1,5) R unfolding top_pre_def v_def by auto
  have "c \<noteq> e" if "number < blk_Number (blk t c)" for c using that u(7) by auto
  then show "top_rel number t v" unfolding v_def using u(4-6) by (intro top_relI) simp_all
qed

lemma top_drop:
  assumes pre: "top_pre hash number ((h, e) # R) t" and h: "h \<noteq> hash" and fuel: "length (bt_heap t) < fuel"
  shows "\<exists>v cl'. pruneBranch fuel e (del_entry number h (clearParent e t), cl) = Some (v, cl')
    \<and> top_pre hash number R v \<and> top_rel number t v \<and> bt_root v = bt_root t
    \<and> (\<forall>k. lookup v number k = (if k = h then None else lookup t number k))"
proof -
  note c = top_clear [OF pre]
  let ?S = "{p. p < length (bt_heap t) \<and> blk_Number (blk t p) < number}"
  let ?u = "del_entry number h (clearParent e t)"
  have bp: "branch_pre ?S e ?u" using detach_top [OF c(1,2,3)] c(5,7,8) by simp
  have "above ?u e < fuel" using above_bound [of e ?u] bp fuel by (simp add: branch_pre_def)
  from pruneBranch_ok [OF bp this, of cl] obtain v cl' where v: "pruneBranch fuel e (?u, cl) = Some (v, cl')"
    "prune_inv ?S v" "prune_rel number ?u v" using c(5,7) by (auto simp: branch_post_def)
  note V = prune_relD [OF v(3)]
  have bv: "blk v x = blk t x" for x using V(3) [of x] c(5) by simp
  have lv: "lookup v number k = (if k = h then None else lookup t number k)" for k
    using V(6) [of number k] by (simp add: lookup_del_entry)
  note R = top_preD [OF pre]
  have num: "blk_Number (blk t x) = number" if "lookup t number k = Some x" for k x
    using pre wf_index_lookup(2) [OF _ that] by (simp add: top_pre_def prune_inv_def)
  have "(k, x) \<in> set R \<or> k = hash \<and> be_Parent (bt_heap v ! x) = None" if l: "lookup v number k = Some x" for k x
  proof -
    have k: "k \<noteq> h" "lookup t number k = Some x" using l lv by (auto split: if_splits)
    moreover have "x \<noteq> e" using k c(8) pre wf_index_lookup(3) [OF _ k(2)] by (auto simp: top_pre_def prune_inv_def)
    moreover from this have "be_Parent (bt_heap v ! x) = be_Parent (bt_heap t ! x)"
      using V(7) [of x] num [OF k(2)] c(4,5) by simp
    ultimately show ?thesis using R(3) [OF k(2)] by auto
  qed
  moreover have "number \<le> n" if "lookup v n k = Some a" for n k a
    using V(5) [OF that] R(4) by (auto simp: lookup_del_entry split: if_splits)
  moreover have len: "length (bt_heap v) = length (bt_heap t)" using V(2) by simp
  ultimately have tp: "top_pre hash number R v"
    using v(2) R(1,2,5) lv unfolding top_pre_def bv len by auto
  have "x \<noteq> e" if "number < blk_Number (blk t x)" for x using that c(7) by auto
  then have "top_rel number t ?u"
    using c(4-6) by (intro top_relI) (auto simp: lookup_del_entry split: if_splits)
  then have "top_rel number t v" using prune_rel_top [OF v(3)] by (rule top_rel_trans)
  then show ?thesis using v(1) tp lv V(1) by auto
qed

lemma top_loop:
  "top_pre hash number R t \<Longrightarrow> length (bt_heap t) < fuel \<Longrightarrow>
    \<exists>t' cl'. opt_fold (prune_ext fuel hash number) R (t, cl) = Some (t', cl') \<and> top_pre hash number [] t'
      \<and> top_rel number t t' \<and> bt_root t' = (case gget R hash of None \<Rightarrow> bt_root t | Some e \<Rightarrow> Some e)
      \<and> (\<forall>k. lookup t' number k = (if k = hash then lookup t number hash else
            if k \<in> gkeys R then None else lookup t number k))"
proof (induction R arbitrary: t cl)
  case Nil
  then show ?case using top_rel_refl [of number t] by (simp add: gget_def)
next
  case (Cons x R)
  obtain h e where x: "x = (h, e)" by (cases x)
  note pre = Cons.prems(1) [unfolded x]
  have nh: "gget R h = None"
    using top_preD(5) [OF pre] by (force simp: gget_None_iff)
  show ?case
  proof (cases "h = hash")
    case True
    let ?v = "(clearParent e t)\<lparr>bt_root := Some e\<rparr>"
    have v: "top_pre hash number R ?v" "top_rel number t ?v" using top_keep [of hash number e R t] pre True by simp_all
    have "length (bt_heap ?v) < fuel" using Cons.prems(2) by simp
    from Cons.IH [OF v(1) this, of cl] show ?thesis
      using top_rel_trans [OF v(2)] nh True by (auto simp: x prune_ext_def Let_def gget_def)
  next
    case False
    from top_drop [OF pre False Cons.prems(2), of cl] obtain v cl2 where
      v: "pruneBranch fuel e (del_entry number h (clearParent e t), cl) = Some (v, cl2)"
      "top_pre hash number R v" "top_rel number t v" "bt_root v = bt_root t"
      "\<And>k. lookup v number k = (if k = h then None else lookup t number k)" by blast
    have "prune_ext fuel hash number x (t, cl) = Some (v, cl2)"
      using v(1) False by (simp add: prune_ext_def x Let_def del_entry_def)
    moreover have "length (bt_heap v) < fuel" using top_relD(1) [OF v(3)] Cons.prems(2) by simp
    from Cons.IH [OF v(2) this, of cl2] obtain t' cl' where t':
      "opt_fold (prune_ext fuel hash number) R (v, cl2) = Some (t', cl')" "top_pre hash number [] t'"
      "top_rel number v t'" "bt_root t' = (case gget R hash of None \<Rightarrow> bt_root v | Some e \<Rightarrow> Some e)"
      "\<And>k. lookup t' number k = (if k = hash then lookup v number hash else
            if k \<in> gkeys R then None else lookup v number k)" by blast
    ultimately show ?thesis
      using top_rel_trans [OF v(3) t'(3)] False v(4,5) by (auto simp: x gget_def split: option.split)
  qed
qed

lemma gget_del_range: "gget (del_range lo hi m) n = (if lo \<le> n \<and> n < hi then None else gget m n)"
  unfolding gget_def del_range_def by (induction m) auto

lemma lookup_del_range:
  "lookup (t\<lparr>bt_blocks := del_range lo hi (bt_blocks t)\<rparr>) n h
    = (if lo \<le> n \<and> n < hi then None else lookup t n h)"
  by (simp add: lookup_def gget_del_range)

lemma gwf_del_range: "gwf m \<Longrightarrow> gwf (del_range lo hi m)"
  unfolding gwf_def del_range_def by (rule distinct_map_filter)

lemma del_range_pre:
  fixes number
  assumes wf: "wf_bt t" and root: "bt_root t = Some r" "\<And>n h a. lookup t n h = Some a \<Longrightarrow> blk_Number (blk t r) \<le> n"
  defines "u \<equiv> t\<lparr>bt_blocks := del_range (blk_Number (blk t r)) number (bt_blocks t)\<rparr>"
  shows "prune_inv {p. p < length (bt_heap u) \<and> blk_Number (blk u p) < number} u"
    and "lookup u n h = (if n < number then None else lookup t n h)"
proof -
  have parts: "wf_index t" "wf_parents t" "wf_children t" "wf_links t {}" "wf_kids t" using wf_bt_parts [OF wf] .
  have g: "gwf (bt_blocks t)" using parts(1) by (simp add: wf_index_def)
  have look: "lookup u n h = (if n < number then None else lookup t n h)" for n h
    using lookup_del_range root(2) by (cases "lookup t n h") (auto simp: u_def)
  then show "lookup u n h = (if n < number then None else lookup t n h)" .
  have hu: "bt_heap u = bt_heap t" by (simp add: u_def)
  have mem: "member u x \<longleftrightarrow> member t x \<and> number \<le> blk_Number (blk t x)" for x by (auto simp: member_def look hu)
  have "gget (bt_blocks u) n = Some m \<Longrightarrow> gwf m" for n m
  proof -
    assume "gget (bt_blocks u) n = Some m"
    then have "(n, m) \<in> set (bt_blocks t)" by (auto simp: u_def del_range_def dest!: gget_in_set)
    then show "gwf m" using gget_if_in_set [OF g] parts(1) by (auto simp: wf_index_def)
  qed
  moreover have "gwf (bt_blocks u)" using gwf_del_range [OF g] by (simp add: u_def)
  ultimately have "wf_index u"
    using parts(1) unfolding wf_index_def look hu by auto
  moreover have "wf_parents u" "wf_children u" using parts(2,3) by (simp_all add: wf_parents_def wf_children_def hu)
  moreover have "wf_links u {p. p < length (bt_heap u) \<and> blk_Number (blk u p) < number}"
    unfolding wf_links_def
  proof (intro allI impI)
    fix c p assume c: "member u c" "be_Parent (bt_heap u ! c) = Some p"
    have "member t p" "has_child t p c" using c parts(4) by (auto simp: wf_links_def mem hu)
    then show "p \<in> {p. p < length (bt_heap u) \<and> blk_Number (blk u p) < number} \<or> member u p \<and> has_child u p c"
      using member_valid [OF parts(1)] by (auto simp: mem hu has_child_def)
  qed
  moreover have "wf_kids u"
    unfolding wf_kids_def
  proof (intro allI impI)
    fix a cs assume a: "member u a" "be_Children (bt_heap u ! a) = Some cs"
    have "member u c" if "(h, c) \<in> set cs" for h c
    proof -
      have av: "a < length (bt_heap t)" using member_valid [OF parts(1)] a(1) by (simp add: mem)
      have ac: "be_Children (bt_heap t ! a) = Some cs" using a(2) by (simp add: hu)
      have cv: "c < length (bt_heap t)" "be_Parent (bt_heap t ! c) = Some a"
        using wf_childrenD(2) [OF parts(3) av ac that] by simp_all
      have "member t c" using parts(5) a(1) ac that unfolding wf_kids_def mem by blast
      moreover have "number \<le> blk_Number (blk t c)"
        using wf_parents_neq(4) [OF parts(2) cv] a(1) unfolding mem by (meson less_imp_le order_trans)
      ultimately show ?thesis by (simp add: mem)
    qed
    then show "\<forall>(h, c) \<in> set cs. member u c" by blast
  qed
  ultimately show "prune_inv {p. p < length (bt_heap u) \<and> blk_Number (blk u p) < number} u"
    by (auto simp: prune_inv_def mem hu)
qed

lemma PruneBlock_ok:
  assumes wf: "wf_bt t" and rt: "rooted t"
  shows "\<exists>t' cl. PruneBlock hash number t = Inr (Some (t', cl)) \<and> wf_bt t'
    \<and> (\<forall>n h. n < number \<longrightarrow> lookup t' n h = None)
    \<and> (\<forall>h. lookup t' number h = (if h = hash then lookup t number hash else None))
    \<and> top_rel number t t'
    \<and> bt_root t' = (case lookup t number hash of None \<Rightarrow> bt_root t | Some a \<Rightarrow> Some a)"
proof -
  obtain r where r: "bt_root t = Some r" "r < length (bt_heap t)"
    "\<And>n h a. lookup t n h = Some a \<Longrightarrow> blk_Number (blk t r) \<le> n" using rt by (auto simp: rooted_def)
  let ?u = "t\<lparr>bt_blocks := del_range (blk_Number (blk t r)) number (bt_blocks t)\<rparr>"
  have u: "prune_inv {p. p < length (bt_heap ?u) \<and> blk_Number (blk ?u p) < number} ?u"
    "lookup ?u n h = (if n < number then None else lookup t n h)" for n h
    by (rule del_range_pre [OF wf r(1)], erule r(3))+
  have wu: "wf_index ?u" using u(1) by (simp add: prune_inv_def)
  have ru: "top_rel number t ?u" using u(2) by (intro top_relI) (auto split: if_splits)
  define R where "R = (case gget (bt_blocks ?u) number of None \<Rightarrow> [] | Some m \<Rightarrow> m)"
  have gR: "gget R k = lookup t number k" for k
    using u(2) [of number k] by (auto simp: R_def lookup_def split: option.splits)
  have wR: "gwf R" using wu by (auto simp: R_def wf_index_def split: option.splits)
  have keys: "lookup t number k = None" if "k \<notin> gkeys R" for k using that gR [of k] gget_None_iff [of R k] by simp
  have pre: "top_pre hash number R ?u"
  proof (rule top_preI [OF u(1) wR])
    show "number \<le> n" if "lookup ?u n h = Some a" for n h a using that u(2) [of n h] by (simp split: if_splits)
    show "lookup ?u number h = Some e" if "(h, e) \<in> set R" for h e
      using gget_if_in_set [OF wR that] gR [of h] u(2) [of number h] by simp
    show "(h, c) \<in> set R" if "lookup ?u number h = Some c" for h c
      using that u(2) [of number h] gR [of h] gget_in_set [of R h c] by simp
  qed
  obtain t' cl where t': "opt_fold (prune_ext (Suc (length (bt_heap t))) hash number) R (?u, []) = Some (t', cl)"
    "top_pre hash number [] t'" "top_rel number ?u t'"
    "bt_root t' = (case gget R hash of None \<Rightarrow> bt_root ?u | Some e \<Rightarrow> Some e)"
    "\<And>k. lookup t' number k = (if k = hash then lookup ?u number hash else
        if k \<in> gkeys R then None else lookup ?u number k)"
    using top_loop [OF pre, of "Suc (length (bt_heap t))" "[]"] by auto
  have eq: "PruneBlock hash number t = Inr (Some (t', cl))"
    using t'(1) by (auto simp: PruneBlock_def r(1) Let_def R_def split: option.splits)
  have inv: "prune_inv {p. p < length (bt_heap t') \<and> blk_Number (blk t' p) < number} t'"
    and low: "\<And>n h a. lookup t' n h = Some a \<Longrightarrow> number \<le> n"
    and none: "\<And>h c. lookup t' number h = Some c \<Longrightarrow> be_Parent (bt_heap t' ! c) = None"
    using t'(2) by (auto simp: top_pre_def)
  have "wf_links t' {}"
    unfolding wf_links_def
  proof (intro allI impI)
    fix c p assume c: "member t' c" "be_Parent (bt_heap t' ! c) = Some p"
    have cv: "c < length (bt_heap t')" using inv c(1) by (simp add: prune_inv_def member_valid)
    have "\<not> blk_Number (blk t' p) < number"
    proof
      assume "blk_Number (blk t' p) < number"
      then have "blk_Number (blk t' c) \<le> number"
        using wf_parents_neq(3) [of t' c p] inv cv c(2) by (simp add: prune_inv_def inc_le)
      then have "blk_Number (blk t' c) = number" using low c(1) unfolding member_def by (metis order_antisym)
      then show False using none c unfolding member_def by auto
    qed
    then show "p \<in> {} \<or> member t' p \<and> has_child t' p c" using inv c by (auto simp: prune_inv_def wf_links_def)
  qed
  moreover have "\<exists>r. bt_root t' = Some r \<and> r < length (bt_heap t')"
    using t'(4) r(1,2) gR [of hash] wf_index_lookup(1) [OF wf_bt_parts(1) [OF wf]] top_relD(1) [OF t'(3)]
    by (auto split: option.splits)
  ultimately have "wf_bt t'" using inv by (simp add: wf_bt_def prune_inv_def)
  moreover have "\<forall>n h. n < number \<longrightarrow> lookup t' n h = None"
    using low by (metis leD not_Some_eq)
  ultimately show ?thesis
    using eq t'(4,5) u(2) gR keys top_rel_trans [OF ru t'(3)] r(1) by (auto split: option.split)
qed

section \<open>Properties\<close>

lemma NewBlockTree_wf:
  assumes "blk_Number root \<noteq> MaxUint64" "NewBlockTree root qc = Inr t"
  shows "wf_bt t \<and> rooted t"
proof -
  obtain view where t: "t = \<lparr>bt_heap = [new_ext root qc view], bt_root = Some 0,
      bt_blocks = [(blk_Number root, [(blk_Hash root, 0)])]\<rparr>"
    using assms(2) by (auto simp: NewBlockTree_def go_map_eq_Inr)
  have look: "lookup t n h = (if n = blk_Number root \<and> h = blk_Hash root then Some 0 else None)" for n h
    by (simp add: t lookup_def gget_def)
  have nth: "bt_heap t ! 0 = new_ext root qc view" "length (bt_heap t) = 1" by (simp_all add: t)
  have zero: "a = 0" if "member t a" for a using that look by (auto simp: member_def split: if_splits)
  have "wf_index t" using assms(1) unfolding wf_index_def look by (auto simp: t gget_def gwf_def new_ext_def split: if_splits)
  moreover have "wf_parents t" "wf_children t" by (auto simp: wf_parents_def wf_children_def nth new_ext_def gwf_def)
  moreover have "wf_links t {}" "wf_kids t" by (auto simp: wf_links_def wf_kids_def nth new_ext_def dest!: zero)
  moreover have "bt_root t = Some 0" "blk_Number (blk t 0) = blk_Number root" by (simp_all add: t new_ext_def)
  ultimately show ?thesis using look nth(2) by (auto simp: wf_bt_def rooted_def split: if_splits)
qed

lemma FindBlockAndQC_lookup:
  "FindBlockAndQC t h n = (case lookup t n h of None \<Rightarrow> (None, None)
     | Some a \<Rightarrow> (Some (blk t a), be_QC (bt_heap t ! a)))"
  by (simp add: FindBlockAndQC_def findBlockExt_lookup)

lemma ext_view_ok: "blk_Number b = 0 \<or> qc \<noteq> None \<Longrightarrow> \<exists>view. ext_view b qc = Inr view"
  by (auto simp: ext_view_def)


abbreviation genesis :: block where
  "genesis \<equiv> \<lparr>blk_Hash = 100, blk_Number = 0, blk_ParentHash = 0, blk_Time = 0, blk_Rlp = []\<rparr>"

abbreviation block1 :: block where
  "block1 \<equiv> \<lparr>blk_Hash = 101, blk_Number = 1, blk_ParentHash = 100, blk_Time = 1, blk_Rlp = []\<rparr>"

abbreviation genesis_tree :: blockTree where
  "genesis_tree \<equiv> \<lparr>bt_heap = [new_ext genesis None MaxUint64], bt_root = Some 0, bt_blocks = [(0, [(100, 0)])]\<rparr>"

lemma genesis_tree_wf: "wf_bt genesis_tree" "rooted genesis_tree"
  using NewBlockTree_wf [of genesis None genesis_tree] by (simp_all add: NewBlockTree_def ext_view_def)


text \<open>C14: \<open>PruneBlock\<close> on a well-formed tree whose root is its lowest block terminates (the
  recursion over children needs at most one level per node), does not panic and keeps the tree
  well-formed.  Afterwards no block lies below the committed height, at that height only the
  committed block is left, which becomes the root if it was in the tree, every block that is left was
  there before with the same certificate, and above that height a block is removed only together
  with the block it was linked to as its parent.\<close>
theorem PruneBlock_correct:
  assumes "wf_bt t" "rooted t"
  shows "\<exists>t' cleared. PruneBlock hash number t = Inr (Some (t', cleared)) \<and> wf_bt t'
    \<and> (\<forall>n h. n < number \<longrightarrow> FindBlockAndQC t' h n = (None, None))
    \<and> (\<forall>h. FindBlockAndQC t' h number = (if h = hash then FindBlockAndQC t hash number else (None, None)))
    \<and> (\<forall>n h. FindBlockAndQC t' h n = FindBlockAndQC t h n \<or> FindBlockAndQC t' h n = (None, None))
    \<and> bt_root t' = (case findBlockExt t hash number of None \<Rightarrow> bt_root t | Some a \<Rightarrow> Some a)
    \<and> (\<forall>n h a p. number < n \<and> findBlockExt t h n = Some a \<and> be_Parent (bt_heap t ! a) = Some p
         \<and> findBlockExt t' (blk_Hash (blk t p)) (blk_Number (blk t p)) = Some p \<longrightarrow> findBlockExt t' h n = Some a)"
proof -
  obtain t' cl where t': "PruneBlock hash number t = Inr (Some (t', cl))" "wf_bt t'"
    "\<And>n h. n < number \<Longrightarrow> lookup t' n h = None"
    "\<And>h. lookup t' number h = (if h = hash then lookup t number hash else None)"
    "top_rel number t t'" "bt_root t' = (case lookup t number hash of None \<Rightarrow> bt_root t | Some a \<Rightarrow> Some a)"
    using PruneBlock_ok [OF assms, of hash number] by blast
  note R = top_relD [OF t'(5)]
  have keep: "lookup t' n h = Some a" if a: "number < n" "lookup t n h = Some a" "be_Parent (bt_heap t ! a) = Some p"
      "lookup t' (blk_Number (blk t p)) (blk_Hash (blk t p)) = Some p" for n h a p
  proof -
    note ai = wf_index_lookup [OF wf_bt_parts(1) [OF assms(1)] a(2)]
    have "member t' p" using a(4) unfolding member_def R(2) .
    then have "member t' a" using R(6) [of a] ai a(1,3) by auto
    then show ?thesis using ai unfolding member_def R(2) by simp
  qed
  have find: "FindBlockAndQC t' h n = (case lookup t' n h of None \<Rightarrow> (None, None)
      | Some a \<Rightarrow> (Some (blk t a), be_QC (bt_heap t ! a)))" for h n
    by (simp add: FindBlockAndQC_lookup R(2,3) split: option.split)
  have sub: "FindBlockAndQC t' h n = FindBlockAndQC t h n \<or> FindBlockAndQC t' h n = (None, None)" for n h
    unfolding find using R(4) [of n h] by (cases "lookup t' n h") (simp_all add: FindBlockAndQC_lookup)
  have "FindBlockAndQC t' h n = (None, None)" if "n < number" for n h using t'(3) [OF that] by (simp add: find)
  moreover have "FindBlockAndQC t' h number = (if h = hash then FindBlockAndQC t hash number else (None, None))" for h
    unfolding find t'(4) by (simp add: FindBlockAndQC_lookup)
  ultimately show ?thesis
    using t'(1,2,6) sub keep unfolding findBlockExt_lookup by blast
qed

theorem PruneBlock_correct_witness:
  "\<exists>t' cleared. PruneBlock 100 0 genesis_tree = Inr (Some (t', cleared)) \<and> wf_bt t'
    \<and> (\<forall>n h. n < 0 \<longrightarrow> FindBlockAndQC t' h n = (None, None))
    \<and> (\<forall>h. FindBlockAndQC t' h 0 = (if h = 100 then FindBlockAndQC genesis_tree 100 0 else (None, None)))
    \<and> (\<forall>n h. FindBlockAndQC t' h n = FindBlockAndQC genesis_tree h n \<or> FindBlockAndQC t' h n = (None, None))
    \<and> bt_root t' = (case findBlockExt genesis_tree 100 0 of None \<Rightarrow> bt_root genesis_tree | Some a \<Rightarrow> Some a)
    \<and> (\<forall>n h a p. 0 < n \<and> findBlockExt genesis_tree h n = Some a \<and> be_Parent (bt_heap genesis_tree ! a) = Some p
         \<and> findBlockExt t' (blk_Hash (blk genesis_tree p)) (blk_Number (blk genesis_tree p)) = Some p
         \<longrightarrow> findBlockExt t' h n = Some a)"
  by (rule PruneBlock_correct [OF genesis_tree_wf])

end
