(* ===== verification/ViewState.thy ===== *)
theory ViewState
  imports Block_Tree
begin

text \<open>
  The view state of a validator (\<open>consensus/pbft/state/state.go\<close>) and the view timer
  (\<open>state/timer.go\<close>).  \<open>ViewState\<close> embeds \<open>*view\<close>, so the record \<open>viewState\<close> extends the record
  \<open>view\<close>.  The four caches that are keyed by block number (\<open>viewBlocks\<close>, \<open>viewQCs\<close>, \<open>viewVotes\<close>,
  \<open>viewPreCommits\<close>) share the contract \<open>number_cache\<close>, which each of them is shown to satisfy.  The
  wall clock is an argument (seconds for \<open>time.Now().Unix()\<close>, nanoseconds for the timer).  An
  \<open>atomic.Value\<close> that was never stored is \<open>None\<close>; loading it panics.  The mutexes guard single calls
  and are not modelled.
\<close>

section \<open>Constants and queues\<close>

abbreviation (input) DefaultEpoch :: u64 where "DefaultEpoch \<equiv> 1"
abbreviation (input) DefaultViewNumber :: u64 where "DefaultViewNumber \<equiv> 0"
definition ViewCacheLen :: nat where "ViewCacheLen = 10"

type_synonym prepareVoteQueue = "prepareVote list"

definition Top :: "prepareVoteQueue \<Rightarrow> prepareVote go" where
  "Top p = go_index p 0"

definition Pop :: "prepareVoteQueue \<Rightarrow> (prepareVote \<times> prepareVoteQueue) go" where
  "Pop p = go_map (\<lambda>v. (v, tl p)) (go_index p 0)"

definition Push :: "prepareVote \<Rightarrow> prepareVoteQueue \<Rightarrow> prepareVoteQueue" where
  "Push vote p = p @ [vote]"

definition Had :: "prepareVoteQueue \<Rightarrow> u32 \<Rightarrow> bool" where
  "Had p index = list_ex (\<lambda>v. pv_BlockIndex v = index) p"

section \<open>Blocks of the current view\<close>

datatype viewBlock = PrepareViewBlock prepareBlock | QcBlock block "quorumCert option"

fun vb_block :: "viewBlock \<Rightarrow> block" where
  "vb_block (PrepareViewBlock pb) = pb_Block pb"
| "vb_block (QcBlock b qc) = b"

definition vb_hash :: "viewBlock \<Rightarrow> hash" where
  "vb_hash v = blk_Hash (vb_block v)"

definition vb_number :: "viewBlock \<Rightarrow> u64" where
  "vb_number v = blk_Number (vb_block v)"

fun vb_blockIndex :: "viewBlock \<Rightarrow> u32" where
  "vb_blockIndex (PrepareViewBlock pb) = pb_BlockIndex pb"
| "vb_blockIndex (QcBlock b None) = 0"
| "vb_blockIndex (QcBlock b (Some qc)) = q_BlockIndex qc"

fun vb_prepareBlock :: "viewBlock \<Rightarrow> prepareBlock option" where
  "vb_prepareBlock (PrepareViewBlock pb) = Some pb"
| "vb_prepareBlock (QcBlock b qc) = None"

record viewBlocks =
  vb_Blocks :: "(u64, viewBlock) gomap"
  vb_IsProduced :: bool

definition newViewBlocks :: viewBlocks where
  "newViewBlocks = \<lparr>vb_Blocks = [], vb_IsProduced = False\<rparr>"

definition vb_index :: "viewBlocks \<Rightarrow> u64 \<Rightarrow> viewBlock option" where
  "vb_index v i = gget (vb_Blocks v) i"

text \<open>\<open>MaxNumber\<close> and \<open>MinNumber\<close> start from zero and take the larger, the smaller number.\<close>

definition vb_MaxNumber :: "viewBlocks \<Rightarrow> u64" where
  "vb_MaxNumber v = fold (\<lambda>b m. if vb_number b > m then vb_number b else m) (gvals (vb_Blocks v)) 0"

definition vb_MinNumber :: "viewBlocks \<Rightarrow> u64" where
  "vb_MinNumber v = fold (\<lambda>b m. if vb_number b < m then vb_number b else m) (gvals (vb_Blocks v)) 0"

definition addBlock :: "viewBlock \<Rightarrow> viewBlocks \<Rightarrow> viewBlocks" where
  "addBlock b v =
     (if (case gget (vb_Blocks v) (vb_number b) of None \<Rightarrow> False | Some b' \<Rightarrow> vb_hash b' = vb_hash b) then v
      else let bs = (if length (vb_Blocks v) \<ge> ViewCacheLen then gdel (vb_MinNumber v) (vb_Blocks v) else vb_Blocks v)
        in v\<lparr>vb_Blocks := gset (vb_number b) b bs, vb_IsProduced := True\<rparr>)"

definition vb_clear :: "u64 \<Rightarrow> viewBlocks \<Rightarrow> viewBlocks" where
  "vb_clear blockNumber v = v\<lparr>vb_IsProduced := False\<rparr>"

section \<open>Quorum certificates of the current view\<close>

record viewQCs =
  vqs_MaxNumber :: u64
  vqs_MinNumber :: u64
  vqs_QCs :: "(u64, quorumCert) gomap"
  vqs_IsProduced :: bool

definition newViewQCs :: viewQCs where
  "newViewQCs = \<lparr>vqs_MaxNumber = 0, vqs_MinNumber = 0, vqs_QCs = [], vqs_IsProduced = False\<rparr>"

definition vqs_index :: "viewQCs \<Rightarrow> u64 \<Rightarrow> quorumCert option" where
  "vqs_index v i = gget (vqs_QCs v) i"

definition addQC :: "quorumCert \<Rightarrow> viewQCs \<Rightarrow> viewQCs" where
  "addQC qc v =
     (if (case gget (vqs_QCs v) (q_BlockNumber qc) of None \<Rightarrow> False | Some q \<Rightarrow> q_BlockHash q = q_BlockHash qc) then v
      else let qs = (if length (vqs_QCs v) \<ge> ViewCacheLen then gdel (vqs_MinNumber v) (vqs_QCs v) else vqs_QCs v)
        in v\<lparr>vqs_QCs := gset (q_BlockNumber qc) qc qs, vqs_IsProduced := True,
             vqs_MaxNumber := (if vqs_MaxNumber v < q_BlockNumber qc then q_BlockNumber qc else vqs_MaxNumber v),
             vqs_MinNumber := (if vqs_MinNumber v > q_BlockNumber qc then q_BlockNumber qc else vqs_MinNumber v)\<rparr>)"

definition vqs_clear :: "u64 \<Rightarrow> viewQCs \<Rightarrow> viewQCs" where
  "vqs_clear blockNumber v = v\<lparr>vqs_QCs := gdel blockNumber (vqs_QCs v), vqs_IsProduced := False\<rparr>"

section \<open>Votes and pre-commits of the current view\<close>

text \<open>The structs \<open>prepareVotes\<close> and \<open>preCommits\<close> of this package hold a map from validator index to
  message; \<open>viewVotes\<close> and \<open>viewPreCommits\<close> hold one of them per block number.\<close>

type_synonym prepareVotesMap = "(u32, prepareVote) gomap"
type_synonym preCommitsMap = "(u32, preCommit) gomap"
type_synonym viewVotes = "(u64, prepareVotesMap) gomap"
type_synonym viewPreCommits = "(u64, preCommitsMap) gomap"

definition key_max :: "(u64, 'a) gomap \<Rightarrow> u64" where
  "key_max m = fold (\<lambda>p a. if fst p > a then fst p else a) m 0"

definition key_min :: "(u64, 'a) gomap \<Rightarrow> u64" where
  "key_min m = fold (\<lambda>p a. if fst p < a then fst p else a) m 0"

definition addPrepareVote :: "u32 \<Rightarrow> prepareVote \<Rightarrow> prepareVotesMap \<Rightarrow> prepareVotesMap" where
  "addPrepareVote i vote p = gset i vote p"

definition addPreCommit :: "u32 \<Rightarrow> preCommit \<Rightarrow> preCommitsMap \<Rightarrow> preCommitsMap" where
  "addPreCommit i vote p = gset i vote p"

definition vv_MaxNumber :: "viewVotes \<Rightarrow> u64" where "vv_MaxNumber v = key_max v"
definition vv_MinNumber :: "viewVotes \<Rightarrow> u64" where "vv_MinNumber v = key_min v"
definition vp_MaxNumber :: "viewPreCommits \<Rightarrow> u64" where "vp_MaxNumber v = key_max v"
definition vp_MinNumber :: "viewPreCommits \<Rightarrow> u64" where "vp_MinNumber v = key_min v"

definition addVote :: "u32 \<Rightarrow> prepareVote \<Rightarrow> viewVotes \<Rightarrow> viewVotes" where
  "addVote i vote v =
     (let v = (if length v \<ge> ViewCacheLen then gdel (vv_MinNumber v) v else v)
      in case gget v (pv_BlockNumber vote) of
           Some ps \<Rightarrow> gset (pv_BlockNumber vote) (addPrepareVote i vote ps) v
         | None \<Rightarrow> gset (pv_BlockNumber vote) (addPrepareVote i vote []) v)"

definition vp_addPreCommit :: "u32 \<Rightarrow> preCommit \<Rightarrow> viewPreCommits \<Rightarrow> viewPreCommits" where
  "vp_addPreCommit i vote v =
     (let v = (if length v \<ge> ViewCacheLen then gdel (vp_MinNumber v) v else v)
      in case gget v (pc_BlockNumber vote) of
           Some ps \<Rightarrow> gset (pc_BlockNumber vote) (addPreCommit i vote ps) v
         | None \<Rightarrow> gset (pc_BlockNumber vote) (addPreCommit i vote []) v)"

definition vv_clear :: "u64 \<Rightarrow> viewVotes \<Rightarrow> viewVotes" where "vv_clear blockNumber v = gdel blockNumber v"
definition vp_clear :: "u64 \<Rightarrow> viewPreCommits \<Rightarrow> viewPreCommits" where "vp_clear blockNumber v = gdel blockNumber v"

section \<open>The view timer\<close>

record viewTimer =
  vt_deadline :: int
  vt_baseMs :: u64
  vt_preViewInterval :: u64

definition maxExponent :: u64 where "maxExponent = 2"

definition newViewTimer :: "u64 \<Rightarrow> viewTimer" where
  "newViewTimer period = \<lparr>vt_deadline = 0, vt_baseMs = period * 1000000, vt_preViewInterval = 1\<rparr>"

definition calViewInterval :: "u64 \<Rightarrow> viewTimer \<Rightarrow> u64 \<times> viewTimer" where
  "calViewInterval viewInterval t =
     (let v = (if vt_preViewInterval t > 1 \<and> viewInterval = 1 \<or> vt_preViewInterval t > viewInterval
               then vt_preViewInterval t - 1
               else if vt_preViewInterval t \<noteq> 1 \<and> vt_preViewInterval t = viewInterval then viewInterval + 1
               else viewInterval)
      in (v, t\<lparr>vt_preViewInterval := v\<rparr>))"

text \<open>\<open>float64\<close> arithmetic: a nonnegative integer is rounded to 53 significant bits, ties to even.  The
  powers \<open>1.5^0\<close>, \<open>1.5^1\<close>, \<open>1.5^2\<close> are 4, 6 and 9 quarters; dividing by four is exact, so the product
  of two floats is the rounded integer product divided by four.  The conversion back to \<open>uint64\<close>
  truncates; its result is not specified by Go when the value does not fit, which is \<open>None\<close> here.\<close>

function excess_bits :: "int \<Rightarrow> nat" where
  "excess_bits n = (if n < 2 ^ 53 then 0 else Suc (excess_bits (n div 2)))"
  by pat_completeness auto
termination by (relation "measure nat") auto

declare excess_bits.simps [simp del]

definition round53 :: "int \<Rightarrow> int" where
  "round53 n = (let s = excess_bits n; q = n div 2 ^ s; r = n mod 2 ^ s in
     (if 2 * r > 2 ^ s \<or> 2 * r = 2 ^ s \<and> odd q then q + 1 else q) * 2 ^ s)"

definition pow_quarters :: "u64 \<Rightarrow> int" where
  "pow_quarters k = (if k = 0 then 4 else if k = 1 then 6 else 9)"

definition getViewTimeInterval :: "u64 \<Rightarrow> u64 \<Rightarrow> int option" where
  "getViewTimeInterval baseMs viewInterval =
     (let pow = viewInterval - 1; pow = (if pow > maxExponent then maxExponent else pow);
          x = round53 (round53 (uint baseMs) * pow_quarters pow) div 4
      in if x < 2 ^ 64 then Some (sint (word_of_int x :: u64)) else None)"

definition setupTimer :: "int \<Rightarrow> u64 \<Rightarrow> viewTimer \<Rightarrow> viewTimer option" where
  "setupTimer now viewInterval t =
     (let (v, t) = calViewInterval viewInterval t
      in map_option (\<lambda>duration. t\<lparr>vt_deadline := now + duration\<rparr>) (getViewTimeInterval (vt_baseMs t) v))"

definition isDeadline :: "int \<Rightarrow> viewTimer \<Rightarrow> bool" where
  "isDeadline now t = (vt_deadline t < now)"

section \<open>The view\<close>

record view =
  v_epoch :: u64
  v_viewNumber :: u64
  v_blockNumber :: u64
  v_lastAddBlockNumberTime :: int
  v_maxExecutedBlockNumber :: u64
  v_Step :: roundStepType
  v_executingBlockIndex :: u32
  v_executingFinish :: bool
  v_viewChanges :: "(u32, viewChange) gomap"
  v_lastViewChangeQC :: "viewChangeQC option"
  v_hadSendPrepareVote :: prepareVoteQueue
  v_pendingVote :: prepareVoteQueue
  v_hadSendVoteNumber :: u64
  v_hadSendVoteLast :: "prepareVote option"
  v_hadSendPreCommitNumber :: u64
  v_hadSendPreCommitLast :: "preCommit option"
  v_viewBlocks :: viewBlocks
  v_viewQCs :: viewQCs
  v_viewPreCommitQCs :: viewQCs
  v_viewPreCommitQC :: "quorumCert option"
  v_viewPrepareVoteQC :: "quorumCert option"
  v_viewVotes :: viewVotes
  v_viewPreCommits :: viewPreCommits

record viewState = view +
  vs_highestQCBlock :: "block option"
  vs_highestLockBlock :: "block option"
  vs_highestCommitBlock :: "block option"
  vs_highestPreCommitQCBlock :: "block option"
  vs_viewTimer :: viewTimer

definition newView :: "int \<Rightarrow> view" where
  "newView now = \<lparr>v_epoch = 0, v_viewNumber = 0, v_blockNumber = 1, v_lastAddBlockNumberTime = now,
     v_maxExecutedBlockNumber = 0, v_Step = 0, v_executingBlockIndex = MaxUint32, v_executingFinish = False,
     v_viewChanges = [], v_lastViewChangeQC = None, v_hadSendPrepareVote = [], v_pendingVote = [],
     v_hadSendVoteNumber = 0, v_hadSendVoteLast = None, v_hadSendPreCommitNumber = 0, v_hadSendPreCommitLast = None,
     v_viewBlocks = newViewBlocks, v_viewQCs = newViewQCs, v_viewPreCommitQCs = newViewQCs,
     v_viewPreCommitQC = None, v_viewPrepareVoteQC = None, v_viewVotes = [], v_viewPreCommits = []\<rparr>"

definition NewViewState :: "int \<Rightarrow> u64 \<Rightarrow> viewState" where
  "NewViewState now period = view.extend (newView now)
     \<lparr>vs_highestQCBlock = None, vs_highestLockBlock = None, vs_highestCommitBlock = None,
      vs_highestPreCommitQCBlock = None, vs_viewTimer = newViewTimer period\<rparr>"

definition Reset_view :: "u64 \<Rightarrow> 'a view_scheme \<Rightarrow> 'a view_scheme" where
  "Reset_view blockNumber v = v\<lparr>v_epoch := 0, v_viewNumber := 0, v_blockNumber := 1, v_maxExecutedBlockNumber := 0,
     v_executingBlockIndex := MaxUint32, v_executingFinish := False, v_viewChanges := [],
     v_hadSendPrepareVote := [], v_viewPrepareVoteQC := None, v_viewPreCommitQC := None, v_pendingVote := [],
     v_viewBlocks := vb_clear blockNumber (v_viewBlocks v),
     v_viewQCs := vqs_clear blockNumber (v_viewQCs v),
     v_viewPreCommitQCs := vqs_clear blockNumber (v_viewPreCommitQCs v),
     v_viewVotes := vv_clear blockNumber (v_viewVotes v),
     v_viewPreCommits := vp_clear blockNumber (v_viewPreCommits v)\<rparr>"

definition AddBlockNumber :: "int \<Rightarrow> quorumCert \<Rightarrow> 'a view_scheme \<Rightarrow> 'a view_scheme" where
  "AddBlockNumber now qc v = v\<lparr>v_blockNumber := q_BlockNumber qc + 1, v_lastAddBlockNumberTime := now\<rparr>"

definition SetBlockNumber :: "int \<Rightarrow> u64 \<Rightarrow> 'a view_scheme \<Rightarrow> 'a view_scheme" where
  "SetBlockNumber now blockNumber v = v\<lparr>v_blockNumber := blockNumber, v_lastAddBlockNumberTime := now\<rparr>"

definition AddHadSendVoteNumber :: "u64 \<Rightarrow> prepareVote \<Rightarrow> 'a view_scheme \<Rightarrow> 'a view_scheme" where
  "AddHadSendVoteNumber number vote v = v\<lparr>v_hadSendVoteLast := Some vote, v_hadSendVoteNumber := number\<rparr>"

definition AddHadSendPreCommitNumber :: "u64 \<Rightarrow> preCommit \<Rightarrow> 'a view_scheme \<Rightarrow> 'a view_scheme" where
  "AddHadSendPreCommitNumber number vote v =
     v\<lparr>v_hadSendPreCommitLast := Some vote, v_hadSendPreCommitNumber := number\<rparr>"

definition SetMaxExecutedBlockNumber :: "u64 \<Rightarrow> 'a view_scheme \<Rightarrow> 'a view_scheme" where
  "SetMaxExecutedBlockNumber blockNumber v =
     (if blockNumber > v_maxExecutedBlockNumber v then v\<lparr>v_maxExecutedBlockNumber := blockNumber\<rparr> else v)"

section \<open>Operations of \<open>ViewState\<close>\<close>

definition UpdateStep :: "roundStepType \<Rightarrow> 'a view_scheme \<Rightarrow> 'a view_scheme" where
  "UpdateStep step vs = vs\<lparr>v_Step := step\<rparr>"

definition ResetView :: "u64 \<Rightarrow> u64 \<Rightarrow> u64 \<Rightarrow> 'a view_scheme \<Rightarrow> 'a view_scheme" where
  "ResetView epoch viewNumber blockNumber vs =
     (Reset_view blockNumber vs)\<lparr>v_epoch := epoch, v_viewNumber := viewNumber, v_blockNumber := blockNumber, v_Step := 0\<rparr>"

definition NextViewBlockNumber :: "'a view_scheme \<Rightarrow> u64" where
  "NextViewBlockNumber vs = vb_MaxNumber (v_viewBlocks vs) + 1"

definition NextViewBlockIndex :: "'a view_scheme \<Rightarrow> u32" where
  "NextViewBlockIndex vs = (if vb_IsProduced (v_viewBlocks vs) then 1 else 0)"

definition MaxViewBlockNumber :: "'a view_scheme \<Rightarrow> u64" where
  "MaxViewBlockNumber vs = vb_MaxNumber (v_viewBlocks vs)"

definition MaxViewVotesNumber :: "'a view_scheme \<Rightarrow> u64" where
  "MaxViewVotesNumber vs = vv_MaxNumber (v_viewVotes vs)"

definition MaxViewPreCommitsNumber :: "'a view_scheme \<Rightarrow> u64" where
  "MaxViewPreCommitsNumber vs = vp_MaxNumber (v_viewPreCommits vs)"

definition MaxQCNumber :: "'a view_scheme \<Rightarrow> u64" where
  "MaxQCNumber vs = vqs_MaxNumber (v_viewQCs vs)"

definition MaxPreCommitQCNumber :: "'a view_scheme \<Rightarrow> u64" where
  "MaxPreCommitQCNumber vs = vqs_MaxNumber (v_viewPreCommitQCs vs)"

definition MaxQCIndex :: "'a view_scheme \<Rightarrow> u32" where
  "MaxQCIndex vs = (if vqs_IsProduced (v_viewPreCommitQCs vs) then 0 else MaxUint32)"

definition SetPreCommitQC :: "quorumCert \<Rightarrow> 'a view_scheme \<Rightarrow> 'a view_scheme" where
  "SetPreCommitQC qc vs = vs\<lparr>v_viewPreCommitQC := Some qc\<rparr>"

definition SetPrepareVoteQC :: "quorumCert \<Rightarrow> 'a view_scheme \<Rightarrow> 'a view_scheme" where
  "SetPrepareVoteQC qc vs = vs\<lparr>v_viewPrepareVoteQC := Some qc\<rparr>"

definition had_qc :: "quorumCert option \<Rightarrow> hash \<Rightarrow> u64 \<Rightarrow> bool" where
  "had_qc q hash number = (case q of None \<Rightarrow> False | Some qc \<Rightarrow> q_BlockHash qc = hash \<and> q_BlockNumber qc = number)"

definition HadPrepareVoteQC :: "hash \<Rightarrow> u64 \<Rightarrow> u64 \<Rightarrow> 'a view_scheme \<Rightarrow> bool" where
  "HadPrepareVoteQC hash number viewNumber vs = had_qc (vqs_index (v_viewQCs vs) number) hash number"

definition HadPreCommitQC :: "hash \<Rightarrow> u64 \<Rightarrow> u64 \<Rightarrow> 'a view_scheme \<Rightarrow> bool" where
  "HadPreCommitQC hash number viewNumber vs = had_qc (vqs_index (v_viewPreCommitQCs vs) number) hash number"

definition PrepareVoteLenByNumber :: "u64 \<Rightarrow> 'a view_scheme \<Rightarrow> nat" where
  "PrepareVoteLenByNumber blockNumber vs =
     (case gget (v_viewVotes vs) blockNumber of None \<Rightarrow> 0 | Some ps \<Rightarrow> length ps)"

definition PreCommitLenByNumber :: "u64 \<Rightarrow> 'a view_scheme \<Rightarrow> nat" where
  "PreCommitLenByNumber blockNumber vs =
     (case gget (v_viewPreCommits vs) blockNumber of None \<Rightarrow> 0 | Some ps \<Rightarrow> length ps)"

definition ViewBlockByIndex :: "u64 \<Rightarrow> 'a view_scheme \<Rightarrow> block option" where
  "ViewBlockByIndex number vs = map_option vb_block (vb_index (v_viewBlocks vs) number)"

definition PrepareBlockByIndex :: "u64 \<Rightarrow> 'a view_scheme \<Rightarrow> prepareBlock option" where
  "PrepareBlockByIndex number vs =
     (case vb_index (v_viewBlocks vs) number of None \<Rightarrow> None | Some b \<Rightarrow> vb_prepareBlock b)"

text \<open>A nil map is returned when there is no entry; reading it is reading an empty map.\<close>

definition AllPrepareVoteByNumber :: "u64 \<Rightarrow> 'a view_scheme \<Rightarrow> prepareVotesMap" where
  "AllPrepareVoteByNumber blockNumber vs =
     (case gget (v_viewVotes vs) blockNumber of None \<Rightarrow> [] | Some ps \<Rightarrow> ps)"

definition AllPreCommitByNumber :: "u64 \<Rightarrow> 'a view_scheme \<Rightarrow> preCommitsMap" where
  "AllPreCommitByNumber blockNumber vs =
     (case gget (v_viewPreCommits vs) blockNumber of None \<Rightarrow> [] | Some ps \<Rightarrow> ps)"

definition HadSendPreVoteByQC :: "quorumCert \<Rightarrow> 'a view_scheme \<Rightarrow> bool" where
  "HadSendPreVoteByQC qc vs =
     (if v_hadSendVoteNumber vs < q_BlockNumber qc then False
      else if v_hadSendVoteNumber vs > q_BlockNumber qc then True
      else case v_hadSendVoteLast vs of None \<Rightarrow> False
        | Some hadSend \<Rightarrow> pv_Epoch hadSend > q_Epoch qc
            \<or> pv_Epoch hadSend = q_Epoch qc \<and> pv_ViewNumber hadSend \<ge> q_ViewNumber qc)"

definition HadSendPreVote :: "prepareVote \<Rightarrow> 'a view_scheme \<Rightarrow> bool" where
  "HadSendPreVote vote vs =
     (if v_hadSendVoteNumber vs < pv_BlockNumber vote then False
      else if v_hadSendVoteNumber vs > pv_BlockNumber vote then True
      else case v_hadSendVoteLast vs of None \<Rightarrow> False
        | Some hadSend \<Rightarrow> pv_Epoch hadSend > pv_Epoch vote
            \<or> pv_Epoch hadSend = pv_Epoch vote \<and> pv_ViewNumber hadSend \<ge> pv_ViewNumber vote)"

definition HadSendPreCommit :: "preCommit \<Rightarrow> 'a view_scheme \<Rightarrow> bool" where
  "HadSendPreCommit vote vs =
     (if v_hadSendPreCommitNumber vs < pc_BlockNumber vote then False
      else if v_hadSendPreCommitNumber vs > pc_BlockNumber vote then True
      else case v_hadSendPreCommitLast vs of None \<Rightarrow> False
        | Some hadSend \<Rightarrow> pc_Epoch hadSend > pc_Epoch vote
            \<or> pc_Epoch hadSend = pc_Epoch vote \<and> pc_ViewNumber hadSend \<ge> pc_ViewNumber vote)"

definition FindPrepareVote :: "u64 \<Rightarrow> u32 \<Rightarrow> 'a view_scheme \<Rightarrow> prepareVote option" where
  "FindPrepareVote blockNumber validatorIndex vs =
     (case gget (v_viewVotes vs) blockNumber of None \<Rightarrow> None | Some ps \<Rightarrow> gget ps validatorIndex)"

definition FindPreCommit :: "u64 \<Rightarrow> u32 \<Rightarrow> 'a view_scheme \<Rightarrow> preCommit option" where
  "FindPreCommit blockNumber validatorIndex vs =
     (case gget (v_viewPreCommits vs) blockNumber of None \<Rightarrow> None | Some ps \<Rightarrow> gget ps validatorIndex)"

definition SetLastViewChangeQC :: "viewChangeQC option \<Rightarrow> 'a view_scheme \<Rightarrow> 'a view_scheme" where
  "SetLastViewChangeQC qc vs = vs\<lparr>v_lastViewChangeQC := qc\<rparr>"

definition SetExecuting :: "u32 \<Rightarrow> bool \<Rightarrow> 'a view_scheme \<Rightarrow> 'a view_scheme" where
  "SetExecuting index finish vs = vs\<lparr>v_executingBlockIndex := index, v_executingFinish := finish\<rparr>"

definition ViewBlockAndQC :: "u64 \<Rightarrow> 'a view_scheme \<Rightarrow> block option \<times> quorumCert option" where
  "ViewBlockAndQC blockNumber vs = (ViewBlockByIndex blockNumber vs, vqs_index (v_viewQCs vs) blockNumber)"

definition ViewBlockAndPreCommitQC :: "u64 \<Rightarrow> 'a view_scheme \<Rightarrow> block option \<times> quorumCert option" where
  "ViewBlockAndPreCommitQC blockNumber vs =
     (ViewBlockByIndex blockNumber vs, vqs_index (v_viewPreCommitQCs vs) blockNumber)"

definition AddPrepareBlock :: "prepareBlock \<Rightarrow> 'a view_scheme \<Rightarrow> 'a view_scheme" where
  "AddPrepareBlock pb vs = vs\<lparr>v_viewBlocks := addBlock (PrepareViewBlock pb) (v_viewBlocks vs)\<rparr>"

definition AddQCBlock :: "block \<Rightarrow> quorumCert \<Rightarrow> 'a view_scheme \<Rightarrow> 'a view_scheme" where
  "AddQCBlock b qc vs = vs\<lparr>v_viewBlocks := addBlock (QcBlock b (Some qc)) (v_viewBlocks vs)\<rparr>"

definition AddQC :: "quorumCert \<Rightarrow> 'a view_scheme \<Rightarrow> 'a view_scheme" where
  "AddQC qc vs =
     (if q_Step qc = RoundStepPrepareVote then vs\<lparr>v_viewQCs := addQC qc (v_viewQCs vs)\<rparr>
      else vs\<lparr>v_viewQCs := addQC (qc\<lparr>q_Step := RoundStepPrepareVote\<rparr>) (v_viewQCs vs)\<rparr>)"

definition AddPreCommitQC :: "quorumCert \<Rightarrow> 'a view_scheme \<Rightarrow> 'a view_scheme" where
  "AddPreCommitQC qc vs = vs\<lparr>v_viewPreCommitQCs := addQC qc (v_viewPreCommitQCs vs)\<rparr>"

definition AddPrepareVote :: "u32 \<Rightarrow> prepareVote \<Rightarrow> 'a view_scheme \<Rightarrow> 'a view_scheme" where
  "AddPrepareVote i vote vs = vs\<lparr>v_viewVotes := addVote i vote (v_viewVotes vs)\<rparr>"

definition AddPreCommit :: "u32 \<Rightarrow> preCommit \<Rightarrow> 'a view_scheme \<Rightarrow> 'a view_scheme" where
  "AddPreCommit i vote vs = vs\<lparr>v_viewPreCommits := vp_addPreCommit i vote (v_viewPreCommits vs)\<rparr>"

definition AddViewChange :: "u32 \<Rightarrow> viewChange \<Rightarrow> 'a view_scheme \<Rightarrow> 'a view_scheme" where
  "AddViewChange i vc vs = vs\<lparr>v_viewChanges := gset i vc (v_viewChanges vs)\<rparr>"

definition ViewChangeByIndex :: "u32 \<Rightarrow> 'a view_scheme \<Rightarrow> viewChange option" where
  "ViewChangeByIndex index vs = gget (v_viewChanges vs) index"

definition ViewChangeLen :: "'a view_scheme \<Rightarrow> nat" where
  "ViewChangeLen vs = length (v_viewChanges vs)"

definition load_highest :: "string \<Rightarrow> block option \<Rightarrow> block go" where
  "load_highest what b = (case b of None \<Rightarrow> Inl (Explicit what) | Some x \<Rightarrow> Inr x)"

definition HighestQCBlock :: "viewState \<Rightarrow> block go" where
  "HighestQCBlock vs = load_highest ''Get highest qc block failed'' (vs_highestQCBlock vs)"

definition HighestPreCommitQCBlock :: "viewState \<Rightarrow> block go" where
  "HighestPreCommitQCBlock vs = load_highest ''Get highest PreCommit qc block failed'' (vs_highestPreCommitQCBlock vs)"

definition HighestLockBlock :: "viewState \<Rightarrow> block go" where
  "HighestLockBlock vs = load_highest ''Get highest lock block failed'' (vs_highestLockBlock vs)"

definition HighestCommitBlock :: "viewState \<Rightarrow> block go" where
  "HighestCommitBlock vs = load_highest ''Get highest commit block failed'' (vs_highestCommitBlock vs)"

definition SetHighestQCBlock :: "block \<Rightarrow> viewState \<Rightarrow> viewState" where
  "SetHighestQCBlock b vs = vs\<lparr>vs_highestQCBlock := Some b\<rparr>"

definition SetHighestPreCommitQCBlock :: "block \<Rightarrow> viewState \<Rightarrow> viewState" where
  "SetHighestPreCommitQCBlock b vs = vs\<lparr>vs_highestPreCommitQCBlock := Some b\<rparr>"

definition SetHighestLockBlock :: "block \<Rightarrow> viewState \<Rightarrow> viewState" where
  "SetHighestLockBlock b vs = vs\<lparr>vs_highestLockBlock := Some b\<rparr>"

definition SetHighestCommitBlock :: "block \<Rightarrow> viewState \<Rightarrow> viewState" where
  "SetHighestCommitBlock b vs = vs\<lparr>vs_highestCommitBlock := Some b\<rparr>"

definition HighestExecutedBlock :: "viewState \<Rightarrow> block go" where
  "HighestExecutedBlock vs =
     (if v_maxExecutedBlockNumber vs = 0 then HighestQCBlock vs
      else go_deref (map_option vb_block (vb_index (v_viewBlocks vs) (v_maxExecutedBlockNumber vs))))"

definition FindBlock :: "hash \<Rightarrow> u64 \<Rightarrow> 'a view_scheme \<Rightarrow> block option" where
  "FindBlock hash number vs =
     map_option vb_block (first_match (\<lambda>b. vb_hash b = hash \<and> vb_number b = number) (gvals (vb_Blocks (v_viewBlocks vs))))"

definition IsDeadline :: "int \<Rightarrow> viewState \<Rightarrow> bool" where
  "IsDeadline now vs = isDeadline now (vs_viewTimer vs)"

definition SetViewTimer :: "int \<Rightarrow> u64 \<Rightarrow> viewState \<Rightarrow> viewState option" where
  "SetViewTimer now viewInterval vs = map_option (\<lambda>t. vs\<lparr>vs_viewTimer := t\<rparr>) (setupTimer now viewInterval (vs_viewTimer vs))"

section \<open>Caches keyed by block number\<close>

text \<open>The contract the four caches share.  \<open>ok\<close> is the invariant of the cache, \<open>keys\<close> the numbers it
  holds an entry for.  Only the entry of number zero can be dropped by an insertion.\<close>

locale number_cache =
  fixes add :: "'a \<Rightarrow> 'c \<Rightarrow> 'c"
    and index :: "'c \<Rightarrow> u64 \<Rightarrow> 'v option"
    and key :: "'a \<Rightarrow> u64"
    and count :: "'c \<Rightarrow> nat"
    and ok :: "'c \<Rightarrow> bool"
  assumes ok_add: "ok c \<Longrightarrow> ok (add x c)"
    and index_add_same: "ok c \<Longrightarrow> index (add x c) (key x) \<noteq> None"
    and index_add_other: "ok c \<Longrightarrow> n \<noteq> key x \<Longrightarrow> n \<noteq> 0 \<Longrightarrow> index (add x c) n = index c n"
    and count_dom: "ok c \<Longrightarrow> count c = card (dom (index c))"
    and finite_index: "finite (dom (index c))"
begin

lemma ok_fold: "ok c \<Longrightarrow> ok (fold add xs c)"
  by (induction xs arbitrary: c) (auto simp: ok_add)

lemma add_keeps: "ok c \<Longrightarrow> n \<noteq> 0 \<Longrightarrow> index c n \<noteq> None \<Longrightarrow> index (add x c) n \<noteq> None"
  using index_add_same [of c x] index_add_other [of c n x] by (cases "n = key x") auto

lemma fold_keeps: "ok c \<Longrightarrow> n \<noteq> 0 \<Longrightarrow> index c n \<noteq> None \<Longrightarrow> index (fold add xs c) n \<noteq> None"
proof (induction xs arbitrary: c)
  case (Cons x xs)
  then show ?case using Cons.IH [OF ok_add] add_keeps [of c n x] by simp
qed simp

lemma fold_present: "ok c \<Longrightarrow> x \<in> set xs \<Longrightarrow> key x \<noteq> 0 \<Longrightarrow> index (fold add xs c) (key x) \<noteq> None"
proof (induction xs arbitrary: c)
  case (Cons y ys)
  show ?case
  proof (cases "x = y")
    case True
    then show ?thesis
      using fold_keeps [OF ok_add Cons.prems(3), of c y ys] index_add_same [of c y] Cons.prems by simp
  next
    case False
    then show ?thesis using Cons by (simp add: ok_add)
  qed
qed simp

lemma count_fold: "ok c \<Longrightarrow> card (key ` set xs - {0}) \<le> count (fold add xs c)"
  using fold_present [of c _ xs] by (subst count_dom [OF ok_fold]) (auto intro!: card_mono finite_index)

end

lemma fold_min_zero: "fold (\<lambda>x m. if f x < m then f x else m) xs (0 :: u64) = 0"
  by (induction xs) simp_all

lemma MinNumber_zero [simp]: "vb_MinNumber v = 0" "vv_MinNumber vv = 0" "vp_MinNumber vp = 0"
  by (simp_all add: vb_MinNumber_def vv_MinNumber_def vp_MinNumber_def key_min_def fold_min_zero)

definition ok_blocks :: "viewBlocks \<Rightarrow> bool" where
  "ok_blocks v \<longleftrightarrow> gwf (vb_Blocks v) \<and> (\<forall>n b. gget (vb_Blocks v) n = Some b \<longrightarrow> vb_number b = n)"

definition ok_qcs :: "viewQCs \<Rightarrow> bool" where
  "ok_qcs v \<longleftrightarrow> gwf (vqs_QCs v) \<and> vqs_MinNumber v = 0
     \<and> (\<forall>n q. gget (vqs_QCs v) n = Some q \<longrightarrow> q_BlockNumber q = n \<and> n \<le> vqs_MaxNumber v)"

definition ok_votes :: "viewVotes \<Rightarrow> bool" where
  "ok_votes v \<longleftrightarrow> gwf v \<and> (\<forall>n ps. gget v n = Some ps \<longrightarrow>
     gwf ps \<and> ps \<noteq> [] \<and> (\<forall>i p. gget ps i = Some p \<longrightarrow> pv_BlockNumber p = n))"

definition ok_precommits :: "viewPreCommits \<Rightarrow> bool" where
  "ok_precommits v \<longleftrightarrow> gwf v \<and> (\<forall>n ps. gget v n = Some ps \<longrightarrow>
     gwf ps \<and> ps \<noteq> [] \<and> (\<forall>i p. gget ps i = Some p \<longrightarrow> pc_BlockNumber p = n))"

lemmas ok_cache_defs = ok_blocks_def ok_qcs_def ok_votes_def ok_precommits_def

lemma gset_not_Nil [simp]: "gset k v m \<noteq> []"
  by (cases m) (auto simp: gset_def)

lemma dom_index [simp]: "dom (vb_index v) = gkeys (vb_Blocks v)" "dom (vqs_index q) = gkeys (vqs_QCs q)"
  unfolding vb_index_def vqs_index_def dom_gget by simp_all

lemma ok_addBlock: "ok_blocks v \<Longrightarrow> ok_blocks (addBlock b v)"
  by (auto simp: ok_blocks_def addBlock_def Let_def)

lemma ok_addQC: "ok_qcs v \<Longrightarrow> ok_qcs (addQC q v)"
  by (auto simp: ok_qcs_def addQC_def Let_def split: if_splits) (meson order.trans less_imp_le)+

lemma ok_addVote: "ok_votes v \<Longrightarrow> ok_votes (addVote i p v)"
  unfolding ok_votes_def addVote_def addPrepareVote_def Let_def
  by (auto split: option.splits if_splits)

lemma ok_vp_addPreCommit: "ok_precommits v \<Longrightarrow> ok_precommits (vp_addPreCommit i p v)"
  unfolding ok_precommits_def vp_addPreCommit_def addPreCommit_def Let_def
  by (auto split: option.splits if_splits)

interpretation blocks: number_cache addBlock vb_index vb_number "\<lambda>v. length (vb_Blocks v)" ok_blocks
  by unfold_locales
    (auto simp: ok_addBlock length_gomap dom_gget, auto simp: addBlock_def vb_index_def Let_def ok_blocks_def length_gomap dom_gget
      split: option.splits)

interpretation qcs: number_cache addQC vqs_index q_BlockNumber "\<lambda>v. length (vqs_QCs v)" ok_qcs
  by unfold_locales
    (auto simp: ok_addQC, auto simp: addQC_def vqs_index_def Let_def ok_qcs_def length_gomap dom_gget split: option.splits)

interpretation votes: number_cache "\<lambda>(i, p). addVote i p" gget "\<lambda>(i, p). pv_BlockNumber p" length ok_votes
  by unfold_locales
    (auto simp: ok_addVote dom_gget, auto simp: addVote_def Let_def ok_votes_def length_gomap dom_gget split: option.splits)

interpretation precommits: number_cache "\<lambda>(i, p). vp_addPreCommit i p" gget "\<lambda>(i, p). pc_BlockNumber p" length ok_precommits
  by unfold_locales
    (auto simp: ok_vp_addPreCommit dom_gget,
     auto simp: vp_addPreCommit_def Let_def ok_precommits_def length_gomap dom_gget split: option.splits)

section \<open>The invariant of the view\<close>

definition wf_view :: "'a view_scheme \<Rightarrow> bool" where
  "wf_view vs \<longleftrightarrow> ok_blocks (v_viewBlocks vs) \<and> ok_qcs (v_viewQCs vs) \<and> ok_qcs (v_viewPreCommitQCs vs)
     \<and> ok_votes (v_viewVotes vs) \<and> ok_precommits (v_viewPreCommits vs) \<and> gwf (v_viewChanges vs)"

lemma ok_clear [intro]:
  "ok_blocks b \<Longrightarrow> ok_blocks (vb_clear n b)" "ok_qcs q \<Longrightarrow> ok_qcs (vqs_clear n q)"
  "ok_votes v \<Longrightarrow> ok_votes (vv_clear n v)" "ok_precommits p \<Longrightarrow> ok_precommits (vp_clear n p)"
  by (auto simp: ok_cache_defs vb_clear_def vqs_clear_def vv_clear_def vp_clear_def)

lemma ok_new [simp]: "ok_blocks newViewBlocks" "ok_qcs newViewQCs" "ok_votes []" "ok_precommits []"
  by (auto simp: ok_cache_defs newViewBlocks_def newViewQCs_def)

lemma wf_NewViewState: "wf_view (NewViewState now period)"
  by (simp add: wf_view_def NewViewState_def newView_def view.defs)

lemmas view_op_defs = AddPrepareBlock_def AddQCBlock_def AddQC_def AddPreCommitQC_def AddPrepareVote_def
  AddPreCommit_def AddViewChange_def ResetView_def Reset_view_def UpdateStep_def SetExecuting_def
  SetLastViewChangeQC_def SetPreCommitQC_def SetPrepareVoteQC_def AddBlockNumber_def SetBlockNumber_def
  AddHadSendVoteNumber_def AddHadSendPreCommitNumber_def SetMaxExecutedBlockNumber_def
  SetHighestQCBlock_def SetHighestPreCommitQCBlock_def SetHighestLockBlock_def SetHighestCommitBlock_def

lemma wf_view_ops [intro]:
  assumes "wf_view vs"
  shows "wf_view (AddPrepareBlock pb vs)" "wf_view (AddQCBlock b qc vs)" "wf_view (AddQC qc vs)"
    "wf_view (AddPreCommitQC qc vs)" "wf_view (AddPrepareVote i pv vs)" "wf_view (AddPreCommit i pc vs)"
    "wf_view (AddViewChange i vc vs)" "wf_view (ResetView e v n vs)" "wf_view (UpdateStep step vs)"
    "wf_view (SetExecuting j fin vs)" "wf_view (SetLastViewChangeQC vqc vs)" "wf_view (SetPreCommitQC qc vs)"
    "wf_view (SetPrepareVoteQC qc vs)" "wf_view (AddBlockNumber now qc vs)" "wf_view (SetBlockNumber now n vs)"
    "wf_view (AddHadSendVoteNumber n pv vs)" "wf_view (AddHadSendPreCommitNumber n pc vs)"
    "wf_view (SetMaxExecutedBlockNumber n vs)"
  using assms
  by (auto simp: wf_view_def view_op_defs ok_addBlock ok_addQC ok_addVote ok_vp_addPreCommit)

lemma ViewBlockByIndex_number: "wf_view vs \<Longrightarrow> ViewBlockByIndex n vs = Some b \<Longrightarrow> blk_Number b = n"
  by (auto simp: wf_view_def ok_blocks_def ViewBlockByIndex_def vb_index_def vb_number_def)

lemma FindPrepareVote_number: "wf_view vs \<Longrightarrow> FindPrepareVote n i vs = Some p \<Longrightarrow> pv_BlockNumber p = n"
  by (auto simp: wf_view_def ok_votes_def FindPrepareVote_def split: option.splits)

lemma FindPreCommit_number: "wf_view vs \<Longrightarrow> FindPreCommit n i vs = Some p \<Longrightarrow> pc_BlockNumber p = n"
  by (auto simp: wf_view_def ok_precommits_def FindPreCommit_def split: option.splits)

lemma AddPrepareVote_find:
  "FindPrepareVote n j (AddPrepareVote i p vs) =
    (if n = pv_BlockNumber p \<and> j = i then Some p
     else if n = 0 \<and> length (v_viewVotes vs) \<ge> ViewCacheLen then None else FindPrepareVote n j vs)"
  by (auto simp: FindPrepareVote_def AddPrepareVote_def addVote_def addPrepareVote_def Let_def split: option.splits)

lemma AddPreCommit_find:
  "FindPreCommit n j (AddPreCommit i p vs) =
    (if n = pc_BlockNumber p \<and> j = i then Some p
     else if n = 0 \<and> length (v_viewPreCommits vs) \<ge> ViewCacheLen then None else FindPreCommit n j vs)"
  by (auto simp: FindPreCommit_def AddPreCommit_def vp_addPreCommit_def addPreCommit_def Let_def split: option.splits)

section \<open>The record of the last vote\<close>

definition pv_key :: "prepareVote \<Rightarrow> u64 \<times> u64 \<times> u64" where
  "pv_key p = (pv_BlockNumber p, pv_Epoch p, pv_ViewNumber p)"

definition pc_key :: "preCommit \<Rightarrow> u64 \<times> u64 \<times> u64" where
  "pc_key p = (pc_BlockNumber p, pc_Epoch p, pc_ViewNumber p)"

definition last_vote_ok :: "'a view_scheme \<Rightarrow> bool" where
  "last_vote_ok vs \<longleftrightarrow> (case v_hadSendVoteLast vs of None \<Rightarrow> v_hadSendVoteNumber vs = 0
     | Some p \<Rightarrow> v_hadSendVoteNumber vs = pv_BlockNumber p)"

definition last_precommit_ok :: "'a view_scheme \<Rightarrow> bool" where
  "last_precommit_ok vs \<longleftrightarrow> (case v_hadSendPreCommitLast vs of None \<Rightarrow> v_hadSendPreCommitNumber vs = 0
     | Some p \<Rightarrow> v_hadSendPreCommitNumber vs = pc_BlockNumber p)"

lemma HadSendPreVote_key:
  "last_vote_ok vs \<Longrightarrow> HadSendPreVote p vs \<longleftrightarrow> (\<exists>l. v_hadSendVoteLast vs = Some l \<and> pv_key p \<le> pv_key l)"
  unfolding last_vote_ok_def HadSendPreVote_def pv_key_def less_eq_prod_def
  by (cases "v_hadSendVoteLast vs") (auto simp: not_less_iff_gr_or_eq)

lemma HadSendPreCommit_key:
  "last_precommit_ok vs \<Longrightarrow>
    HadSendPreCommit p vs \<longleftrightarrow> (\<exists>l. v_hadSendPreCommitLast vs = Some l \<and> pc_key p \<le> pc_key l)"
  unfolding last_precommit_ok_def HadSendPreCommit_def pc_key_def less_eq_prod_def
  by (cases "v_hadSendPreCommitLast vs") (auto simp: not_less_iff_gr_or_eq)

section \<open>The timer\<close>

lemma round53_exact: "n < 2 ^ 53 \<Longrightarrow> round53 n = n"
  by (simp add: round53_def excess_bits.simps)

lemma quarter_less: "0 \<le> (x::int) \<Longrightarrow> x < 2 ^ 53 \<Longrightarrow> x div 4 < 2 ^ 53"
  by simp

lemma getViewTimeInterval_exact:
  assumes "uint baseMs < 2 ^ 49"
  shows "getViewTimeInterval baseMs v
    = Some (uint baseMs * pow_quarters (if v - 1 > maxExponent then maxExponent else v - 1) div 4)"
proof -
  let ?q = "pow_quarters (if v - 1 > maxExponent then maxExponent else v - 1)"
  have q: "4 \<le> ?q" "?q \<le> 9" by (auto simp: pow_quarters_def)
  have b: "0 \<le> uint baseMs" by simp
  have "uint baseMs * ?q \<le> uint baseMs * 9" using q by (intro mult_left_mono) auto
  then have x: "uint baseMs * ?q < 2 ^ 53" using assms by simp
  have p: "0 \<le> uint baseMs * ?q" using b q by simp
  have y: "uint baseMs * ?q div 4 < 2 ^ 53" using p x by (rule quarter_less)
  have z: "0 \<le> uint baseMs * ?q div 4" using p by (simp add: pos_imp_zdiv_nonneg_iff)
  have "sint (word_of_int (uint baseMs * ?q div 4) :: u64) = uint baseMs * ?q div 4"
    using y z by (simp add: signed_of_int take_bit_int_eq_self signed_take_bit_int_eq_self)
  then show ?thesis
    using assms x y by (simp add: getViewTimeInterval_def Let_def round53_exact)
qed

section \<open>Properties\<close>

text \<open>C24: A fresh view state satisfies the invariant of the view (every block, certificate, vote and
  pre-commit is filed under its own block number, no map holds a key twice, no number has an empty set
  of votes), and every operation of \<open>ViewState\<close> that changes the view keeps it.\<close>
theorem view_invariant:
  assumes "wf_view vs"
  shows "wf_view (NewViewState now period) \<and> wf_view (AddPrepareBlock pb vs) \<and> wf_view (AddQCBlock b qc vs) \<and> wf_view (AddQC qc vs)
      \<and> wf_view (AddPreCommitQC qc vs) \<and> wf_view (AddPrepareVote i pv vs) \<and> wf_view (AddPreCommit i pc vs)
      \<and> wf_view (AddViewChange i vc vs) \<and> wf_view (ResetView e v n vs) \<and> wf_view (UpdateStep step vs)
      \<and> wf_view (SetExecuting j fin vs) \<and> wf_view (SetLastViewChangeQC vqc vs) \<and> wf_view (SetPreCommitQC qc vs)
      \<and> wf_view (SetPrepareVoteQC qc vs) \<and> wf_view (AddBlockNumber now qc vs) \<and> wf_view (SetBlockNumber now n vs)
      \<and> wf_view (AddHadSendVoteNumber n pv vs) \<and> wf_view (AddHadSendPreCommitNumber n pc vs)
      \<and> wf_view (SetMaxExecutedBlockNumber n vs)"
  using assms by (simp add: wf_NewViewState wf_view_ops)

abbreviation view_example :: viewState where
  "view_example \<equiv> AddPrepareVote 2 pv_example (AddQCBlock block1 (qc_example 1) (NewViewState 0 10000))"

theorem view_invariant_witness: "wf_view view_example \<and> wf_view (ResetView 1 1 7 view_example)"
proof -
  have "wf_view view_example" by (intro wf_view_ops wf_NewViewState)
  then show ?thesis using view_invariant [of view_example, where e = 1 and v = 1 and n = 7] by simp
qed

text \<open>C15: The record of the last vote orders votes by block number, then epoch, then view number:
  once a vote is recorded, \<open>HadSendPreVote\<close> is true exactly for votes that do not exceed it in this
  order; \<open>HadSendPreVoteByQC\<close> and \<open>HadSendPreCommit\<close> follow the same order, and resetting the view
  forgets none of it.\<close>
theorem last_vote_order:
  "(HadSendPreVote q (AddHadSendVoteNumber (pv_BlockNumber p) p vs) \<longleftrightarrow> pv_key q \<le> pv_key p)
    \<and> (HadSendPreVoteByQC qc (AddHadSendVoteNumber (pv_BlockNumber p) p vs) \<longleftrightarrow> q_key qc \<le> pv_key p)
    \<and> (HadSendPreCommit c (AddHadSendPreCommitNumber (pc_BlockNumber d) d vs) \<longleftrightarrow> pc_key c \<le> pc_key d)
    \<and> HadSendPreVote q (ResetView e v n vs) = HadSendPreVote q vs
    \<and> HadSendPreCommit c (ResetView e v n vs) = HadSendPreCommit c vs"
  by (intro conjI) (auto simp: HadSendPreVote_def HadSendPreVoteByQC_def HadSendPreCommit_def view_op_defs pv_key_def pc_key_def
      q_key_def less_eq_prod_def)

text \<open>C40: The caches of the view keep an entry for every block number above zero that was ever added:
  the eviction of the smallest number when \<open>ViewCacheLen\<close> is reached always picks number zero, so the
  caches of blocks, certificates and votes grow with the number of distinct heights.\<close>
theorem view_caches_never_evict:
  "card (vb_number ` set bs - {0}) \<le> length (vb_Blocks (fold addBlock bs newViewBlocks))
    \<and> card (q_BlockNumber ` set qs - {0}) \<le> length (vqs_QCs (fold addQC qs newViewQCs))
    \<and> card ((\<lambda>(i, p). pv_BlockNumber p) ` set vs - {0}) \<le> length (fold (\<lambda>(i, p). addVote i p) vs [])
    \<and> card ((\<lambda>(i, p). pc_BlockNumber p) ` set ps - {0}) \<le> length (fold (\<lambda>(i, p). vp_addPreCommit i p) ps [])"
  by (intro conjI blocks.count_fold qcs.count_fold votes.count_fold precommits.count_fold) simp_all

text \<open>C26: Adding a vote for a block number above zero makes it the one found for its validator, leaves
  what is found for every other validator and number as it was, and raises the number of votes of that
  height by one exactly if the validator had none.\<close>
theorem AddPrepareVote_correct:
  assumes "wf_view vs" "pv_BlockNumber p \<noteq> 0"
  shows "FindPrepareVote (pv_BlockNumber p) i (AddPrepareVote i p vs) = Some p
    \<and> (\<forall>n j. n \<noteq> 0 \<and> (n \<noteq> pv_BlockNumber p \<or> j \<noteq> i) \<longrightarrow>
        FindPrepareVote n j (AddPrepareVote i p vs) = FindPrepareVote n j vs)
    \<and> PrepareVoteLenByNumber (pv_BlockNumber p) (AddPrepareVote i p vs) =
      (if FindPrepareVote (pv_BlockNumber p) i vs = None then Suc (PrepareVoteLenByNumber (pv_BlockNumber p) vs)
       else PrepareVoteLenByNumber (pv_BlockNumber p) vs)"
proof -
  have "gwf ps" if "gget (v_viewVotes vs) (pv_BlockNumber p) = Some ps" for ps
    using assms(1) that by (auto simp: wf_view_def ok_votes_def)
  then have "PrepareVoteLenByNumber (pv_BlockNumber p) (AddPrepareVote i p vs) =
      (if FindPrepareVote (pv_BlockNumber p) i vs = None then Suc (PrepareVoteLenByNumber (pv_BlockNumber p) vs)
       else PrepareVoteLenByNumber (pv_BlockNumber p) vs)"
    using assms(2)
    by (auto simp: PrepareVoteLenByNumber_def FindPrepareVote_def AddPrepareVote_def addVote_def addPrepareVote_def
        Let_def am.len_put split: option.splits)
  moreover have "FindPrepareVote (pv_BlockNumber p) i (AddPrepareVote i p vs) = Some p"
    and "\<And>n j. n \<noteq> 0 \<Longrightarrow> n \<noteq> pv_BlockNumber p \<or> j \<noteq> i \<Longrightarrow>
      FindPrepareVote n j (AddPrepareVote i p vs) = FindPrepareVote n j vs"
    by (auto simp: AddPrepareVote_find)
  ultimately show ?thesis by blast
qed

theorem AddPrepareVote_correct_witness:
  "FindPrepareVote (pv_BlockNumber pv_example) 5 (AddPrepareVote 5 pv_example view_example) = Some pv_example"
proof -
  have "wf_view view_example" by (intro wf_view_ops wf_NewViewState)
  then show ?thesis using AddPrepareVote_correct [of view_example pv_example 5] by simp
qed

text \<open>With a period below about six days the timer arithmetic in \<open>float64\<close> is exact: arming the
  view timer succeeds, the view lasts at least the period and at most nine quarters of it, and with the
  interval one that \<open>changeView\<close> passes it lasts exactly the period.\<close>
theorem view_timer_window:
  assumes "uint (vt_baseMs t) < 2 ^ 49"
  shows "\<exists>t'. setupTimer now v t = Some t' \<and> vt_baseMs t' = vt_baseMs t
    \<and> now + uint (vt_baseMs t) \<le> vt_deadline t' \<and> vt_deadline t' \<le> now + uint (vt_baseMs t) * 9 div 4
    \<and> (vt_preViewInterval t = 1 \<and> v = 1 \<longrightarrow> vt_deadline t' = now + uint (vt_baseMs t) \<and> vt_preViewInterval t' = 1)
    \<and> (\<forall>time. isDeadline time t' \<longleftrightarrow> vt_deadline t' < time)"
proof -
  obtain w t1 where w: "calViewInterval v t = (w, t1)" "vt_baseMs t1 = vt_baseMs t" "vt_preViewInterval t1 = w"
    by (auto simp: calViewInterval_def Let_def)
  have one: "w = 1" if "vt_preViewInterval t = 1" "v = 1" using w(1) that by (auto simp: calViewInterval_def Let_def)
  define d where "d = uint (vt_baseMs t) * pow_quarters (if w - 1 > maxExponent then maxExponent else w - 1) div 4"
  have q: "4 \<le> pow_quarters k" "pow_quarters k \<le> 9" for k by (auto simp: pow_quarters_def)
  have "uint (vt_baseMs t) * 4 div 4 \<le> d" unfolding d_def using q by (intro zdiv_mono1 mult_left_mono) auto
  moreover have "d \<le> uint (vt_baseMs t) * 9 div 4" unfolding d_def using q by (intro zdiv_mono1 mult_left_mono) auto
  moreover have "setupTimer now v t = Some (t1\<lparr>vt_deadline := now + d\<rparr>)"
    by (simp add: setupTimer_def w getViewTimeInterval_exact [OF assms] d_def)
  moreover have "w = 1 \<Longrightarrow> d = uint (vt_baseMs t)" by (simp add: d_def pow_quarters_def)
  ultimately show ?thesis using one w by (auto simp: isDeadline_def)
qed

theorem view_timer_window_witness:
  "\<exists>t'. setupTimer 5 1 (newViewTimer 10000) = Some t' \<and> vt_deadline t' = 5 + 10000000000"
proof -
  have b: "uint (vt_baseMs (newViewTimer 10000)) = 10000000000" by (simp add: newViewTimer_def)
  have p: "vt_preViewInterval (newViewTimer 10000) = 1" by (simp add: newViewTimer_def)
  show ?thesis using view_timer_window [of "newViewTimer 10000" 5 1] unfolding b p by auto
qed

end
