(* ===== verification/Validators.thy ===== *)
theory Validators
  imports ViewState
begin

text \<open>
  Validator sets (\<open>ethereum/core/types/pbfttypes/type.go\<close>) and the validator pool with its agencies
  (\<open>consensus/pbft/validator/validator.go\<close>).  The BLS library is a parameter: a record of functions on
  serialised keys and signatures.  The agency is a parameter of the pool; \<open>StaticAgency\<close> and
  \<open>InnerAgency\<close> of the source are given as instances, the latter over the validators the inner contract
  stores at a block.  \<open>MockAgency\<close> serves tests.  Parsing a node id to a public key is a parameter too.
  Posting to the event multiplexer is a list of events.
\<close>

section \<open>Interfaces of libraries\<close>

text \<open>\<open>bls_Deserialize\<close> gives the canonical form of a serialised signature, \<open>None\<close> if it is invalid.\<close>

record bls =
  bls_Deserialize :: "bytes \<Rightarrow> bytes option"
  bls_AddSign :: "bytes \<Rightarrow> bytes \<Rightarrow> bytes"
  bls_AddPub :: "bytes \<Rightarrow> bytes \<Rightarrow> bytes"
  bls_Verify :: "bytes \<Rightarrow> bytes \<Rightarrow> bytes \<Rightarrow> bool"

type_synonym nodeID = "512 word"
type_synonym nodeAddress = "160 word"

datatype vderr = NotFoundNode | InvalidIndex | NotFoundValidator | InvalidAddress | NotFoundValidators
  | SignDeserialize | BlsVerifyFail | AlreadyUpdated | AgencyError | EpochNotEnabled

section \<open>Validator sets\<close>

record validateNode =
  vn_Index :: u32
  vn_Address :: nodeAddress
  vn_NodeID :: nodeID
  vn_BlsPubKey :: bytes

record validators =
  Nodes :: "(nodeID, validateNode) gomap"
  ValidBlockNumber :: u64
  sortedNodes :: "validateNode list"

definition Verify_node :: "bls \<Rightarrow> validateNode \<Rightarrow> bytes \<Rightarrow> bytes \<Rightarrow> vderr option" where
  "Verify_node B vn data sign =
     (case bls_Deserialize B sign of None \<Rightarrow> Some SignDeserialize
      | Some sig \<Rightarrow> if bls_Verify B sig (vn_BlsPubKey vn) data then None else Some BlsVerifyFail)"

text \<open>\<open>sort\<close> fills the cache; \<open>sorted_of\<close> is the cache after the lazy call that every reader makes.\<close>

definition sort_vs :: "validators \<Rightarrow> validators" where
  "sort_vs vs = vs\<lparr>sortedNodes := sort_key vn_Index (sortedNodes vs @ gvals (Nodes vs))\<rparr>"

definition sorted_of :: "validators \<Rightarrow> validateNode list" where
  "sorted_of vs = (if sortedNodes vs = [] then sortedNodes (sort_vs vs) else sortedNodes vs)"

definition NodeList :: "validators \<Rightarrow> nodeID list" where
  "NodeList vs = map fst (Nodes vs)"

definition at_index :: "vderr \<Rightarrow> validateNode list \<Rightarrow> nat \<Rightarrow> vderr + validateNode" where
  "at_index err ns i = (if i \<ge> length ns then Inl err else Inr (ns ! i))"

definition NodeListByIndexes :: "validators \<Rightarrow> u32 list \<Rightarrow> vderr + validateNode list" where
  "NodeListByIndexes vs indexes =
     go_fold (\<lambda>i l. go_map (\<lambda>n. l @ [n]) (at_index InvalidIndex (sorted_of vs) (unat i))) indexes []"

definition NodeListByBitArray :: "validators \<Rightarrow> bitArray option \<Rightarrow> (vderr + validateNode list) go" where
  "NodeListByBitArray vs vSet =
     go_fold (\<lambda>i r. case r of Inl err \<Rightarrow> Inr (Inl err)
       | Inr l \<Rightarrow> go_map (\<lambda>b. if b then go_map (\<lambda>n. l @ [n]) (at_index InvalidIndex (sorted_of vs) (unat i)) else Inr l)
           (GetIndex vSet i)) (range_u32 (Size vSet)) (Inr [])"

definition FindNodeByID :: "validators \<Rightarrow> nodeID \<Rightarrow> vderr + validateNode" where
  "FindNodeByID vs i = (case gget (Nodes vs) i of Some node \<Rightarrow> Inr node | None \<Rightarrow> Inl NotFoundNode)"

definition FindNodeByIndex :: "validators \<Rightarrow> nat \<Rightarrow> vderr + validateNode" where
  "FindNodeByIndex vs index = at_index NotFoundValidator (sorted_of vs) index"

definition FindNodeByAddress :: "validators \<Rightarrow> nodeAddress \<Rightarrow> vderr + validateNode" where
  "FindNodeByAddress vs a =
     (case first_match (\<lambda>n. vn_Address n = a) (gvals (Nodes vs)) of Some n \<Rightarrow> Inr n | None \<Rightarrow> Inl InvalidAddress)"

definition NodeID_vs :: "validators \<Rightarrow> nat \<Rightarrow> nodeID" where
  "NodeID_vs vs idx = (if idx \<ge> length (sorted_of vs) then 0 else vn_NodeID (sorted_of vs ! idx))"

definition Index_vs :: "validators \<Rightarrow> nodeID \<Rightarrow> u32 \<times> vderr option" where
  "Index_vs vs i = (case gget (Nodes vs) i of Some node \<Rightarrow> (vn_Index node, None) | None \<Rightarrow> (MaxUint32, Some NotFoundValidator))"

definition Len_vs :: "validators \<Rightarrow> nat" where
  "Len_vs vs = length (Nodes vs)"

definition Equal_vs :: "validators \<Rightarrow> validators \<Rightarrow> bool" where
  "Equal_vs vs rsh = (if Len_vs vs \<noteq> Len_vs rsh then False
     else list_all (\<lambda>(k, v). case gget (Nodes rsh) k of None \<Rightarrow> False | Some vv \<Rightarrow> vn_Index vv = vn_Index v) (Nodes vs))"

definition newValidators :: "(nodeID \<Rightarrow> nodeAddress option) \<Rightarrow> (nodeID \<times> bytes) list \<Rightarrow> u64 \<Rightarrow> validators go" where
  "newValidators pubkey nodes validBlockNumber =
     go_fold (\<lambda>(i, nid, blsKey) vds.
       case pubkey nid of None \<Rightarrow> Inl (Explicit ''pubkey'')
       | Some addr \<Rightarrow> Inr (vds\<lparr>Nodes := gset nid
           \<lparr>vn_Index = word_of_nat i, vn_Address = addr, vn_NodeID = nid, vn_BlsPubKey = blsKey\<rparr> (Nodes vds)\<rparr>))
       (enumerate 0 nodes) \<lparr>Nodes = [], ValidBlockNumber = validBlockNumber, sortedNodes = []\<rparr>"

section \<open>Agencies\<close>

record agency =
  ag_GetLastNumber :: "u64 \<Rightarrow> u64 go"
  ag_GetValidator :: "u64 \<Rightarrow> (vderr + validators) go"
  ag_IsCandidateNode :: "nodeID \<Rightarrow> bool"

definition staticAgency :: "validators \<Rightarrow> agency" where
  "staticAgency vs = \<lparr>ag_GetLastNumber = (\<lambda>_. Inr 0), ag_GetValidator = (\<lambda>_. Inr (Inr vs)),
     ag_IsCandidateNode = (\<lambda>_. False)\<rparr>"

record innerAgency =
  ia_blocksPerNode :: u64
  ia_defaultBlocksPerRound :: u64
  ia_offset :: u64
  ia_defaultValidators :: validators

definition NewInnerAgency :: "validators \<Rightarrow> nat \<Rightarrow> nat \<Rightarrow> nat \<Rightarrow> innerAgency" where
  "NewInnerAgency vds nodes blocksPerNode offset = \<lparr>ia_blocksPerNode = word_of_nat blocksPerNode,
     ia_defaultBlocksPerRound = word_of_nat (nodes * blocksPerNode), ia_offset = word_of_nat offset,
     ia_defaultValidators = vds\<rparr>"

definition go_div :: "u64 \<Rightarrow> u64 \<Rightarrow> u64 go" where
  "go_div a b = (if b = 0 then Inl DivideByZero else Inr (a div b))"

definition go_mod :: "u64 \<Rightarrow> u64 \<Rightarrow> u64 go" where
  "go_mod a b = (if b = 0 then Inl DivideByZero else Inr (a mod b))"

text \<open>\<open>inner n\<close> is the validator set that the inner contract holds in the state of block \<open>n\<close>; \<open>None\<close>
  stands for a missing block, state or entry and for an entry that does not decode.\<close>

definition ia_GetValidator :: "(u64 \<Rightarrow> validators option) \<Rightarrow> innerAgency \<Rightarrow> u64 \<Rightarrow> validators go" where
  "ia_GetValidator inner ia blockNumber =
     (let baseNumber = (if blockNumber = 0 then 1 else blockNumber)
      in go_bind (go_div (baseNumber - 1) (ia_defaultBlocksPerRound ia)) (\<lambda>q.
         let defaultValidators = (ia_defaultValidators ia)\<lparr>ValidBlockNumber := q * ia_defaultBlocksPerRound ia + 1\<rparr>
         in if blockNumber \<le> ia_defaultBlocksPerRound ia then Inr defaultValidators
            else case inner (blockNumber - ia_offset ia - 1) of None \<Rightarrow> Inr defaultValidators | Some vds \<Rightarrow> Inr vds))"

definition ia_GetLastNumber :: "(u64 \<Rightarrow> validators option) \<Rightarrow> innerAgency \<Rightarrow> u64 \<Rightarrow> u64 go" where
  "ia_GetLastNumber inner ia blockNumber =
     (if blockNumber \<le> ia_defaultBlocksPerRound ia then Inr (ia_defaultBlocksPerRound ia)
      else go_bind (ia_GetValidator inner ia blockNumber) (\<lambda>vds.
        go_bind (if ValidBlockNumber vds = 0 then go_map (\<lambda>r. r = 0) (go_mod blockNumber (ia_defaultBlocksPerRound ia)) else Inr False)
        (\<lambda>static. if static then Inr blockNumber
          else let blocksPerRound = ia_blocksPerNode ia * word_of_nat (Len_vs vds);
                   lastBlockNumber = ValidBlockNumber vds + blocksPerRound - 1
            in if lastBlockNumber < blockNumber
               then go_map (\<lambda>r. if r = 0 then blockNumber else blockNumber - r + blocksPerRound) (go_mod blockNumber blocksPerRound)
               else Inr lastBlockNumber)))"

definition innerAgency_of :: "(u64 \<Rightarrow> validators option) \<Rightarrow> innerAgency \<Rightarrow> agency" where
  "innerAgency_of inner ia = \<lparr>ag_GetLastNumber = ia_GetLastNumber inner ia,
     ag_GetValidator = (\<lambda>n. go_map Inr (ia_GetValidator inner ia n)), ag_IsCandidateNode = (\<lambda>_. True)\<rparr>"

section \<open>The validator pool\<close>

record validatorPool =
  vp_nodeID :: nodeID
  vp_switchPoint :: u64
  vp_lastNumber :: u64
  vp_epoch :: u64
  vp_prevValidators :: "validators option"
  vp_currentValidators :: "validators option"

datatype validatorEvent = AddValidatorEvent nodeID | RemoveValidatorEvent nodeID

definition NextRound :: "u64 \<Rightarrow> u64" where
  "NextRound blockNumber = blockNumber + 1"

definition ptr_of :: "'e + 'a \<Rightarrow> 'a option" where
  "ptr_of r = (case r of Inl _ \<Rightarrow> None | Inr x \<Rightarrow> Some x)"

text \<open>The choice of validator sets that \<open>NewValidatorPool\<close> and \<open>Reset\<close> share: at the end of a round the
  next round's validators are current already.  The result says whether the round has ended.\<close>

definition load_round :: "agency \<Rightarrow> u64 \<Rightarrow> validatorPool \<Rightarrow> (validatorPool \<times> bool) go" where
  "load_round ag blockNumber pool =
     go_bind (ag_GetLastNumber ag blockNumber) (\<lambda>ln.
       if ln = blockNumber
       then go_bind (ag_GetValidator ag blockNumber) (\<lambda>prev.
            go_bind (ag_GetValidator ag (NextRound blockNumber)) (\<lambda>cur.
            go_map (\<lambda>ln'. (pool\<lparr>vp_prevValidators := ptr_of prev, vp_currentValidators := ptr_of cur, vp_lastNumber := ln'\<rparr>, True))
              (ag_GetLastNumber ag (NextRound blockNumber))))
       else go_bind (ag_GetValidator ag blockNumber) (\<lambda>cur.
            go_map (\<lambda>ln'. (pool\<lparr>vp_prevValidators := ptr_of cur, vp_currentValidators := ptr_of cur, vp_lastNumber := ln'\<rparr>, False))
              (ag_GetLastNumber ag blockNumber)))"

definition set_switchPoint :: "validatorPool \<Rightarrow> validatorPool go" where
  "set_switchPoint pool = go_map (\<lambda>cur. if ValidBlockNumber cur > 0 then pool\<lparr>vp_switchPoint := ValidBlockNumber cur - 1\<rparr> else pool)
     (go_deref (vp_currentValidators pool))"

definition NewValidatorPool :: "agency \<Rightarrow> u64 \<Rightarrow> u64 \<Rightarrow> nodeID \<Rightarrow> validatorPool go" where
  "NewValidatorPool ag blockNumber epoch nid =
     go_bind (load_round ag blockNumber \<lparr>vp_nodeID = nid, vp_switchPoint = 0, vp_lastNumber = 0, vp_epoch = epoch,
         vp_prevValidators = None, vp_currentValidators = None\<rparr>)
       (\<lambda>(pool, ended). set_switchPoint (if ended \<and> blockNumber \<noteq> 0 then pool\<lparr>vp_epoch := vp_epoch pool + 1\<rparr> else pool))"

definition Reset_vp :: "agency \<Rightarrow> u64 \<Rightarrow> u64 \<Rightarrow> validatorPool \<Rightarrow> validatorPool go" where
  "Reset_vp ag blockNumber epoch vp =
     go_bind (load_round ag blockNumber vp)
       (\<lambda>(pool, ended). set_switchPoint (pool\<lparr>vp_epoch := (if ended then epoch + 1 else epoch)\<rparr>))"

definition ShouldSwitch :: "validatorPool \<Rightarrow> u64 \<Rightarrow> bool" where
  "ShouldSwitch vp blockNumber =
     (if blockNumber = 0 then False else if blockNumber = vp_switchPoint vp then True else blockNumber = vp_lastNumber vp)"

definition EqualSwitchPoint :: "validatorPool \<Rightarrow> u64 \<Rightarrow> bool" where
  "EqualSwitchPoint vp number = (vp_switchPoint vp > 0 \<and> vp_switchPoint vp = number)"

definition EnableVerifyEpoch :: "validatorPool \<Rightarrow> u64 \<Rightarrow> vderr option" where
  "EnableVerifyEpoch vp epoch = (if epoch + 1 = vp_epoch vp \<or> epoch = vp_epoch vp then None else Some EpochNotEnabled)"

definition epochToBlockNumber :: "validatorPool \<Rightarrow> u64 \<Rightarrow> u64 go" where
  "epochToBlockNumber vp epoch =
     (if epoch > vp_epoch vp then Inl (Explicit ''get unknown epoch'')
      else if epoch + 1 = vp_epoch vp then Inr (vp_switchPoint vp) else Inr (vp_switchPoint vp + 1))"

text \<open>The choice between previous and current validators that every accessor makes.\<close>

definition validators_of :: "validatorPool \<Rightarrow> u64 \<Rightarrow> validators go" where
  "validators_of vp epoch = go_bind (epochToBlockNumber vp epoch) (\<lambda>n.
     go_deref (if n \<le> vp_switchPoint vp then vp_prevValidators vp else vp_currentValidators vp))"

definition GetValidatorByNodeID :: "validatorPool \<Rightarrow> u64 \<Rightarrow> nodeID \<Rightarrow> (vderr + validateNode) go" where
  "GetValidatorByNodeID vp epoch nid = go_map (\<lambda>vs. FindNodeByID vs nid) (validators_of vp epoch)"

definition GetValidatorByAddr :: "validatorPool \<Rightarrow> u64 \<Rightarrow> nodeAddress \<Rightarrow> (vderr + validateNode) go" where
  "GetValidatorByAddr vp epoch a = go_map (\<lambda>vs. FindNodeByAddress vs a) (validators_of vp epoch)"

definition GetValidatorByIndex :: "validatorPool \<Rightarrow> u64 \<Rightarrow> u32 \<Rightarrow> (vderr + validateNode) go" where
  "GetValidatorByIndex vp epoch index = go_map (\<lambda>vs. FindNodeByIndex vs (unat index)) (validators_of vp epoch)"

definition GetNodeIDByIndex :: "validatorPool \<Rightarrow> u64 \<Rightarrow> nat \<Rightarrow> nodeID go" where
  "GetNodeIDByIndex vp epoch index = go_map (\<lambda>vs. NodeID_vs vs index) (validators_of vp epoch)"

definition GetIndexByNodeID :: "validatorPool \<Rightarrow> u64 \<Rightarrow> nodeID \<Rightarrow> (u32 \<times> vderr option) go" where
  "GetIndexByNodeID vp epoch nid = go_map (\<lambda>vs. Index_vs vs nid) (validators_of vp epoch)"

definition ValidatorList :: "validatorPool \<Rightarrow> u64 \<Rightarrow> nodeID list go" where
  "ValidatorList vp epoch = go_map NodeList (validators_of vp epoch)"

definition Validators_vp :: "validatorPool \<Rightarrow> u64 \<Rightarrow> validators option" where
  "Validators_vp vp epoch =
     (if epoch > vp_epoch vp then vp_currentValidators vp
      else if (if epoch + 1 = vp_epoch vp then vp_switchPoint vp else vp_switchPoint vp + 1) \<le> vp_switchPoint vp
           then vp_prevValidators vp else vp_currentValidators vp)"

definition IsValidator :: "validatorPool \<Rightarrow> u64 \<Rightarrow> nodeID \<Rightarrow> bool go" where
  "IsValidator vp epoch nid = go_map isInr (GetValidatorByNodeID vp epoch nid)"

definition IsCandidateNode :: "agency \<Rightarrow> nodeID \<Rightarrow> bool" where
  "IsCandidateNode ag nid = ag_IsCandidateNode ag nid"

definition Len_vp :: "validatorPool \<Rightarrow> u64 \<Rightarrow> nat go" where
  "Len_vp vp epoch = go_map Len_vs (validators_of vp epoch)"

definition Verify_vp :: "bls \<Rightarrow> validatorPool \<Rightarrow> u64 \<Rightarrow> u32 \<Rightarrow> bytes \<Rightarrow> bytes \<Rightarrow> vderr option go" where
  "Verify_vp B vp epoch validatorIndex msg signature =
     go_map (\<lambda>r. case r of Inl err \<Rightarrow> Some err | Inr v \<Rightarrow> Verify_node B v msg signature)
       (GetValidatorByIndex vp epoch validatorIndex)"

text \<open>The zero value of \<open>bls.PublicKey\<close>, from which \<open>VerifyAggSig\<close> starts, is the argument \<open>pub0\<close>.\<close>

definition VerifyAggSig :: "bls \<Rightarrow> bytes \<Rightarrow> validatorPool \<Rightarrow> u64 \<Rightarrow> u32 list \<Rightarrow> bytes \<Rightarrow> bytes \<Rightarrow> bool go" where
  "VerifyAggSig B pub0 vp epoch validatorIndexes msg signature =
     go_map (\<lambda>vs. case NodeListByIndexes vs validatorIndexes of Inl _ \<Rightarrow> False
       | Inr nodeList \<Rightarrow> (case bls_Deserialize B signature of None \<Rightarrow> False
           | Some sig \<Rightarrow> bls_Verify B sig (foldl (\<lambda>p n. bls_AddPub B p (vn_BlsPubKey n)) pub0 nodeList) msg))
       (validators_of vp epoch)"

definition agg_pub :: "bls \<Rightarrow> validateNode list \<Rightarrow> bytes" where
  "agg_pub B nodeList = foldl (\<lambda>p n. bls_AddPub B p (vn_BlsPubKey n)) (vn_BlsPubKey (hd nodeList)) (tl nodeList)"

definition VerifyAggSigByBA :: "bls \<Rightarrow> validatorPool \<Rightarrow> u64 \<Rightarrow> bitArray option \<Rightarrow> bytes \<Rightarrow> bytes \<Rightarrow> vderr option go" where
  "VerifyAggSigByBA B vp epoch vSet msg signature =
     go_bind (validators_of vp epoch) (\<lambda>vs.
     go_map (\<lambda>r. case r of Inl _ \<Rightarrow> Some NotFoundValidators
       | Inr nodeList \<Rightarrow> if nodeList = [] then Some NotFoundValidators
           else case bls_Deserialize B signature of None \<Rightarrow> Some SignDeserialize
             | Some sig \<Rightarrow> if bls_Verify B sig (agg_pub B nodeList) msg then None else Some BlsVerifyFail)
       (NodeListByBitArray vs vSet))"

definition update_events :: "bool \<Rightarrow> bool \<Rightarrow> validators \<Rightarrow> validators \<Rightarrow> validatorEvent list" where
  "update_events before after prev cur =
     (if before
      then if after
           then map AddValidatorEvent (filter (\<lambda>n. \<not> isInr (FindNodeByID prev n)) (NodeList cur))
              @ map RemoveValidatorEvent (filter (\<lambda>n. \<not> isInr (FindNodeByID cur n)) (NodeList prev))
           else map RemoveValidatorEvent (NodeList prev)
      else if after then map AddValidatorEvent (NodeList cur) else [])"

definition Update_vp :: "agency \<Rightarrow> u64 \<Rightarrow> u64 \<Rightarrow> validatorPool \<Rightarrow> (vderr option \<times> validatorPool \<times> validatorEvent list) go" where
  "Update_vp ag blockNumber epoch vp =
     (if blockNumber \<le> vp_switchPoint vp then Inr (Some AlreadyUpdated, vp, [])
      else go_bind (ag_GetValidator ag (NextRound blockNumber)) (\<lambda>r. case r of
          Inl err \<Rightarrow> Inr (Some err, vp, [])
        | Inr nds \<Rightarrow> go_bind (ag_GetLastNumber ag (NextRound blockNumber)) (\<lambda>ln.
            let vp' = vp\<lparr>vp_prevValidators := vp_currentValidators vp, vp_currentValidators := Some nds,
                vp_switchPoint := ValidBlockNumber nds - 1, vp_lastNumber := ln, vp_epoch := epoch\<rparr>
            in go_bind (IsValidator vp' (epoch - 1) (vp_nodeID vp)) (\<lambda>before.
               go_bind (IsValidator vp' epoch (vp_nodeID vp)) (\<lambda>after.
               if before \<or> after
               then go_map (\<lambda>prev. (None, vp', update_events before after prev nds)) (go_deref (vp_prevValidators vp'))
               else Inr (None, vp', []))))))"

section \<open>Well-formed validator sets\<close>

definition ordered_nodes :: "validators \<Rightarrow> validateNode list" where
  "ordered_nodes vs = sort_key vn_Index (gvals (Nodes vs))"

text \<open>Nodes are filed under their id, the indexes are exactly \<open>0..<n\<close>, and a filled cache is current.\<close>

definition wf_validators :: "validators \<Rightarrow> bool" where
  "wf_validators vs \<longleftrightarrow> gwf (Nodes vs) \<and> (\<forall>k n. gget (Nodes vs) k = Some n \<longrightarrow> vn_NodeID n = k)
     \<and> map (\<lambda>n. unat (vn_Index n)) (ordered_nodes vs) = [0..<length (Nodes vs)]
     \<and> (sortedNodes vs = [] \<or> sortedNodes vs = ordered_nodes vs)"

lemma length_ordered [simp]: "length (ordered_nodes vs) = length (Nodes vs)"
  by (simp add: ordered_nodes_def)

lemma sorted_of_wf: "wf_validators vs \<Longrightarrow> sorted_of vs = ordered_nodes vs"
  by (auto simp: wf_validators_def sorted_of_def sort_vs_def ordered_nodes_def)

lemma wf_sort_vs: "wf_validators vs \<Longrightarrow> sortedNodes vs = [] \<Longrightarrow> wf_validators (sort_vs vs) \<and> sorted_of (sort_vs vs) = sorted_of vs"
  by (auto simp: wf_validators_def sort_vs_def ordered_nodes_def sorted_of_def)

lemma ordered_in_Nodes:
  assumes "wf_validators vs" "i < Len_vs vs"
  shows "gget (Nodes vs) (vn_NodeID (ordered_nodes vs ! i)) = Some (ordered_nodes vs ! i)"
    and "unat (vn_Index (ordered_nodes vs ! i)) = i"
proof -
  let ?n = "ordered_nodes vs ! i"
  have "?n \<in> set (ordered_nodes vs)" using assms(2) by (simp add: Len_vs_def)
  then obtain k where "(k, ?n) \<in> set (Nodes vs)" by (auto simp: ordered_nodes_def)
  then have "gget (Nodes vs) k = Some ?n" using assms(1) by (simp add: wf_validators_def gget_if_in_set)
  moreover from this have "vn_NodeID ?n = k" using assms(1) by (simp add: wf_validators_def)
  ultimately show "gget (Nodes vs) (vn_NodeID ?n) = Some ?n" by simp
  have "map (\<lambda>n. unat (vn_Index n)) (ordered_nodes vs) ! i = [0..<length (Nodes vs)] ! i"
    using assms(1) by (simp add: wf_validators_def)
  then show "unat (vn_Index ?n) = i" using assms(2) by (simp add: Len_vs_def)
qed

text \<open>The contract of a validator set: nodes are found by index exactly below the size, the node found
  carries the index and is the one found by its id.\<close>

locale indexed_nodes =
  fixes sz :: "'c \<Rightarrow> nat"
    and byIndex :: "'c \<Rightarrow> nat \<Rightarrow> 'e + 'n"
    and byID :: "'c \<Rightarrow> 'i \<Rightarrow> 'e + 'n"
    and ident :: "'n \<Rightarrow> 'i"
    and idx :: "'n \<Rightarrow> nat"
    and wf :: "'c \<Rightarrow> bool"
  assumes byIndex_ok: "wf c \<Longrightarrow> i < sz c \<Longrightarrow> \<exists>n. byIndex c i = Inr n \<and> idx n = i \<and> byID c (ident n) = Inr n"
    and byIndex_out: "wf c \<Longrightarrow> sz c \<le> i \<Longrightarrow> \<not> isInr (byIndex c i)"
begin

lemma byIndex_Inr: "wf c \<Longrightarrow> byIndex c i = Inr n \<Longrightarrow> i < sz c \<and> idx n = i \<and> byID c (ident n) = Inr n"
  using byIndex_ok [of c i] byIndex_out [of c i] by (cases "i < sz c") (auto simp: isInr_def)

lemma byIndex_inj: "wf c \<Longrightarrow> byIndex c i = Inr m \<Longrightarrow> byIndex c j = Inr n \<Longrightarrow> ident m = ident n \<Longrightarrow> i = j"
  by (metis Inr_inject byIndex_Inr)

lemma byIndex_iff: "wf c \<Longrightarrow> isInr (byIndex c i) \<longleftrightarrow> i < sz c"
  using byIndex_ok [of c i] byIndex_out [of c i] by (cases "i < sz c") (auto simp: isInr_def)

end

interpretation nodes: indexed_nodes Len_vs FindNodeByIndex FindNodeByID vn_NodeID "\<lambda>n. unat (vn_Index n)" wf_validators
proof
  fix vs i assume wf: "wf_validators vs" and i: "i < Len_vs vs"
  show "\<exists>n. FindNodeByIndex vs i = Inr n \<and> unat (vn_Index n) = i \<and> FindNodeByID vs (vn_NodeID n) = Inr n"
    using i ordered_in_Nodes [OF wf i]
    by (intro exI [of _ "ordered_nodes vs ! i"]) (auto simp: FindNodeByIndex_def at_index_def sorted_of_wf [OF wf] FindNodeByID_def Len_vs_def)
next
  fix vs i assume wf: "wf_validators vs" and i: "Len_vs vs \<le> i"
  then show "\<not> isInr (FindNodeByIndex vs i)"
    by (simp add: FindNodeByIndex_def at_index_def sorted_of_wf Len_vs_def isInr_def)
qed

section \<open>Construction\<close>

definition node_of :: "(nodeID \<Rightarrow> nodeAddress option) \<Rightarrow> nat \<times> nodeID \<times> bytes \<Rightarrow> validateNode" where
  "node_of pubkey = (\<lambda>(i, nid, k). \<lparr>vn_Index = word_of_nat i, vn_Address = the (pubkey nid), vn_NodeID = nid, vn_BlsPubKey = k\<rparr>)"

lemma gset_append: "gget m k = None \<Longrightarrow> gset k v m = m @ [(k, v)]"
  unfolding gget_def gset_def by (induction m) (auto split: if_splits)

lemma newValidators_fold:
  assumes "\<forall>nd \<in> set nodes. pubkey (fst nd) \<noteq> None" "distinct (map fst nodes)" "\<forall>nd \<in> set nodes. gget m (fst nd) = None"
  shows "go_fold (\<lambda>(i, nid, blsKey) vds.
       case pubkey nid of None \<Rightarrow> Inl (Explicit ''pubkey'')
       | Some addr \<Rightarrow> Inr (vds\<lparr>Nodes := gset nid
           \<lparr>vn_Index = word_of_nat i, vn_Address = addr, vn_NodeID = nid, vn_BlsPubKey = blsKey\<rparr> (Nodes vds)\<rparr>))
       (enumerate j nodes) \<lparr>Nodes = m, ValidBlockNumber = vb, sortedNodes = []\<rparr>
     = Inr \<lparr>Nodes = m @ map (\<lambda>e. (fst (snd e), node_of pubkey e)) (enumerate j nodes), ValidBlockNumber = vb, sortedNodes = []\<rparr>"
  using assms
proof (induction nodes arbitrary: j m)
  case (Cons nd nodes)
  obtain nid k where nd: "nd = (nid, k)" by (cases nd)
  obtain addr where a: "pubkey nid = Some addr" using Cons.prems(1) nd by auto
  have m: "gset nid v m = m @ [(nid, v)]" for v using Cons.prems(3) nd by (intro gset_append) simp
  have "\<forall>nd' \<in> set nodes. gget (m @ [(nid, v)]) (fst nd') = None" for v
    unfolding m [symmetric] gget_gset using Cons.prems(2,3) nd by auto
  moreover have "\<forall>nd' \<in> set nodes. pubkey (fst nd') \<noteq> None" "distinct (map fst nodes)" using Cons.prems by simp_all
  ultimately show ?case
    by (simp add: nd a m node_of_def Cons.IH)
qed simp

lemma enumerate_nth_fst: "i < length xs \<Longrightarrow> enumerate 0 xs ! i = (i, xs ! i)"
  by (simp add: nth_enumerate_eq)

lemma newValidators_eq:
  assumes "\<forall>nd \<in> set nodes. pubkey (fst nd) \<noteq> None" "distinct (map fst nodes)"
  shows "newValidators pubkey nodes vb = Inr \<lparr>Nodes = map (\<lambda>e. (fst (snd e), node_of pubkey e)) (enumerate 0 nodes),
     ValidBlockNumber = vb, sortedNodes = []\<rparr>"
  using newValidators_fold [OF assms, of "[]" 0 vb] by (simp add: newValidators_def)

lemma vn_node_of [simp]: "vn_NodeID (node_of pubkey (i, nd)) = fst nd" "vn_BlsPubKey (node_of pubkey (i, nd)) = snd nd"
  "vn_Index (node_of pubkey (i, nd)) = word_of_nat i"
  by (simp_all add: node_of_def split_beta)

lemma unat_u32: "n < 2 ^ 32 \<Longrightarrow> unat (word_of_nat n :: u32) = n"
  by (simp add: unat_of_nat)

lemma newValidators_wf:
  fixes pubkey :: "nodeID \<Rightarrow> nodeAddress option" and vb :: u64
  assumes "distinct (map fst nodes)" "length nodes < 2 ^ 32"
  defines "vs \<equiv> \<lparr>Nodes = map (\<lambda>e. (fst (snd e), node_of pubkey e)) (enumerate 0 nodes), ValidBlockNumber = vb, sortedNodes = []\<rparr>"
  shows "wf_validators vs" "ordered_nodes vs = map (node_of pubkey) (enumerate 0 nodes)"
proof -
  have idx: "map (\<lambda>n. unat (vn_Index n)) (map (node_of pubkey) (enumerate 0 nodes)) = [0..<length nodes]"
    using assms(2) by (intro nth_equalityI) (auto simp: enumerate_nth_fst unat_u32)
  have "sorted (map vn_Index (map (node_of pubkey) (enumerate 0 nodes)))"
    using assms(2) by (auto simp: sorted_iff_nth_mono enumerate_nth_fst word_le_nat_alt unat_u32)
  then show ord: "ordered_nodes vs = map (node_of pubkey) (enumerate 0 nodes)"
    by (simp add: ordered_nodes_def vs_def sort_key_id_if_sorted o_def)
  have keys: "map fst (Nodes vs) = map fst nodes"
    by (simp add: vs_def o_def flip: map_map [of fst snd, unfolded o_def])
  have "gwf (Nodes vs)" using assms(1) keys by (simp add: gwf_def)
  moreover have "\<forall>k n. gget (Nodes vs) k = Some n \<longrightarrow> vn_NodeID n = k"
    by (auto simp: vs_def node_of_def dest!: gget_in_set)
  ultimately show "wf_validators vs"
    unfolding wf_validators_def ord using idx by (simp add: vs_def)
qed

text \<open>C27: For distinct node ids that all parse, \<open>newValidators\<close> builds a well-formed validator set: the
  i-th configured node is found at index i, carries that index and its own BLS key, and is the node found
  by its id; beyond the number of nodes no index is found.\<close>
theorem newValidators_correct:
  assumes "\<forall>nd \<in> set nodes. pubkey (fst nd) \<noteq> None" "distinct (map fst nodes)" "length nodes < 2 ^ 32"
  shows "\<exists>vs. newValidators pubkey nodes vb = Inr vs \<and> wf_validators vs \<and> Len_vs vs = length nodes \<and> ValidBlockNumber vs = vb
    \<and> (\<forall>i < length nodes. \<exists>n. FindNodeByIndex vs i = Inr n \<and> vn_NodeID n = fst (nodes ! i) \<and> vn_BlsPubKey n = snd (nodes ! i)
         \<and> unat (vn_Index n) = i \<and> FindNodeByID vs (fst (nodes ! i)) = Inr n)
    \<and> (\<forall>i \<ge> length nodes. FindNodeByIndex vs i = Inl NotFoundValidator)"
proof -
  let ?vs = "\<lparr>Nodes = map (\<lambda>e. (fst (snd e), node_of pubkey e)) (enumerate 0 nodes), ValidBlockNumber = vb, sortedNodes = []\<rparr>"
  note wf = newValidators_wf [OF assms(2,3), of pubkey vb]
  have len: "Len_vs ?vs = length nodes" by (simp add: Len_vs_def)
  have at: "FindNodeByIndex ?vs i = (if i < length nodes then Inr (node_of pubkey (i, nodes ! i)) else Inl NotFoundValidator)" for i
    by (simp add: FindNodeByIndex_def at_index_def sorted_of_wf [OF wf(1)] wf(2) enumerate_nth_fst)
  have "\<exists>n. FindNodeByIndex ?vs i = Inr n \<and> vn_NodeID n = fst (nodes ! i) \<and> vn_BlsPubKey n = snd (nodes ! i)
         \<and> unat (vn_Index n) = i \<and> FindNodeByID ?vs (fst (nodes ! i)) = Inr n" if "i < length nodes" for i
    using nodes.byIndex_Inr [OF wf(1), of i "node_of pubkey (i, nodes ! i)"] that by (simp add: at)
  then show ?thesis
    using wf(1) len by (intro exI [of _ ?vs]) (simp add: newValidators_eq [OF assms(1,2)] at)
qed

theorem newValidators_correct_witness:
  "\<exists>vs. newValidators (\<lambda>n. Some (ucast n)) [(11, [1]), (22, [2]), (33, [3])] 1 = Inr vs \<and> wf_validators vs \<and> Len_vs vs = 3"
  using newValidators_correct [of "[(11, [1]), (22, [2]), (33, [3])]" "\<lambda>n. Some (ucast n)" 1] by auto

section \<open>Switching validators\<close>

lemma u64_minus_1_less: "e \<noteq> 0 \<Longrightarrow> e - 1 < (e :: u64)"
proof -
  assume "e \<noteq> 0"
  then have "e - 1 \<noteq> MaxUint64" by (simp add: diff_eq_eq)
  then show ?thesis using u64_less_plus_1 [of "e - 1"] by simp
qed

lemma validators_of_current:
  "vp_epoch vp = e \<Longrightarrow> vp_switchPoint vp \<noteq> MaxUint64 \<Longrightarrow> vp_currentValidators vp = Some vs \<Longrightarrow> validators_of vp e = Inr vs"
  using u64_less_plus_1 [of "vp_switchPoint vp"]
  by (auto simp: validators_of_def epochToBlockNumber_def go_deref_def)

lemma validators_of_prev:
  "vp_epoch vp = e \<Longrightarrow> e \<noteq> 0 \<Longrightarrow> vp_prevValidators vp = Some vs \<Longrightarrow> validators_of vp (e - 1) = Inr vs"
  using u64_minus_1_less [of e] by (simp add: validators_of_def epochToBlockNumber_def go_deref_def)

lemma isInr_FindNodeByID: "isInr (FindNodeByID vs n) \<longleftrightarrow> n \<in> set (NodeList vs)"
  using gget_None_iff [of "Nodes vs" n] by (auto simp: FindNodeByID_def NodeList_def isInr_def split: option.splits)

text \<open>C16: When the pool switches validators for a new epoch, the new set serves that epoch and the set
  that was current serves the epoch before; a second update for a block up to the new switch point is
  refused without a change.  The events that are posted add and remove exactly the peers that change:
  if this node stays a validator the difference of the two sets, if it leaves all old ones are removed,
  if it joins all new ones are added.\<close>
theorem Update_switches_validators:
  assumes "vp_switchPoint vp < bn" "vp_currentValidators vp = Some cur" "e \<noteq> 0"
    and "ag_GetValidator ag (NextRound bn) = Inr (Inr nds)" "ag_GetLastNumber ag (NextRound bn) = Inr ln"
    and "ValidBlockNumber nds \<noteq> 0"
  shows "\<exists>vp' evs. Update_vp ag bn e vp = Inr (None, vp', evs)
    \<and> validators_of vp' e = Inr nds \<and> validators_of vp' (e - 1) = Inr cur
    \<and> (\<forall>b e'. b \<le> ValidBlockNumber nds - 1 \<longrightarrow> Update_vp ag b e' vp' = Inr (Some AlreadyUpdated, vp', []))
    \<and> (\<forall>n. AddValidatorEvent n \<in> set evs \<longleftrightarrow> vp_nodeID vp \<in> set (NodeList nds) \<and> n \<in> set (NodeList nds)
         \<and> (vp_nodeID vp \<in> set (NodeList cur) \<longrightarrow> n \<notin> set (NodeList cur)))
    \<and> (\<forall>n. RemoveValidatorEvent n \<in> set evs \<longleftrightarrow> vp_nodeID vp \<in> set (NodeList cur) \<and> n \<in> set (NodeList cur)
         \<and> (vp_nodeID vp \<in> set (NodeList nds) \<longrightarrow> n \<notin> set (NodeList nds)))"
proof -
  define vp' where "vp' = vp\<lparr>vp_prevValidators := Some cur, vp_currentValidators := Some nds,
                vp_switchPoint := ValidBlockNumber nds - 1, vp_lastNumber := ln, vp_epoch := e\<rparr>"
  have sp: "vp_switchPoint vp' \<noteq> MaxUint64" using assms(6) by (simp add: vp'_def diff_eq_eq)
  have cur: "validators_of vp' e = Inr nds" by (rule validators_of_current) (use sp in \<open>simp_all add: vp'_def\<close>)
  have prev: "validators_of vp' (e - 1) = Inr cur" by (rule validators_of_prev) (use assms in \<open>simp_all add: vp'_def\<close>)
  let ?before = "vp_nodeID vp \<in> set (NodeList cur)" and ?after = "vp_nodeID vp \<in> set (NodeList nds)"
  have b: "IsValidator vp' (e - 1) n = Inr (n \<in> set (NodeList cur))" "IsValidator vp' e n = Inr (n \<in> set (NodeList nds))" for n
    by (simp_all add: IsValidator_def GetValidatorByNodeID_def prev cur isInr_FindNodeByID)
  define evs where "evs = update_events ?before ?after cur nds"
  have "Update_vp ag bn e vp = Inr (None, vp', evs)"
    using assms(1,2,4,5)
    by (simp add: Update_vp_def Let_def vp'_def [symmetric] b evs_def not_le)
      (simp add: vp'_def go_deref_def update_events_def)
  moreover have "\<forall>b e'. b \<le> ValidBlockNumber nds - 1 \<longrightarrow> Update_vp ag b e' vp' = Inr (Some AlreadyUpdated, vp', [])"
    by (simp add: Update_vp_def vp'_def)
  moreover have "AddValidatorEvent n \<in> set evs \<longleftrightarrow> ?after \<and> n \<in> set (NodeList nds) \<and> (?before \<longrightarrow> n \<notin> set (NodeList cur))"
    "RemoveValidatorEvent n \<in> set evs \<longleftrightarrow> ?before \<and> n \<in> set (NodeList cur) \<and> (?after \<longrightarrow> n \<notin> set (NodeList nds))" for n
    by (auto simp: evs_def update_events_def isInr_FindNodeByID)
  ultimately show ?thesis using cur prev by blast
qed

abbreviation vnode_example :: "u32 \<Rightarrow> validateNode" where
  "vnode_example i \<equiv> \<lparr>vn_Index = i, vn_Address = 0, vn_NodeID = 10 + ucast i, vn_BlsPubKey = []\<rparr>"

abbreviation validators_example :: "u64 \<Rightarrow> validators" where
  "validators_example b \<equiv> \<lparr>Nodes = [(10, vnode_example 0), (11, vnode_example 1), (12, vnode_example 2), (13, vnode_example 3)],
     ValidBlockNumber = b, sortedNodes = []\<rparr>"

abbreviation pool_example :: validatorPool where
  "pool_example \<equiv> \<lparr>vp_nodeID = 10, vp_switchPoint = 0, vp_lastNumber = 40, vp_epoch = 1,
     vp_prevValidators = Some (validators_example 1), vp_currentValidators = Some (validators_example 1)\<rparr>"

theorem Update_switches_validators_witness:
  "\<exists>vp' evs. Update_vp (staticAgency (validators_example 41)) 40 2 pool_example = Inr (None, vp', evs)
    \<and> validators_of vp' 2 = Inr (validators_example 41) \<and> validators_of vp' 1 = Inr (validators_example 1)"
  using Update_switches_validators [of pool_example 40 "validators_example 1" 2 "staticAgency (validators_example 41)"
      "validators_example 41" 0]
  by (auto simp: staticAgency_def)

section \<open>Rounds of the inner agency\<close>

lemma u64_unat_arith:
  fixes a b :: u64
  shows "unat a + unat b < 2 ^ 64 \<Longrightarrow> unat (a + b) = unat a + unat b"
    and "unat a * unat b < 2 ^ 64 \<Longrightarrow> unat (a * b) = unat a * unat b"
    and "b \<le> a \<Longrightarrow> unat (a - b) = unat a - unat b"
  by (simp_all add: unat_word_ariths(1,2) unat_sub)

lemma round_end_bounds:
  fixes b R :: nat
  assumes "0 < R"
  shows "(b - 1) div R * R \<le> b - 1" "b \<le> (b - 1) div R * R + R"
proof -
  have "(b - 1) div R * R + (b - 1) mod R = b - 1" by simp
  moreover have "(b - 1) mod R < R" using assms by simp
  ultimately show "(b - 1) div R * R \<le> b - 1" "b \<le> (b - 1) div R * R + R" by linarith+
qed



section \<open>Signers of a certificate\<close>

lemma NodeListByBitArray_fold:
  assumes "\<And>i. i \<in> set is \<Longrightarrow> GetIndex p i = Inr (P i)" "\<And>i. i \<in> set is \<Longrightarrow> P i \<Longrightarrow> unat i < length (sorted_of vs)"
  shows "go_fold (\<lambda>i r. case r of Inl err \<Rightarrow> Inr (Inl err)
       | Inr l \<Rightarrow> go_map (\<lambda>b. if b then go_map (\<lambda>n. l @ [n]) (at_index InvalidIndex (sorted_of vs) (unat i)) else Inr l)
           (GetIndex p i)) is (Inr l) = Inr (Inr (l @ map (\<lambda>i. sorted_of vs ! unat i) (filter P is)))"
  using assms
proof (induction "is" arbitrary: l)
  case (Cons i "is")
  have "P i \<Longrightarrow> at_index InvalidIndex (sorted_of vs) (unat i) = Inr (sorted_of vs ! unat i)"
    using Cons.prems(2) [of i] by (simp add: at_index_def not_le)
  then show ?case using Cons.prems(1) [of i] Cons.IH Cons.prems by simp
qed simp

lemma NodeListByBitArray_wf:
  assumes "wf_ba bA" "ba_bits bA \<subseteq> {..<Len_vs vs}" "wf_validators vs"
  shows "NodeListByBitArray vs (Some bA)
    = Inr (Inr (map (\<lambda>i. ordered_nodes vs ! unat i) (filter (\<lambda>i. unat i \<in> ba_bits bA) (range_u32 (Bits bA)))))"
  using assms NodeListByBitArray_fold [of "range_u32 (Bits bA)" "Some bA" "\<lambda>i. unat i \<in> ba_bits bA" vs "[]"]
  unfolding NodeListByBitArray_def sorted_of_wf [OF assms(3)]
  by (auto simp: Size_def GetIndex_def getIndex_wf Len_vs_def)

end
