(* ===== verification/Rules.thy ===== *)
theory Rules
  imports Validators
begin

text \<open>
  The safety rules for received messages (\<open>consensus/pbft/rules/safety_rules.go\<close>) and the vote rules
  for own messages (\<open>rules/vote_rules.go\<close>).  The rules read the view state, the block tree, the
  configured amount of blocks per view, the validator pool and the clock (nanoseconds), which are
  arguments here.  A rule returns no error or a \<open>SafetyError\<close>; only the fixed part of an error text is
  kept.  \<open>PrepareVoteRules\<close> and \<open>PreCommitRules\<close> run the same checks on messages of the same shape, so
  they share \<open>vote_checks\<close>.
\<close>

section \<open>Errors\<close>

datatype safetyError = CommonError string | FetchError string | ViewError string
  | FetchPrepareError string | PlainError string

fun Common :: "safetyError \<Rightarrow> bool" where "Common (CommonError _) = True" | "Common _ = False"
fun Fetch :: "safetyError \<Rightarrow> bool" where "Fetch (FetchError _) = True" | "Fetch _ = False"
fun NewView :: "safetyError \<Rightarrow> bool" where "NewView (ViewError _) = True" | "NewView _ = False"
fun FetchPrepare :: "safetyError \<Rightarrow> bool" where "FetchPrepare (FetchPrepareError _) = True" | "FetchPrepare _ = False"

text \<open>Short-circuit conditions whose operands may panic.\<close>

definition go_and :: "bool go \<Rightarrow> bool go \<Rightarrow> bool go" where
  "go_and a b = go_bind a (\<lambda>x. if x then b else Inr False)"

definition go_or :: "bool go \<Rightarrow> bool go \<Rightarrow> bool go" where
  "go_or a b = go_bind a (\<lambda>x. if x then Inr True else b)"

lemma go_and_or_simps [simp]: "go_and (Inr x) b = (if x then b else Inr False)"
  "go_or (Inr x) b = (if x then Inr True else b)" "go_and (Inl e) b = Inl e" "go_or (Inl e) b = Inl e"
  by (simp_all add: go_and_def go_or_def)

section \<open>Rules for proposed blocks\<close>

definition isCommitChild :: "viewState \<Rightarrow> blockTree \<Rightarrow> prepareBlock \<Rightarrow> bool go" where
  "isCommitChild vs bt pb =
     (case FindBlockByHash bt (blk_ParentHash (pb_Block pb)) of None \<Rightarrow> Inr False
      | Some parent \<Rightarrow> go_map (\<lambda>h. blk_Number parent = blk_Number h) (HighestPreCommitQCBlock vs))"

definition isLockChild :: "viewState \<Rightarrow> blockTree \<Rightarrow> prepareBlock \<Rightarrow> bool go" where
  "isLockChild vs bt pb =
     go_map (\<lambda>lock. blk_Number (pb_Block pb) = blk_Number lock + 1 \<and> blk_ParentHash (pb_Block pb) = blk_Hash lock
         \<and> FindBlockByHash bt (blk_ParentHash (pb_Block pb)) \<noteq> None)
       (HighestLockBlock vs)"

definition acceptViewChangeQC :: "u32 \<Rightarrow> viewState \<Rightarrow> validatorPool \<Rightarrow> prepareBlock \<Rightarrow> bool" where
  "acceptViewChangeQC amount vs vp pb =
     (case pb_ViewChangeQC pb of
        None \<Rightarrow> amount = MaxQCIndex vs + 1 \<or> EqualSwitchPoint vp (blk_Number (pb_Block pb) - 1)
      | Some vc \<Rightarrow> (case MaxBlock vc of (_, _, _, _, hash, number) \<Rightarrow>
           number + 1 = blk_Number (pb_Block pb) \<and> blk_ParentHash (pb_Block pb) = hash))"

definition riseTimeLimit :: int where "riseTimeLimit = 1000 * 1000000"

definition acceptBlockTime :: "int \<Rightarrow> blockTree \<Rightarrow> prepareBlock \<Rightarrow> safetyError option" where
  "acceptBlockTime now bt pb =
     (case FindBlockByHash bt (blk_ParentHash (pb_Block pb)) of
        None \<Rightarrow> Some (CommonError ''parentBlock does not exist'')
      | Some parent \<Rightarrow>
          if blk_Time parent > blk_Time (pb_Block pb) then Some (CommonError ''prepareBlock time is before parent'')
          else if blk_Time (pb_Block pb) > word_of_int ((now + riseTimeLimit) div 1000000)
          then Some (CommonError ''prepareBlock time is advance'') else None)"

definition doubtDuplicate_pb :: "viewState \<Rightarrow> prepareBlock \<Rightarrow> bool" where
  "doubtDuplicate_pb vs pb =
     (case ViewBlockByIndex (blk_Number (pb_Block pb)) vs of None \<Rightarrow> False
      | Some b \<Rightarrow> blk_Number b = blk_Number (pb_Block pb) \<and> blk_Hash b \<noteq> blk_Hash (pb_Block pb))"

definition acceptIndexBlock :: "int \<Rightarrow> u32 \<Rightarrow> viewState \<Rightarrow> blockTree \<Rightarrow> prepareBlock \<Rightarrow> safetyError option go" where
  "acceptIndexBlock now amount vs bt pb =
     (if pb_BlockIndex pb \<ge> amount then Inr (Some (CommonError ''blockIndex higher than amount''))
      else if doubtDuplicate_pb vs pb then Inr None
      else if ViewBlockByIndex (blk_Number (pb_Block pb)) vs \<noteq> None then Inr (Some (CommonError ''blockNum already exists''))
      else if pb_BlockIndex pb = 0
      then go_map (\<lambda>child. if \<not> child then Some (CommonError ''the first index block is not contiguous'') else acceptBlockTime now bt pb)
             (go_or (isCommitChild vs bt pb) (isLockChild vs bt pb))
      else Inr (acceptBlockTime now bt pb))"

definition changeEpochBlockRules :: "u32 \<Rightarrow> viewState \<Rightarrow> blockTree \<Rightarrow> validatorPool \<Rightarrow> prepareBlock \<Rightarrow> safetyError option go" where
  "changeEpochBlockRules amount vs bt vp pb =
     (if v_epoch vs > pb_Epoch pb then Inr (Some (CommonError ''epoch too low''))
      else go_map (\<lambda>new. if new then Some (ViewError ''new epoch, need change view'')
          else if fst (FindBlockAndQC bt (blk_ParentHash (pb_Block pb)) (blk_Number (pb_Block pb) - 1)) = None
          then Some (CommonError ''epoch higher than local, but not find parent block'')
          else Some (FetchError ''epoch higher than local''))
        (go_and (Inr (pb_BlockIndex pb = 0 \<and> acceptViewChangeQC amount vs vp pb)) (isCommitChild vs bt pb)))"

definition PrepareBlockRules :: "int \<Rightarrow> u32 \<Rightarrow> viewState \<Rightarrow> blockTree \<Rightarrow> validatorPool \<Rightarrow> prepareBlock \<Rightarrow> safetyError option go" where
  "PrepareBlockRules now amount vs bt vp pb =
     (let number = blk_Number (pb_Block pb) in
      if v_epoch vs \<noteq> pb_Epoch pb then changeEpochBlockRules amount vs bt vp pb
      else if v_blockNumber vs > number then Inr (Some (CommonError ''BlockNumber too low''))
      else if v_blockNumber vs < number \<and> number > 1
          \<and> fst (FindBlockAndQC bt (blk_ParentHash (pb_Block pb)) (number - 1)) = None
      then Inr (Some (FetchError ''BlockNumber higher than local''))
      else if v_viewNumber vs > pb_ViewNumber pb then Inr (Some (CommonError ''viewNumber too low''))
      else if v_viewNumber vs < pb_ViewNumber pb
      then go_map (\<lambda>new. if new then Some (ViewError ''need change view'') else Some (FetchError ''viewNumber higher than local''))
             (go_and (go_or (isCommitChild vs bt pb) (isLockChild vs bt pb)) (Inr (acceptViewChangeQC amount vs vp pb)))
      else go_map (\<lambda>err. case err of Some e \<Rightarrow> Some e
             | None \<Rightarrow> if IsDeadline now vs then Some (CommonError ''view's deadline is expire'') else None)
             (acceptIndexBlock now amount vs bt pb))"

section \<open>Rules for votes\<close>

definition existsPrepare :: "viewState \<Rightarrow> u64 \<Rightarrow> hash \<Rightarrow> bool" where
  "existsPrepare vs number hash =
     (case ViewBlockByIndex number vs of None \<Rightarrow> False | Some b \<Rightarrow> blk_Number b = number \<and> blk_Hash b = hash)"

text \<open>\<open>local\<close> is the block number and hash of the message already stored for the validator.\<close>

definition acceptIndexVote :: "u32 \<Rightarrow> viewState \<Rightarrow> u64 \<Rightarrow> hash \<Rightarrow> u32 \<Rightarrow> (u64 \<times> hash) option \<Rightarrow> safetyError option" where
  "acceptIndexVote amount vs number hash index local =
     (if index \<ge> amount then Some (CommonError ''voteIndex higher than amount'')
      else if (case local of None \<Rightarrow> False | Some (n, h) \<Rightarrow> n = number \<and> h \<noteq> hash) then None
      else if local \<noteq> None then Some (CommonError ''vote has exist'')
      else if \<not> existsPrepare vs number hash then Some (FetchPrepareError ''current index block not existed'')
      else None)"

definition vote_checks :: "int \<Rightarrow> u32 \<Rightarrow> viewState \<Rightarrow> blockTree \<Rightarrow> u64 \<Rightarrow> u64 \<Rightarrow> hash \<Rightarrow> u64 \<Rightarrow> u32 \<Rightarrow> quorumCert option
    \<Rightarrow> (u64 \<times> hash) option \<Rightarrow> safetyError option go" where
  "vote_checks now amount vs bt epoch view hash number index parentQC local =
     go_bind (go_or (Inr (FindBlockByHash bt hash \<noteq> None)) (go_map (\<lambda>h. number \<le> blk_Number h) (HighestPreCommitQCBlock vs)))
       (\<lambda>already.
        if already then Inr (Some (CommonError ''current index block is already qc block''))
        else if v_epoch vs \<noteq> epoch
        then if v_epoch vs > epoch then Inr (Some (CommonError ''epoch too low''))
             else Inr (Some (FetchError ''new epoch, need fetch blocks''))
        else if v_blockNumber vs > number then Inr (Some (CommonError ''BlockNumber too low''))
        else go_bind (go_and (Inr (v_blockNumber vs < number \<and> number > 1))
               (go_map (\<lambda>qc. fst (FindBlockAndQC bt (q_BlockHash qc) (number - 1)) = None) (go_deref parentQC)))
             (\<lambda>far.
              if far then Inr (Some (FetchError ''BlockNumber higher than local''))
              else if v_viewNumber vs > view then Inr (Some (CommonError ''viewNumber too low''))
              else if v_viewNumber vs < view then Inr (Some (CommonError ''viewNumber higher than local''))
              else case acceptIndexVote amount vs number hash index local of Some e \<Rightarrow> Inr (Some e)
                | None \<Rightarrow> Inr (if IsDeadline now vs then Some (CommonError ''view's deadline is expire'') else None)))"

definition PrepareVoteRules :: "int \<Rightarrow> u32 \<Rightarrow> viewState \<Rightarrow> blockTree \<Rightarrow> prepareVote \<Rightarrow> safetyError option go" where
  "PrepareVoteRules now amount vs bt vote =
     vote_checks now amount vs bt (pv_Epoch vote) (pv_ViewNumber vote) (pv_BlockHash vote) (pv_BlockNumber vote)
       (pv_BlockIndex vote) (pv_ParentQC vote)
       (map_option (\<lambda>l. (pv_BlockNumber l, pv_BlockHash l)) (FindPrepareVote (pv_BlockNumber vote) (pv_ValidatorIndex vote) vs))"

definition PreCommitRules :: "int \<Rightarrow> u32 \<Rightarrow> viewState \<Rightarrow> blockTree \<Rightarrow> preCommit \<Rightarrow> safetyError option go" where
  "PreCommitRules now amount vs bt vote =
     vote_checks now amount vs bt (pc_Epoch vote) (pc_ViewNumber vote) (pc_BlockHash vote) (pc_BlockNumber vote)
       (pc_BlockIndex vote) (pc_ParentQC vote)
       (map_option (\<lambda>l. (pc_BlockNumber l, pc_BlockHash l)) (FindPreCommit (pc_BlockNumber vote) (pc_ValidatorIndex vote) vs))"

section \<open>Rules for view changes and certified blocks\<close>

definition ViewChangeRules :: "viewState \<Rightarrow> blockTree \<Rightarrow> viewChange \<Rightarrow> safetyError option go" where
  "ViewChangeRules vs bt vc =
     (if v_epoch vs \<noteq> vc_Epoch vc
      then if v_epoch vs > vc_Epoch vc then Inr (Some (CommonError ''epoch too low''))
           else Inr (Some (FetchError ''new epoch, need fetch blocks''))
      else go_bind (HighestCommitBlock vs) (\<lambda>commit.
        if blk_Number commit > vc_BlockNumber vc then Inr (Some (CommonError ''BlockNumber too low''))
        else go_bind (go_and (Inr (blk_Number commit < vc_BlockNumber vc \<and> vc_BlockNumber vc > 0))
               (go_map (\<lambda>qc. fst (FindBlockAndQC bt (q_BlockHash qc) (vc_BlockNumber vc)) = None) (go_deref (vc_PrepareQC vc))))
             (\<lambda>far.
              if far then Inr (Some (FetchError ''BlockNumber higher than local''))
              else if v_viewNumber vs > vc_ViewNumber vc then Inr (Some (CommonError ''viewNumber too low''))
              else if v_viewNumber vs < vc_ViewNumber vc then Inr (Some (CommonError ''viewNumber higher than local''))
              else Inr None)))"

definition QCBlockRules :: "viewState \<Rightarrow> blockTree \<Rightarrow> block \<Rightarrow> quorumCert \<Rightarrow> safetyError option" where
  "QCBlockRules vs bt b qc =
     (if FindBlockByHash bt (blk_ParentHash b) = None then Some (PlainError ''not find parent qc block'')
      else if v_epoch vs + 1 = q_Epoch qc then Some (ViewError ''need change view'') else None)"

section \<open>Rules for own votes\<close>

definition AllowVote :: "prepareVote \<Rightarrow> viewState \<Rightarrow> string option" where
  "AllowVote vote vs =
     (if v_blockNumber vs \<noteq> pv_BlockNumber vote \<or> v_viewNumber vs \<noteq> pv_ViewNumber vote then Some ''view differs''
      else if HadSendPreVote vote vs then Some ''HadSendPreVote'' else None)"

definition AllowPreCommit :: "preCommit \<Rightarrow> viewState \<Rightarrow> string option" where
  "AllowPreCommit vote vs =
     (if v_blockNumber vs \<noteq> pc_BlockNumber vote \<or> v_viewNumber vs \<noteq> pc_ViewNumber vote then Some ''view differs''
      else if HadSendPreCommit vote vs then Some ''HadSendPreCommit'' else None)"

section \<open>What the vote rules accept\<close>

definition local_conflict :: "u64 \<Rightarrow> hash \<Rightarrow> (u64 \<times> hash) option \<Rightarrow> bool" where
  "local_conflict number hash local = (\<exists>h. local = Some (number, h) \<and> h \<noteq> hash)"

lemma acceptIndexVote_None:
  "acceptIndexVote amount vs number hash index local = None \<longleftrightarrow>
    index < amount \<and> (local_conflict number hash local \<or> local = None \<and> existsPrepare vs number hash)"
  by (cases "local") (auto simp: acceptIndexVote_def local_conflict_def not_le split: prod.splits)

definition far_ok :: "viewState \<Rightarrow> blockTree \<Rightarrow> u64 \<Rightarrow> quorumCert option \<Rightarrow> bool" where
  "far_ok vs bt number parentQC \<longleftrightarrow> (v_blockNumber vs < number \<and> 1 < number \<longrightarrow>
     (\<exists>qc. parentQC = Some qc \<and> fst (FindBlockAndQC bt (q_BlockHash qc) (number - 1)) \<noteq> None))"

lemma vote_checks_None:
  assumes "vs_highestPreCommitQCBlock vs = Some h"
  shows "vote_checks now amount vs bt epoch view hash number index parentQC local = Inr None \<longleftrightarrow>
    FindBlockByHash bt hash = None \<and> blk_Number h < number \<and> v_epoch vs = epoch \<and> v_viewNumber vs = view
    \<and> v_blockNumber vs \<le> number \<and> far_ok vs bt number parentQC \<and> \<not> IsDeadline now vs
    \<and> acceptIndexVote amount vs number hash index local = None"
  using assms
  by (cases parentQC; cases "acceptIndexVote amount vs number hash index local")
    (auto simp: vote_checks_def HighestPreCommitQCBlock_def load_highest_def go_deref_def far_ok_def not_le not_less antisym_conv3)

lemma vote_checks_Inl:
  assumes "vs_highestPreCommitQCBlock vs = Some h"
  shows "vote_checks now amount vs bt epoch view hash number index parentQC local = Inl e \<longleftrightarrow>
    e = NilDeref \<and> parentQC = None \<and> FindBlockByHash bt hash = None \<and> blk_Number h < number \<and> v_epoch vs = epoch
    \<and> v_blockNumber vs < number \<and> 1 < number"
  using assms
  by (cases parentQC; cases "acceptIndexVote amount vs number hash index local")
    (auto simp: vote_checks_def HighestPreCommitQCBlock_def load_highest_def go_deref_def not_le not_less)

lemma existsPrepare_wf: "wf_view vs \<Longrightarrow> existsPrepare vs n h \<longleftrightarrow> (\<exists>b. ViewBlockByIndex n vs = Some b \<and> blk_Hash b = h)"
  using ViewBlockByIndex_number [of vs n] by (auto simp: existsPrepare_def split: option.splits)

text \<open>C17: \<open>PrepareVoteRules\<close> accepts a vote exactly if its block is not certified yet, its epoch and view
  are the local ones, its number is not below the local one (with a known parent if it is above), its
  index is in range, the view has not expired, and either the validator has a stored vote for another
  block of that height (left to the evidence check) or it has none and the voted block is the one stored
  for that height.\<close>
theorem PrepareVoteRules_accepts:
  assumes "wf_view vs" "vs_highestPreCommitQCBlock vs = Some h"
  shows "PrepareVoteRules now amount vs bt v = Inr None \<longleftrightarrow>
    FindBlockByHash bt (pv_BlockHash v) = None \<and> blk_Number h < pv_BlockNumber v
    \<and> v_epoch vs = pv_Epoch v \<and> v_viewNumber vs = pv_ViewNumber v \<and> v_blockNumber vs \<le> pv_BlockNumber v
    \<and> (v_blockNumber vs < pv_BlockNumber v \<and> 1 < pv_BlockNumber v \<longrightarrow>
         (\<exists>qc. pv_ParentQC v = Some qc \<and> fst (FindBlockAndQC bt (q_BlockHash qc) (pv_BlockNumber v - 1)) \<noteq> None))
    \<and> pv_BlockIndex v < amount \<and> \<not> IsDeadline now vs
    \<and> (case FindPrepareVote (pv_BlockNumber v) (pv_ValidatorIndex v) vs of
         Some l \<Rightarrow> pv_BlockHash l \<noteq> pv_BlockHash v
       | None \<Rightarrow> (\<exists>b. ViewBlockByIndex (pv_BlockNumber v) vs = Some b \<and> blk_Hash b = pv_BlockHash v))"
  unfolding PrepareVoteRules_def vote_checks_None [OF assms(2)] acceptIndexVote_None far_ok_def
    existsPrepare_wf [OF assms(1)] local_conflict_def
  using FindPrepareVote_number [OF assms(1), of "pv_BlockNumber v" "pv_ValidatorIndex v"]
  by (cases "FindPrepareVote (pv_BlockNumber v) (pv_ValidatorIndex v) vs") auto

text \<open>\<open>PreCommitRules\<close> accepts a pre-commit under the same conditions, against the stored
  pre-commits.\<close>
theorem PreCommitRules_accepts:
  assumes "wf_view vs" "vs_highestPreCommitQCBlock vs = Some h"
  shows "PreCommitRules now amount vs bt v = Inr None \<longleftrightarrow>
    FindBlockByHash bt (pc_BlockHash v) = None \<and> blk_Number h < pc_BlockNumber v
    \<and> v_epoch vs = pc_Epoch v \<and> v_viewNumber vs = pc_ViewNumber v \<and> v_blockNumber vs \<le> pc_BlockNumber v
    \<and> (v_blockNumber vs < pc_BlockNumber v \<and> 1 < pc_BlockNumber v \<longrightarrow>
         (\<exists>qc. pc_ParentQC v = Some qc \<and> fst (FindBlockAndQC bt (q_BlockHash qc) (pc_BlockNumber v - 1)) \<noteq> None))
    \<and> pc_BlockIndex v < amount \<and> \<not> IsDeadline now vs
    \<and> (case FindPreCommit (pc_BlockNumber v) (pc_ValidatorIndex v) vs of
         Some l \<Rightarrow> pc_BlockHash l \<noteq> pc_BlockHash v
       | None \<Rightarrow> (\<exists>b. ViewBlockByIndex (pc_BlockNumber v) vs = Some b \<and> blk_Hash b = pc_BlockHash v))"
  unfolding PreCommitRules_def vote_checks_None [OF assms(2)] acceptIndexVote_None far_ok_def
    existsPrepare_wf [OF assms(1)] local_conflict_def
  using FindPreCommit_number [OF assms(1), of "pc_BlockNumber v" "pc_ValidatorIndex v"]
  by (cases "FindPreCommit (pc_BlockNumber v) (pc_ValidatorIndex v) vs") auto

text \<open>C20: Once the highest blocks are set, the rules for votes, pre-commits and view changes panic exactly
  when a message of the local epoch for a height above the local one carries no certificate: the rules
  dereference \<open>ParentQC\<close> and \<open>PrepareQC\<close>, which a peer may leave out, before anything checks them.\<close>
theorem vote_rules_panic:
  assumes "vs_highestPreCommitQCBlock vs = Some h" "vs_highestCommitBlock vs = Some c"
  shows "(PrepareVoteRules now amount vs bt v = Inl e \<longleftrightarrow>
      e = NilDeref \<and> pv_ParentQC v = None \<and> FindBlockByHash bt (pv_BlockHash v) = None \<and> blk_Number h < pv_BlockNumber v
      \<and> v_epoch vs = pv_Epoch v \<and> v_blockNumber vs < pv_BlockNumber v \<and> 1 < pv_BlockNumber v)
    \<and> (PreCommitRules now amount vs bt p = Inl e \<longleftrightarrow>
      e = NilDeref \<and> pc_ParentQC p = None \<and> FindBlockByHash bt (pc_BlockHash p) = None \<and> blk_Number h < pc_BlockNumber p
      \<and> v_epoch vs = pc_Epoch p \<and> v_blockNumber vs < pc_BlockNumber p \<and> 1 < pc_BlockNumber p)
    \<and> (ViewChangeRules vs bt vc = Inl e \<longleftrightarrow>
      e = NilDeref \<and> vc_PrepareQC vc = None \<and> v_epoch vs = vc_Epoch vc \<and> blk_Number c < vc_BlockNumber vc)"
proof -
  have "ViewChangeRules vs bt vc = Inl e \<longleftrightarrow>
      e = NilDeref \<and> vc_PrepareQC vc = None \<and> v_epoch vs = vc_Epoch vc \<and> blk_Number c < vc_BlockNumber vc"
    using assms(2)
    by (cases "vc_PrepareQC vc") (auto simp: ViewChangeRules_def HighestCommitBlock_def load_highest_def go_deref_def word_gt_0)
  then show ?thesis unfolding PrepareVoteRules_def PreCommitRules_def vote_checks_Inl [OF assms(1)] by simp
qed

abbreviation rules_view :: viewState where
  "rules_view \<equiv> SetHighestCommitBlock genesis (SetHighestPreCommitQCBlock genesis (NewViewState 0 10000))"

abbreviation block5 :: block where
  "block5 \<equiv> \<lparr>blk_Hash = 7, blk_Number = 5, blk_ParentHash = 6, blk_Time = 0, blk_Rlp = []\<rparr>"

abbreviation voting_view :: viewState where
  "voting_view \<equiv> (AddQCBlock block5 (qc_example 1) rules_view)\<lparr>v_epoch := 1, v_blockNumber := 5\<rparr>"

lemma voting_view_facts:
  "wf_view voting_view" "vs_highestPreCommitQCBlock voting_view = Some genesis"
  "ViewBlockByIndex 5 voting_view = Some block5" "FindPrepareVote 5 2 voting_view = None" "FindPreCommit 5 2 voting_view = None"
  "v_epoch voting_view = 1" "v_viewNumber voting_view = 0" "v_blockNumber voting_view = 5" "\<not> IsDeadline 0 voting_view"
  using wf_view_ops(2) [OF wf_NewViewState [of 0 10000], of block5 "qc_example 1"]
  by (simp_all add: wf_view_def view_op_defs NewViewState_def newView_def view.defs ViewBlockByIndex_def vb_index_def
      addBlock_def newViewBlocks_def vb_number_def ViewCacheLen_def FindPrepareVote_def FindPreCommit_def IsDeadline_def
      isDeadline_def newViewTimer_def gset_def gget_def)

theorem PrepareVoteRules_accepts_witness: "PrepareVoteRules 0 1 voting_view genesis_tree pv_example = Inr None"
proof -
  have "FindBlockByHash genesis_tree 7 = None" by (simp add: FindBlockByHash_def)
  then show ?thesis
    using PrepareVoteRules_accepts [OF voting_view_facts(1,2), of 0 1 genesis_tree pv_example]
    by (simp add: voting_view_facts del: view.update_defs)
qed

theorem PreCommitRules_accepts_witness: "PreCommitRules 0 1 voting_view genesis_tree pc_example = Inr None"
proof -
  have "FindBlockByHash genesis_tree 7 = None" by (simp add: FindBlockByHash_def)
  then show ?thesis
    using PreCommitRules_accepts [OF voting_view_facts(1,2), of 0 1 genesis_tree pc_example]
    by (simp add: voting_view_facts del: view.update_defs)
qed

theorem vote_rules_panic_witness:
  "PrepareVoteRules 0 1 (rules_view\<lparr>v_epoch := 1\<rparr>) genesis_tree pv_example = Inl NilDeref"
proof -
  have "FindBlockByHash genesis_tree 7 = None" by (simp add: FindBlockByHash_def)
  then show ?thesis
    using vote_rules_panic [of "rules_view\<lparr>v_epoch := 1\<rparr>" genesis genesis 0 1 genesis_tree pv_example NilDeref]
    by (simp add: view_op_defs NewViewState_def newView_def view.defs)
qed

section \<open>What the rules for proposed blocks accept\<close>

definition child_ok :: "viewState \<Rightarrow> blockTree \<Rightarrow> block \<Rightarrow> bool" where
  "child_ok vs bt b \<longleftrightarrow> (\<exists>p h l. FindBlockByHash bt (blk_ParentHash b) = Some p
     \<and> vs_highestPreCommitQCBlock vs = Some h \<and> vs_highestLockBlock vs = Some l
     \<and> (blk_Number p = blk_Number h \<or> blk_Number b = blk_Number l + 1 \<and> blk_ParentHash b = blk_Hash l))"

lemma child_or:
  assumes "vs_highestPreCommitQCBlock vs = Some h" "vs_highestLockBlock vs = Some l"
  shows "go_or (isCommitChild vs bt pb) (isLockChild vs bt pb) = Inr (child_ok vs bt (pb_Block pb))"
  using assms
  by (cases "FindBlockByHash bt (blk_ParentHash (pb_Block pb))")
    (auto simp: isCommitChild_def isLockChild_def child_ok_def HighestPreCommitQCBlock_def HighestLockBlock_def load_highest_def)

definition time_ok :: "int \<Rightarrow> blockTree \<Rightarrow> block \<Rightarrow> bool" where
  "time_ok now bt b \<longleftrightarrow> (\<exists>p. FindBlockByHash bt (blk_ParentHash b) = Some p \<and> blk_Time p \<le> blk_Time b
     \<and> blk_Time b \<le> word_of_int ((now + riseTimeLimit) div 1000000))"

lemma acceptBlockTime_None: "acceptBlockTime now bt pb = None \<longleftrightarrow> time_ok now bt (pb_Block pb)"
  by (auto simp: acceptBlockTime_def time_ok_def not_less split: option.splits)

lemma acceptIndexBlock_None:
  assumes "wf_view vs" "vs_highestPreCommitQCBlock vs = Some h" "vs_highestLockBlock vs = Some l"
  shows "acceptIndexBlock now amount vs bt pb = Inr None \<longleftrightarrow> pb_BlockIndex pb < amount
    \<and> (case ViewBlockByIndex (blk_Number (pb_Block pb)) vs of
         Some b \<Rightarrow> blk_Hash b \<noteq> blk_Hash (pb_Block pb)
       | None \<Rightarrow> (pb_BlockIndex pb = 0 \<longrightarrow> child_ok vs bt (pb_Block pb)) \<and> time_ok now bt (pb_Block pb))"
  using ViewBlockByIndex_number [OF assms(1), of "blk_Number (pb_Block pb)"]
  by (cases "ViewBlockByIndex (blk_Number (pb_Block pb)) vs")
    (auto simp: acceptIndexBlock_def doubtDuplicate_pb_def child_or [OF assms(2,3)] acceptBlockTime_None word_gt_0)

lemma acceptIndexBlock_Inr:
  assumes "vs_highestPreCommitQCBlock vs = Some h" "vs_highestLockBlock vs = Some l"
  shows "\<exists>r. acceptIndexBlock now amount vs bt pb = Inr r \<and> (\<forall>s. r \<noteq> Some (ViewError s))"
  by (auto simp: acceptIndexBlock_def child_or [OF assms] acceptBlockTime_def split: option.splits)


abbreviation pb_example :: prepareBlock where
  "pb_example \<equiv> \<lparr>pb_Epoch = 0, pb_ViewNumber = 0, pb_Block = block1, pb_BlockIndex = 0, pb_ProposalIndex = 0,
     pb_PrepareQC = None, pb_ViewChangeQC = None, pb_Signature = []\<rparr>"


text \<open>C19: A proposal makes the node change its view only if it is ahead of the local epoch or view, its
  parent is in the tree, and it is backed: it extends the highest block of its view-change certificate,
  or carries none and the current view is complete or ends an epoch.\<close>
theorem PrepareBlockRules_new_view:
  assumes "vs_highestPreCommitQCBlock vs = Some h" "vs_highestLockBlock vs = Some l"
    and "PrepareBlockRules now amount vs bt vp pb = Inr (Some (ViewError s))"
  shows "(v_epoch vs < pb_Epoch pb \<or> v_epoch vs = pb_Epoch pb \<and> v_viewNumber vs < pb_ViewNumber pb)
    \<and> FindBlockByHash bt (blk_ParentHash (pb_Block pb)) \<noteq> None
    \<and> (case pb_ViewChangeQC pb of
         Some vc \<Rightarrow> (\<exists>q1 q2 q3 q4 n. MaxBlock vc = (q1, q2, q3, q4, blk_ParentHash (pb_Block pb), n) \<and> n + 1 = blk_Number (pb_Block pb))
       | None \<Rightarrow> amount = MaxQCIndex vs + 1 \<or> EqualSwitchPoint vp (blk_Number (pb_Block pb) - 1))"
proof -
  have acc: "acceptViewChangeQC amount vs vp pb \<longleftrightarrow> (case pb_ViewChangeQC pb of
         Some vc \<Rightarrow> (\<exists>q1 q2 q3 q4 n. MaxBlock vc = (q1, q2, q3, q4, blk_ParentHash (pb_Block pb), n) \<and> n + 1 = blk_Number (pb_Block pb))
       | None \<Rightarrow> amount = MaxQCIndex vs + 1 \<or> EqualSwitchPoint vp (blk_Number (pb_Block pb) - 1))"
    by (auto simp: acceptViewChangeQC_def split: option.splits prod.splits)
  obtain r where r: "acceptIndexBlock now amount vs bt pb = Inr r" "\<And>s. r \<noteq> Some (ViewError s)"
    using acceptIndexBlock_Inr [OF assms(1,2)] by blast
  show ?thesis
  proof (cases "v_epoch vs = pb_Epoch pb")
    case True
    then have "v_viewNumber vs < pb_ViewNumber pb \<and> child_ok vs bt (pb_Block pb) \<and> acceptViewChangeQC amount vs vp pb"
      using assms(3) r(2) unfolding PrepareBlockRules_def child_or [OF assms(1,2)] Let_def r(1)
      by (auto split: if_splits option.splits)
    then show ?thesis using True acc by (auto simp: child_ok_def)
  next
    case False
    then have "v_epoch vs < pb_Epoch pb \<and> acceptViewChangeQC amount vs vp pb
        \<and> FindBlockByHash bt (blk_ParentHash (pb_Block pb)) \<noteq> None"
      using assms(1,3) by (auto simp: PrepareBlockRules_def changeEpochBlockRules_def Let_def isCommitChild_def
          split: if_splits option.splits)
    then show ?thesis using acc by blast
  qed
qed

theorem PrepareBlockRules_new_view_witness:
  "PrepareBlockRules 0 0 (SetHighestLockBlock genesis rules_view) genesis_tree pool_example (pb_example\<lparr>pb_ViewNumber := 1\<rparr>)
     = Inr (Some (ViewError ''need change view''))
   \<and> FindBlockByHash genesis_tree (blk_ParentHash (pb_Block (pb_example\<lparr>pb_ViewNumber := 1\<rparr>))) \<noteq> None"
proof -
  let ?vs = "SetHighestLockBlock genesis rules_view"
  have f: "FindBlockByHash genesis_tree 100 = Some genesis" by (simp add: FindBlockByHash_def new_ext_def)
  have "PrepareBlockRules 0 0 ?vs genesis_tree pool_example (pb_example\<lparr>pb_ViewNumber := 1\<rparr>) = Inr (Some (ViewError ''need change view''))"
    by (simp add: PrepareBlockRules_def Let_def isCommitChild_def f HighestPreCommitQCBlock_def load_highest_def
        acceptViewChangeQC_def MaxQCIndex_def view_op_defs NewViewState_def newView_def view.defs newViewQCs_def)
  then show ?thesis
    using PrepareBlockRules_new_view [of ?vs genesis genesis 0 0 genesis_tree pool_example "pb_example\<lparr>pb_ViewNumber := 1\<rparr>"
        "''need change view''"] by (simp add: view_op_defs)
qed

end
