(* ===== verification/MsgPool.thy ===== *)
theory MsgPool
  imports Protocols
begin

text \<open>
  Messages on their way to the engine: the interface \<open>ConsensusMsg\<close> and \<open>MsgInfo\<close>
  (\<open>consensus/pbft/types/message.go\<close>), the cache of synchronisation requests and the pool of consensus
  messages that arrived early (\<open>types/cache.go\<close>).  The pool is a map of epochs to a map of block numbers
  to a \<open>viewCache\<close>; a getter removes what it returns, which the locale \<open>take_once\<close> states and the
  message kinds of a \<open>viewCache\<close> are shown to satisfy (except pre-commit certificates).
\<close>

section \<open>Consensus messages\<close>

datatype consensusMsg = CPrepareBlock prepareBlock | CPrepareVote prepareVote | CPreCommit preCommit | CViewChange viewChange

fun EpochNum :: "consensusMsg \<Rightarrow> u64" where
  "EpochNum (CPrepareBlock m) = pb_Epoch m"
| "EpochNum (CPrepareVote m) = pv_Epoch m"
| "EpochNum (CPreCommit m) = pc_Epoch m"
| "EpochNum (CViewChange m) = vc_Epoch m"

fun BlockNum :: "consensusMsg \<Rightarrow> u64" where
  "BlockNum (CPrepareBlock m) = blk_Number (pb_Block m)"
| "BlockNum (CPrepareVote m) = pv_BlockNumber m"
| "BlockNum (CPreCommit m) = pc_BlockNumber m"
| "BlockNum (CViewChange m) = vc_BlockNumber m"

fun NodeIndex :: "consensusMsg \<Rightarrow> u32" where
  "NodeIndex (CPrepareBlock m) = pb_ProposalIndex m"
| "NodeIndex (CPrepareVote m) = pv_ValidatorIndex m"
| "NodeIndex (CPreCommit m) = pc_ValidatorIndex m"
| "NodeIndex (CViewChange m) = vc_ValidatorIndex m"

fun Sign :: "consensusMsg \<Rightarrow> bytes" where
  "Sign (CPrepareBlock m) = Bytes_sig (pb_Signature m)"
| "Sign (CPrepareVote m) = Bytes_sig (pv_Signature m)"
| "Sign (CPreCommit m) = Bytes_sig (pc_Signature m)"
| "Sign (CViewChange m) = Bytes_sig (vc_Signature m)"

fun CannibalizeBytes :: "(bytes \<Rightarrow> bytes) \<Rightarrow> consensusMsg \<Rightarrow> (rlp_err + bytes) go" where
  "CannibalizeBytes keccak (CPrepareBlock m) = CannibalizeBytes_pb keccak m"
| "CannibalizeBytes keccak (CPrepareVote m) = CannibalizeBytes_pv keccak m"
| "CannibalizeBytes keccak (CPreCommit m) = CannibalizeBytes_pc keccak m"
| "CannibalizeBytes keccak (CViewChange m) = CannibalizeBytes_vc keccak m"

text \<open>The type assertion \<open>msg.(ConsensusMsg)\<close>.\<close>

fun as_ConsensusMsg :: "message \<Rightarrow> consensusMsg option" where
  "as_ConsensusMsg (MPrepareBlock m) = Some (CPrepareBlock m)"
| "as_ConsensusMsg (MPrepareVote m) = Some (CPrepareVote m)"
| "as_ConsensusMsg (MPreCommit m) = Some (CPreCommit m)"
| "as_ConsensusMsg (MViewChange m) = Some (CViewChange m)"
| "as_ConsensusMsg _ = None"

record msgInfo =
  mi_Msg :: message
  mi_PeerID :: string
  mi_Inner :: bool

definition NewMsgInfo :: "message \<Rightarrow> string \<Rightarrow> msgInfo" where
  "NewMsgInfo m peer = \<lparr>mi_Msg = m, mi_PeerID = peer, mi_Inner = False\<rparr>"

definition NewInnerMsgInfo :: "message \<Rightarrow> string \<Rightarrow> msgInfo" where
  "NewInnerMsgInfo m peer = \<lparr>mi_Msg = m, mi_PeerID = peer, mi_Inner = True\<rparr>"

section \<open>The cache of synchronisation requests\<close>

record 'k syncCache =
  sc_items :: "('k, int) gomap"
  sc_timeout :: int

definition NewSyncCache :: "int \<Rightarrow> 'k syncCache" where
  "NewSyncCache timeout = \<lparr>sc_items = [], sc_timeout = timeout\<rparr>"

definition Add_sc :: "int \<Rightarrow> 'k \<Rightarrow> 'k syncCache \<Rightarrow> 'k syncCache" where
  "Add_sc now v s = s\<lparr>sc_items := gset v now (sc_items s)\<rparr>"

definition AddOrReplace :: "int \<Rightarrow> 'k \<Rightarrow> 'k syncCache \<Rightarrow> bool \<times> 'k syncCache" where
  "AddOrReplace now v s =
     (if (case gget (sc_items s) v of None \<Rightarrow> False | Some t \<Rightarrow> now - t < sc_timeout s) then (False, s)
      else (True, s\<lparr>sc_items := gset v now (sc_items s)\<rparr>))"

definition Remove_sc :: "'k \<Rightarrow> 'k syncCache \<Rightarrow> 'k syncCache" where
  "Remove_sc v s = s\<lparr>sc_items := gdel v (sc_items s)\<rparr>"

definition Purge_sc :: "'k syncCache \<Rightarrow> 'k syncCache" where
  "Purge_sc s = s\<lparr>sc_items := []\<rparr>"

section \<open>Messages of one block number\<close>

type_synonym ('a) vmap = "(u32, (u32, 'a) gomap) gomap"

record viewCache =
  c_prepareBlocks :: "(u32, msgInfo) gomap"
  c_prepareVotes :: "msgInfo vmap"
  c_preCommits :: "msgInfo vmap"
  c_prepareQC :: "(u32, msgInfo) gomap"
  c_preCommitQC :: "(u32, msgInfo) gomap"
  c_blockMetric :: "(u32, u32) gomap"
  c_preCommitMetric :: "u32 vmap"
  c_voteMetric :: "u32 vmap"
  c_qcMetric :: "(u32, u32) gomap"
  c_preCommitQcMetric :: "(u32, u32) gomap"

definition newViewCache :: viewCache where
  "newViewCache = \<lparr>c_prepareBlocks = [], c_prepareVotes = [], c_preCommits = [], c_prepareQC = [], c_preCommitQC = [],
     c_blockMetric = [], c_preCommitMetric = [], c_voteMetric = [], c_qcMetric = [], c_preCommitQcMetric = []\<rparr>"

definition metric_of :: "(u32, u32) gomap \<Rightarrow> u32 \<Rightarrow> u32" where
  "metric_of m i = (case gget m i of Some n \<Rightarrow> n | None \<Rightarrow> 0)"

definition metric_inc :: "u32 option \<Rightarrow> u32" where
  "metric_inc m = (case m of Some n \<Rightarrow> n + 1 | None \<Rightarrow> 1)"

definition inner_map :: "'a vmap \<Rightarrow> u32 \<Rightarrow> (u32, 'a) gomap" where
  "inner_map m i = (case gget m i of Some p \<Rightarrow> p | None \<Rightarrow> [])"

definition addPrepareBlock_c :: "u32 \<Rightarrow> msgInfo \<Rightarrow> viewCache \<Rightarrow> viewCache" where
  "addPrepareBlock_c blockIndex msg v = v\<lparr>c_prepareBlocks := gset blockIndex msg (c_prepareBlocks v)\<rparr>"

definition addBlockMetric :: "u32 \<Rightarrow> viewCache \<Rightarrow> viewCache" where
  "addBlockMetric index v = v\<lparr>c_blockMetric := gset index (metric_inc (gget (c_blockMetric v) index)) (c_blockMetric v)\<rparr>"

definition getPrepareBlock_c :: "u32 \<Rightarrow> viewCache \<Rightarrow> msgInfo option \<times> viewCache" where
  "getPrepareBlock_c index v =
     (case gget (c_prepareBlocks v) index of None \<Rightarrow> (None, v)
      | Some m \<Rightarrow> let v = addBlockMetric index v in (Some m, v\<lparr>c_prepareBlocks := gdel index (c_prepareBlocks v)\<rparr>))"

definition addPrepareQC_c :: "u32 \<Rightarrow> msgInfo \<Rightarrow> viewCache \<Rightarrow> viewCache" where
  "addPrepareQC_c blockIndex msg v = v\<lparr>c_prepareQC := gset blockIndex msg (c_prepareQC v)\<rparr>"

definition addQCMetric :: "u32 \<Rightarrow> viewCache \<Rightarrow> viewCache" where
  "addQCMetric index v = v\<lparr>c_qcMetric := gset index (metric_inc (gget (c_qcMetric v) index)) (c_qcMetric v)\<rparr>"

definition getPrepareQC_c :: "u32 \<Rightarrow> viewCache \<Rightarrow> msgInfo option \<times> viewCache" where
  "getPrepareQC_c index v =
     (case gget (c_prepareQC v) index of None \<Rightarrow> (None, v)
      | Some m \<Rightarrow> let v = addQCMetric index v in (Some m, v\<lparr>c_prepareQC := gdel index (c_prepareQC v)\<rparr>))"

definition addPreCommitQC_c :: "u32 \<Rightarrow> msgInfo \<Rightarrow> viewCache \<Rightarrow> viewCache" where
  "addPreCommitQC_c blockIndex msg v = v\<lparr>c_preCommitQC := gset blockIndex msg (c_preCommitQC v)\<rparr>"

text \<open>The count is read from the metric of the prepare certificates.\<close>

definition addPreCommitQCMetric :: "u32 \<Rightarrow> viewCache \<Rightarrow> viewCache" where
  "addPreCommitQCMetric index v =
     v\<lparr>c_preCommitQcMetric := gset index (metric_inc (gget (c_qcMetric v) index)) (c_preCommitQcMetric v)\<rparr>"

text \<open>The entry that is deleted is the one of the prepare certificates.\<close>

definition getPreCommitQC_c :: "u32 \<Rightarrow> viewCache \<Rightarrow> msgInfo option \<times> viewCache" where
  "getPreCommitQC_c index v =
     (case gget (c_preCommitQC v) index of None \<Rightarrow> (None, v)
      | Some m \<Rightarrow> let v = addPreCommitQCMetric index v in (Some m, v\<lparr>c_prepareQC := gdel index (c_prepareQC v)\<rparr>))"

definition addPrepareVote_c :: "u32 \<Rightarrow> u32 \<Rightarrow> msgInfo \<Rightarrow> viewCache \<Rightarrow> viewCache" where
  "addPrepareVote_c blockIndex validatorIndex msg v =
     v\<lparr>c_prepareVotes := gset blockIndex (gset validatorIndex msg (inner_map (c_prepareVotes v) blockIndex)) (c_prepareVotes v)\<rparr>"

definition addVoteMetric :: "u32 \<Rightarrow> u32 \<Rightarrow> viewCache \<Rightarrow> viewCache" where
  "addVoteMetric blockIndex validatorIndex v =
     v\<lparr>c_voteMetric := gset blockIndex (gset validatorIndex (metric_inc (gget (inner_map (c_voteMetric v) blockIndex) validatorIndex))
        (inner_map (c_voteMetric v) blockIndex)) (c_voteMetric v)\<rparr>"

definition getPrepareVote_c :: "u32 \<Rightarrow> u32 \<Rightarrow> viewCache \<Rightarrow> msgInfo option \<times> viewCache" where
  "getPrepareVote_c blockIndex validatorIndex v =
     (case gget (c_prepareVotes v) blockIndex of None \<Rightarrow> (None, v)
      | Some p \<Rightarrow> (case gget p validatorIndex of None \<Rightarrow> (None, v)
          | Some m \<Rightarrow> let v = addVoteMetric blockIndex validatorIndex v
              in (Some m, v\<lparr>c_prepareVotes := gset blockIndex (gdel validatorIndex p) (c_prepareVotes v)\<rparr>)))"

definition addPrecommit_c :: "u32 \<Rightarrow> u32 \<Rightarrow> msgInfo \<Rightarrow> viewCache \<Rightarrow> viewCache" where
  "addPrecommit_c blockIndex validatorIndex msg v =
     v\<lparr>c_preCommits := gset blockIndex (gset validatorIndex msg (inner_map (c_preCommits v) blockIndex)) (c_preCommits v)\<rparr>"

definition addPrecommitMetric :: "u32 \<Rightarrow> u32 \<Rightarrow> viewCache \<Rightarrow> viewCache" where
  "addPrecommitMetric blockIndex validatorIndex v =
     v\<lparr>c_preCommitMetric := gset blockIndex (gset validatorIndex (metric_inc (gget (inner_map (c_preCommitMetric v) blockIndex) validatorIndex))
        (inner_map (c_preCommitMetric v) blockIndex)) (c_preCommitMetric v)\<rparr>"

definition getPrecommit_c :: "u32 \<Rightarrow> u32 \<Rightarrow> viewCache \<Rightarrow> msgInfo option \<times> viewCache" where
  "getPrecommit_c blockIndex validatorIndex v =
     (case gget (c_preCommits v) blockIndex of None \<Rightarrow> (None, v)
      | Some p \<Rightarrow> (case gget p validatorIndex of None \<Rightarrow> (None, v)
          | Some m \<Rightarrow> let v = addPrecommitMetric blockIndex validatorIndex v
              in (Some m, v\<lparr>c_preCommits := gset blockIndex (gdel validatorIndex p) (c_preCommits v)\<rparr>)))"

section \<open>The pool\<close>

type_synonym epochCache = "(u64, viewCache) gomap"

record csMsgPool =
  cs_epochs :: "(u64, epochCache) gomap"
  cs_minEpoch :: u64
  cs_minBlockNumber :: u64

definition NewCSMsgPool :: csMsgPool where
  "NewCSMsgPool = \<lparr>cs_epochs = [], cs_minEpoch = 0, cs_minBlockNumber = 0\<rparr>"

definition invalidEpochView :: "csMsgPool \<Rightarrow> u64 \<Rightarrow> u64 \<Rightarrow> bool" where
  "invalidEpochView cs epoch blockNumber =
     (\<not> ((cs_minEpoch cs = epoch \<or> cs_minEpoch cs + 1 = epoch)
        \<and> (cs_minBlockNumber cs = blockNumber \<or> cs_minBlockNumber cs + 1 = blockNumber)))"

definition matchViewCache :: "u64 \<Rightarrow> epochCache \<Rightarrow> viewCache" where
  "matchViewCache blockNumber e = (case gget e blockNumber of Some v \<Rightarrow> v | None \<Rightarrow> newViewCache)"

definition matchEpochCache :: "u64 \<Rightarrow> csMsgPool \<Rightarrow> epochCache" where
  "matchEpochCache epoch cs = (case gget (cs_epochs cs) epoch of Some e \<Rightarrow> e | None \<Rightarrow> [])"

definition findViewCache :: "csMsgPool \<Rightarrow> u64 \<Rightarrow> u64 \<Rightarrow> viewCache option" where
  "findViewCache cs epoch blockNumber = (case gget (cs_epochs cs) epoch of None \<Rightarrow> None | Some e \<Rightarrow> gget e blockNumber)"

text \<open>\<open>matchEpochCache(e).matchViewCache(n)\<close> is a pointer into the pool, created if missing, through
  which the caller changes the view cache; \<open>store_view\<close> is the pool after such a change.\<close>

definition store_view :: "u64 \<Rightarrow> u64 \<Rightarrow> viewCache \<Rightarrow> csMsgPool \<Rightarrow> csMsgPool" where
  "store_view epoch blockNumber v cs = cs\<lparr>cs_epochs := gset epoch (gset blockNumber v (matchEpochCache epoch cs)) (cs_epochs cs)\<rparr>"

definition add_in_view :: "u64 \<Rightarrow> u64 \<Rightarrow> bool \<Rightarrow> (viewCache \<Rightarrow> viewCache) \<Rightarrow> csMsgPool \<Rightarrow> csMsgPool" where
  "add_in_view epoch blockNumber inner f cs =
     (if invalidEpochView cs epoch blockNumber \<or> inner then cs
      else store_view epoch blockNumber (f (matchViewCache blockNumber (matchEpochCache epoch cs))) cs)"

definition get_in_view :: "u64 \<Rightarrow> u64 \<Rightarrow> (viewCache \<Rightarrow> msgInfo option \<times> viewCache) \<Rightarrow> csMsgPool \<Rightarrow> msgInfo option \<times> csMsgPool" where
  "get_in_view epoch blockNumber f cs =
     (if invalidEpochView cs epoch blockNumber then (None, cs)
      else case findViewCache cs epoch blockNumber of None \<Rightarrow> (None, cs)
        | Some v \<Rightarrow> (case f v of (m, v') \<Rightarrow> (m, store_view epoch blockNumber v' cs)))"

definition AddPrepareBlock_cs :: "u32 \<Rightarrow> msgInfo \<Rightarrow> csMsgPool \<Rightarrow> csMsgPool" where
  "AddPrepareBlock_cs blockIndex msg cs = (case as_ConsensusMsg (mi_Msg msg) of None \<Rightarrow> cs
     | Some m \<Rightarrow> add_in_view (EpochNum m) (BlockNum m) (mi_Inner msg) (addPrepareBlock_c blockIndex msg) cs)"

definition GetPrepareBlock_cs :: "u64 \<Rightarrow> u64 \<Rightarrow> u32 \<Rightarrow> csMsgPool \<Rightarrow> msgInfo option \<times> csMsgPool" where
  "GetPrepareBlock_cs epoch blockNumber index cs = get_in_view epoch blockNumber (getPrepareBlock_c index) cs"

definition AddPrepareQC_cs :: "u64 \<Rightarrow> u64 \<Rightarrow> u32 \<Rightarrow> msgInfo \<Rightarrow> csMsgPool \<Rightarrow> csMsgPool" where
  "AddPrepareQC_cs epoch blockNumber blockIndex msg cs =
     add_in_view epoch blockNumber (mi_Inner msg) (addPrepareQC_c blockIndex msg) cs"

definition GetPrepareQC_cs :: "u64 \<Rightarrow> u64 \<Rightarrow> u32 \<Rightarrow> csMsgPool \<Rightarrow> msgInfo option \<times> csMsgPool" where
  "GetPrepareQC_cs epoch blockNumber index cs = get_in_view epoch blockNumber (getPrepareQC_c index) cs"

definition AddPreCommitQC_cs :: "u64 \<Rightarrow> u64 \<Rightarrow> u32 \<Rightarrow> msgInfo \<Rightarrow> csMsgPool \<Rightarrow> csMsgPool" where
  "AddPreCommitQC_cs epoch blockNumber blockIndex msg cs =
     add_in_view epoch blockNumber (mi_Inner msg) (addPreCommitQC_c blockIndex msg) cs"

definition GetPreCommitQC_cs :: "u64 \<Rightarrow> u64 \<Rightarrow> u32 \<Rightarrow> csMsgPool \<Rightarrow> msgInfo option \<times> csMsgPool" where
  "GetPreCommitQC_cs epoch blockNumber index cs = get_in_view epoch blockNumber (getPreCommitQC_c index) cs"

definition AddPrepareVote_cs :: "u32 \<Rightarrow> u32 \<Rightarrow> msgInfo \<Rightarrow> csMsgPool \<Rightarrow> csMsgPool" where
  "AddPrepareVote_cs blockIndex validatorIndex msg cs = (case as_ConsensusMsg (mi_Msg msg) of None \<Rightarrow> cs
     | Some m \<Rightarrow> add_in_view (EpochNum m) (BlockNum m) (mi_Inner msg) (addPrepareVote_c blockIndex validatorIndex msg) cs)"

definition GetPrepareVote_cs :: "u64 \<Rightarrow> u64 \<Rightarrow> u32 \<Rightarrow> u32 \<Rightarrow> csMsgPool \<Rightarrow> msgInfo option \<times> csMsgPool" where
  "GetPrepareVote_cs epoch blockNumber blockIndex validatorIndex cs =
     get_in_view epoch blockNumber (getPrepareVote_c blockIndex validatorIndex) cs"

definition AddPreCommit_cs :: "u32 \<Rightarrow> u32 \<Rightarrow> msgInfo \<Rightarrow> csMsgPool \<Rightarrow> csMsgPool" where
  "AddPreCommit_cs blockIndex validatorIndex msg cs = (case as_ConsensusMsg (mi_Msg msg) of None \<Rightarrow> cs
     | Some m \<Rightarrow> add_in_view (EpochNum m) (BlockNum m) (mi_Inner msg) (addPrecommit_c blockIndex validatorIndex msg) cs)"

definition GetPreCommit_cs :: "u64 \<Rightarrow> u64 \<Rightarrow> u32 \<Rightarrow> u32 \<Rightarrow> csMsgPool \<Rightarrow> msgInfo option \<times> csMsgPool" where
  "GetPreCommit_cs epoch blockNumber blockIndex validatorIndex cs =
     get_in_view epoch blockNumber (getPrecommit_c blockIndex validatorIndex) cs"

definition purge_views :: "u64 \<Rightarrow> epochCache \<Rightarrow> epochCache" where
  "purge_views blockNumber e = filter (\<lambda>(k, _). \<not> k < blockNumber) e"

definition Purge_cs :: "u64 \<Rightarrow> u64 \<Rightarrow> csMsgPool \<Rightarrow> csMsgPool" where
  "Purge_cs epoch blockNumber cs =
     cs\<lparr>cs_epochs := map (\<lambda>(k, e). (k, purge_views blockNumber e)) (filter (\<lambda>(k, _). \<not> k < epoch) (cs_epochs cs)),
        cs_minEpoch := epoch, cs_minBlockNumber := blockNumber\<rparr>"

section \<open>A store whose getter removes what it returns\<close>

locale take_once =
  fixes add :: "'k \<Rightarrow> 'm \<Rightarrow> 'c \<Rightarrow> 'c" and take :: "'k \<Rightarrow> 'c \<Rightarrow> 'm option \<times> 'c"
  assumes take_add: "fst (take k (add k m c)) = Some m"
    and take_add_other: "k' \<noteq> k \<Longrightarrow> fst (take k' (add k m c)) = fst (take k' c)"
    and take_take: "fst (take k (snd (take k c))) = None"
    and take_take_other: "k' \<noteq> k \<Longrightarrow> fst (take k' (snd (take k c))) = fst (take k' c)"
begin

definition content :: "'c \<Rightarrow> 'k \<Rightarrow> 'm option" where
  "content c k = fst (take k c)"

lemma content_add: "content (add k m c) = (content c)(k \<mapsto> m)"
  by (auto simp: content_def take_add take_add_other)

lemma content_take: "content (snd (take k c)) = (content c)(k := None)"
  by (auto simp: content_def take_take take_take_other)

lemma content_add_all: "content (fold (\<lambda>(k, m). add k m) xs c) = content c ++ map_of (rev xs)"
proof (induction xs arbitrary: c)
  case (Cons x xs)
  obtain k m where "x = (k, m)" by (cases x)
  then show ?case by (simp add: Cons.IH content_add map_add_upd_left map_add_def fun_eq_iff split: option.splits)
qed simp

end

lemmas cache_defs = addPrepareBlock_c_def getPrepareBlock_c_def addBlockMetric_def addPrepareQC_c_def getPrepareQC_c_def
  addQCMetric_def addPrepareVote_c_def getPrepareVote_c_def addVoteMetric_def addPrecommit_c_def getPrecommit_c_def
  addPrecommitMetric_def inner_map_def Let_def

interpretation block_cache: take_once addPrepareBlock_c getPrepareBlock_c
  by unfold_locales (auto simp: cache_defs split: option.splits)

interpretation qc_cache: take_once addPrepareQC_c getPrepareQC_c
  by unfold_locales (auto simp: cache_defs split: option.splits)

interpretation vote_cache: take_once "\<lambda>(i, j). addPrepareVote_c i j" "\<lambda>(i, j). getPrepareVote_c i j"
  by unfold_locales (auto simp: cache_defs split: option.splits if_splits)

interpretation precommit_cache: take_once "\<lambda>(i, j). addPrecommit_c i j" "\<lambda>(i, j). getPrecommit_c i j"
  by unfold_locales (auto simp: cache_defs split: option.splits if_splits)

section \<open>The pool as a store\<close>

lemma findViewCache_store [simp]:
  "findViewCache (store_view e n v cs) e' n' = (if e' = e \<and> n' = n then Some v else findViewCache cs e' n')"
  by (auto simp: findViewCache_def store_view_def matchEpochCache_def split: option.splits)

lemma window_store [simp]: "invalidEpochView (store_view e n v cs) = invalidEpochView cs"
  by (simp add: invalidEpochView_def store_view_def fun_eq_iff)

lemma add_inner [simp]: "add_in_view e n True f cs = cs"
  by (simp add: add_in_view_def)

lemma get_add_in_view:
  "\<not> invalidEpochView cs e n \<Longrightarrow> fst (get_in_view e n g (add_in_view e n False f cs))
    = fst (g (f (matchViewCache n (matchEpochCache e cs))))"
  by (simp add: get_in_view_def add_in_view_def split: prod.splits)

lemma get_get_in_view:
  "(\<And>v. fst (g (snd (g v))) = None) \<Longrightarrow> fst (get_in_view e n g (snd (get_in_view e n g cs))) = None"
  by (auto simp: get_in_view_def split: option.splits prod.splits) (metis fst_conv snd_conv)

lemma get_in_view_other:
  "(e', n') \<noteq> (e, n) \<Longrightarrow> fst (get_in_view e' n' g (add_in_view e n inner f cs)) = fst (get_in_view e' n' g cs)"
  by (auto simp: get_in_view_def add_in_view_def split: option.splits prod.splits)

lemmas pool_defs = AddPrepareBlock_cs_def GetPrepareBlock_cs_def AddPrepareQC_cs_def GetPrepareQC_cs_def
  AddPrepareVote_cs_def GetPrepareVote_cs_def AddPreCommit_cs_def GetPreCommit_cs_def

text \<open>C28: A prepare block, prepare certificate, vote or pre-commit of the pool's window that came from a
  peer is returned by the getter for its epoch, number and indexes, and by that getter only once; a
  message the node sent itself leaves the pool unchanged.\<close>
theorem pool_take_once:
  assumes "as_ConsensusMsg (mi_Msg msg) = Some m" "\<not> invalidEpochView cs (EpochNum m) (BlockNum m)" "\<not> mi_Inner msg"
  shows "fst (GetPrepareBlock_cs (EpochNum m) (BlockNum m) i (AddPrepareBlock_cs i msg cs)) = Some msg
    \<and> fst (GetPrepareQC_cs (EpochNum m) (BlockNum m) i (AddPrepareQC_cs (EpochNum m) (BlockNum m) i msg cs)) = Some msg
    \<and> fst (GetPrepareVote_cs (EpochNum m) (BlockNum m) i j (AddPrepareVote_cs i j msg cs)) = Some msg
    \<and> fst (GetPreCommit_cs (EpochNum m) (BlockNum m) i j (AddPreCommit_cs i j msg cs)) = Some msg
    \<and> (\<forall>c e n k l. fst (GetPrepareBlock_cs e n k (snd (GetPrepareBlock_cs e n k c))) = None
         \<and> fst (GetPrepareQC_cs e n k (snd (GetPrepareQC_cs e n k c))) = None
         \<and> fst (GetPrepareVote_cs e n k l (snd (GetPrepareVote_cs e n k l c))) = None
         \<and> fst (GetPreCommit_cs e n k l (snd (GetPreCommit_cs e n k l c))) = None)
    \<and> AddPrepareBlock_cs i (msg\<lparr>mi_Inner := True\<rparr>) cs = cs \<and> AddPrepareVote_cs i j (msg\<lparr>mi_Inner := True\<rparr>) cs = cs"
proof -
  have once: "fst (getPrepareVote_c k l (snd (getPrepareVote_c k l v))) = None"
    "fst (getPrecommit_c k l (snd (getPrecommit_c k l v))) = None" for k l v
    using vote_cache.take_take [of "(k, l)" v] precommit_cache.take_take [of "(k, l)" v] by simp_all
  have stored: "fst (getPrepareVote_c i j (addPrepareVote_c i j msg v)) = Some msg"
    "fst (getPrecommit_c i j (addPrecommit_c i j msg v)) = Some msg" for v
    using vote_cache.take_add [of "(i, j)" msg v] precommit_cache.take_add [of "(i, j)" msg v] by simp_all
  have one: "fst (GetPrepareBlock_cs e n k (snd (GetPrepareBlock_cs e n k c))) = None"
    "fst (GetPrepareQC_cs e n k (snd (GetPrepareQC_cs e n k c))) = None"
    "fst (GetPrepareVote_cs e n k l (snd (GetPrepareVote_cs e n k l c))) = None"
    "fst (GetPreCommit_cs e n k l (snd (GetPreCommit_cs e n k l c))) = None" for c e n k l
    unfolding pool_defs
    by (rule get_get_in_view, rule block_cache.take_take qc_cache.take_take once)+
  show ?thesis
    using assms one by (simp add: pool_defs get_add_in_view block_cache.take_add qc_cache.take_add stored)
qed

abbreviation vote_info :: msgInfo where
  "vote_info \<equiv> \<lparr>mi_Msg = MPrepareVote (pv_example\<lparr>pv_BlockNumber := 1\<rparr>), mi_PeerID = ''p'', mi_Inner = False\<rparr>"

theorem pool_take_once_witness:
  "fst (GetPrepareVote_cs 1 1 0 2 (AddPrepareVote_cs 0 2 vote_info NewCSMsgPool)) = Some vote_info"
  using pool_take_once [of vote_info "CPrepareVote (pv_example\<lparr>pv_BlockNumber := 1\<rparr>)" NewCSMsgPool 0 2]
  by (simp add: NewCSMsgPool_def invalidEpochView_def)

section \<open>Purging\<close>

lemma gget_filter_key: "gget (filter (\<lambda>(k, _). P k) m) k = (if P k then gget m k else None)"
  unfolding gget_def by (induction m) auto

lemma gget_map_val: "gget (map (\<lambda>(k, v). (k, f v)) m) k = map_option f (gget m k)"
  unfolding gget_def by (induction m) auto

text \<open>C29: Purging the pool at an epoch and block number forgets everything below either of them, keeps the
  rest, and moves the window: afterwards exactly the messages of that or the next epoch and of that or
  the next number are accepted.\<close>
theorem Purge_correct:
  "findViewCache (Purge_cs e n cs) e' n' = (if e' < e \<or> n' < n then None else findViewCache cs e' n')
    \<and> (invalidEpochView (Purge_cs e n cs) e' n' \<longleftrightarrow> \<not> ((e' = e \<or> e' = e + 1) \<and> (n' = n \<or> n' = n + 1)))"
proof -
  have "findViewCache (Purge_cs e n cs) e' n' = (if e' < e \<or> n' < n then None else findViewCache cs e' n')"
    by (auto simp: findViewCache_def Purge_cs_def purge_views_def gget_map_val gget_filter_key split: option.splits)
  then show ?thesis by (auto simp: invalidEpochView_def Purge_cs_def)
qed

text \<open>A synchronisation request is let through at most once per timeout: \<open>AddOrReplace\<close> refuses an
  item it let through less than the timeout ago and lets it through otherwise; purging or removing makes
  the item new again.\<close>
theorem AddOrReplace_rate_limit:
  assumes "0 < sc_timeout s" "t \<le> now"
  shows "(\<forall>s'. AddOrReplace t v s = (True, s') \<longrightarrow>
      (fst (AddOrReplace now v s') \<longleftrightarrow> sc_timeout s \<le> now - t)
      \<and> fst (AddOrReplace now v (Purge_sc s')) \<and> fst (AddOrReplace now v (Remove_sc v s')))
    \<and> (gget (sc_items s) v = None \<longrightarrow> fst (AddOrReplace t v s))"
  using assms by (auto simp: AddOrReplace_def Purge_sc_def Remove_sc_def not_less split: if_splits)

theorem AddOrReplace_rate_limit_witness:
  "\<exists>s'. AddOrReplace 5 (7 :: nat) (NewSyncCache 10) = (True, s') \<and> \<not> fst (AddOrReplace 14 7 s') \<and> fst (AddOrReplace 15 7 s')"
  using AddOrReplace_rate_limit [of "NewSyncCache 10 :: nat syncCache" 5 14 7]
    AddOrReplace_rate_limit [of "NewSyncCache 10 :: nat syncCache" 5 15 7]
  by (auto simp: NewSyncCache_def AddOrReplace_def)

text \<open>A pre-commit certificate is not removed by its getter; the prepare certificate of the index is.\<close>

lemma getPreCommitQC_keeps:
  assumes "gget (c_preCommitQC v) i = Some m"
  shows "fst (getPreCommitQC_c i (snd (getPreCommitQC_c i v))) = Some m"
    and "fst (getPrepareQC_c i (snd (getPreCommitQC_c i v))) = None"
  using assms by (simp_all add: getPreCommitQC_c_def addPreCommitQCMetric_def getPrepareQC_c_def Let_def)

end
