(* ===== verification/Evidence.thy ===== *)
theory Evidence
  imports Validators MsgPool
begin

text \<open>
  The evidence pool (\<open>consensus/pbft/evidence\<close>): the evidence forms of consensus messages
  (\<open>message.go\<close>), the per-identity lists in which a second message of the same sender, epoch, view and
  number is found (\<open>evidence.go\<close>), the four kinds of duplicate evidence (\<open>duplicateEvidence.go\<close>) and the
  pool with its database (\<open>evidencePool.go\<close>).  The database maps keys to evidence; whether a read or a
  write of a key fails is a parameter, and the RLP form of a stored value is kept abstract.  Identities
  are the strings of the code.  The locale \<open>first_log\<close> states what a log of first messages promises and
  is interpreted on prepare blocks, prepare votes and pre-commits; view changes do not satisfy it.  The
  JSON form of evidence is not modelled.
\<close>

section \<open>Evidence forms of messages\<close>

record evidenceNode =
  en_Index :: u32
  en_NodeID :: nodeID
  en_BlsPubKey :: bytes

record evidencePrepare =
  ep_Epoch :: u64
  ep_ViewNumber :: u64
  ep_BlockHash :: hash
  ep_BlockNumber :: u64
  ep_BlockIndex :: u32
  ep_BlockData :: bytes
  ep_ValidateNode :: evidenceNode
  ep_Signature :: signature

record evidenceVote =
  ev_Epoch :: u64
  ev_ViewNumber :: u64
  ev_BlockHash :: hash
  ev_BlockNumber :: u64
  ev_BlockIndex :: u32
  ev_ValidateNode :: evidenceNode
  ev_Signature :: signature

record evidencePrecommit =
  ec_Epoch :: u64
  ec_ViewNumber :: u64
  ec_BlockHash :: hash
  ec_BlockNumber :: u64
  ec_BlockIndex :: u32
  ec_ValidateNode :: evidenceNode
  ec_Signature :: signature

record evidenceView =
  ew_Epoch :: u64
  ew_ViewNumber :: u64
  ew_BlockHash :: hash
  ew_BlockNumber :: u64
  ew_ValidateNode :: evidenceNode
  ew_Signature :: signature
  ew_BlockEpoch :: u64
  ew_BlockView :: u64

definition NewEvidenceNode :: "validateNode \<Rightarrow> evidenceNode" where
  "NewEvidenceNode n = \<lparr>en_Index = vn_Index n, en_NodeID = vn_NodeID n, en_BlsPubKey = vn_BlsPubKey n\<rparr>"

definition NewEvidencePrepare :: "(bytes \<Rightarrow> bytes) \<Rightarrow> prepareBlock \<Rightarrow> validateNode \<Rightarrow> evidencePrepare" where
  "NewEvidencePrepare keccak pb node =
     \<lparr>ep_Epoch = pb_Epoch pb, ep_ViewNumber = pb_ViewNumber pb, ep_BlockHash = blk_Hash (pb_Block pb),
      ep_BlockNumber = blk_Number (pb_Block pb), ep_BlockIndex = pb_BlockIndex pb,
      ep_BlockData = BytesToHash (keccak (blk_Rlp (pb_Block pb))),
      ep_ValidateNode = NewEvidenceNode node, ep_Signature = pb_Signature pb\<rparr>"

definition NewEvidenceVote :: "prepareVote \<Rightarrow> validateNode \<Rightarrow> evidenceVote" where
  "NewEvidenceVote pv node =
     \<lparr>ev_Epoch = pv_Epoch pv, ev_ViewNumber = pv_ViewNumber pv, ev_BlockHash = pv_BlockHash pv,
      ev_BlockNumber = pv_BlockNumber pv, ev_BlockIndex = pv_BlockIndex pv,
      ev_ValidateNode = NewEvidenceNode node, ev_Signature = pv_Signature pv\<rparr>"

definition NewEvidencePrecommit :: "preCommit \<Rightarrow> validateNode \<Rightarrow> evidencePrecommit" where
  "NewEvidencePrecommit pv node =
     \<lparr>ec_Epoch = pc_Epoch pv, ec_ViewNumber = pc_ViewNumber pv, ec_BlockHash = pc_BlockHash pv,
      ec_BlockNumber = pc_BlockNumber pv, ec_BlockIndex = pc_BlockIndex pv,
      ec_ValidateNode = NewEvidenceNode node, ec_Signature = pc_Signature pv\<rparr>"

definition NewEvidenceView :: "viewChange \<Rightarrow> validateNode \<Rightarrow> evidenceView" where
  "NewEvidenceView vc node =
     (let (blockEpoch, blockView) =
        (case vc_PrepareQC vc of None \<Rightarrow> (0, 0) | Some qc \<Rightarrow> (q_Epoch qc, q_ViewNumber qc))
      in \<lparr>ew_Epoch = vc_Epoch vc, ew_ViewNumber = vc_ViewNumber vc, ew_BlockHash = vc_BlockHash vc,
          ew_BlockNumber = vc_BlockNumber vc, ew_ValidateNode = NewEvidenceNode node,
          ew_Signature = vc_Signature vc, ew_BlockEpoch = blockEpoch, ew_BlockView = blockView\<rparr>)"

definition CannibalizeBytes_ep :: "(bytes \<Rightarrow> bytes) \<Rightarrow> evidencePrepare \<Rightarrow> (rlp_err + bytes) go" where
  "CannibalizeBytes_ep keccak ep =
     cannibalize keccak [RUint (ep_Epoch ep), RUint (ep_ViewNumber ep), RBytes (hash_bytes (ep_BlockHash ep)),
       RUint (ep_BlockNumber ep), RBytes (ep_BlockData ep), RUint (ucast (ep_BlockIndex ep)),
       RUint (ucast (en_Index (ep_ValidateNode ep)))]"

definition CannibalizeBytes_ev :: "(bytes \<Rightarrow> bytes) \<Rightarrow> evidenceVote \<Rightarrow> (rlp_err + bytes) go" where
  "CannibalizeBytes_ev keccak ev =
     cannibalize keccak [RUint (ev_Epoch ev), RUint (ev_ViewNumber ev), RBytes (hash_bytes (ev_BlockHash ev)),
       RUint (ev_BlockNumber ev), RUint (ucast (ev_BlockIndex ev))]"

definition CannibalizeBytes_ec :: "(bytes \<Rightarrow> bytes) \<Rightarrow> evidencePrecommit \<Rightarrow> (rlp_err + bytes) go" where
  "CannibalizeBytes_ec keccak ev =
     cannibalize keccak [RUint (ec_Epoch ev), RUint (ec_ViewNumber ev), RBytes (hash_bytes (ec_BlockHash ev)),
       RUint (ec_BlockNumber ev), RUint (ucast (ec_BlockIndex ev))]"

definition CannibalizeBytes_ew :: "(bytes \<Rightarrow> bytes) \<Rightarrow> evidenceView \<Rightarrow> (rlp_err + bytes) go" where
  "CannibalizeBytes_ew keccak ev =
     cannibalize keccak [RUint (ew_Epoch ev), RUint (ew_ViewNumber ev), RBytes (hash_bytes (ew_BlockHash ev)),
       RUint (ew_BlockNumber ev), RUint (ew_BlockEpoch ev), RUint (ew_BlockView ev)]"

text \<open>\<open>EvidenceNode.Verify\<close>, and the four \<open>Verify\<close> methods: the result says whether the error is nil.\<close>

definition Verify_en :: "bls \<Rightarrow> evidenceNode \<Rightarrow> bytes \<Rightarrow> bytes \<Rightarrow> vderr option" where
  "Verify_en B vn data sign =
     (case bls_Deserialize B sign of None \<Rightarrow> Some SignDeserialize
      | Some sig \<Rightarrow> if bls_Verify B sig (en_BlsPubKey vn) data then None else Some BlsVerifyFail)"

definition verify_digest :: "bls \<Rightarrow> (rlp_err + bytes) go \<Rightarrow> evidenceNode \<Rightarrow> signature \<Rightarrow> bool go" where
  "verify_digest B digest node sign =
     go_map (\<lambda>r. case r of Inl _ \<Rightarrow> False | Inr data \<Rightarrow> Verify_en B node data (Bytes_sig sign) = None) digest"

definition Verify_ep :: "bls \<Rightarrow> (bytes \<Rightarrow> bytes) \<Rightarrow> evidencePrepare \<Rightarrow> bool go" where
  "Verify_ep B keccak ep = verify_digest B (CannibalizeBytes_ep keccak ep) (ep_ValidateNode ep) (ep_Signature ep)"

definition Verify_ev :: "bls \<Rightarrow> (bytes \<Rightarrow> bytes) \<Rightarrow> evidenceVote \<Rightarrow> bool go" where
  "Verify_ev B keccak ev = verify_digest B (CannibalizeBytes_ev keccak ev) (ev_ValidateNode ev) (ev_Signature ev)"

definition Verify_ec :: "bls \<Rightarrow> (bytes \<Rightarrow> bytes) \<Rightarrow> evidencePrecommit \<Rightarrow> bool go" where
  "Verify_ec B keccak ev = verify_digest B (CannibalizeBytes_ec keccak ev) (ec_ValidateNode ev) (ec_Signature ev)"

definition Verify_ew :: "bls \<Rightarrow> (bytes \<Rightarrow> bytes) \<Rightarrow> evidenceView \<Rightarrow> bool go" where
  "Verify_ew B keccak ev = verify_digest B (CannibalizeBytes_ew keccak ev) (ew_ValidateNode ev) (ew_Signature ev)"

section \<open>Duplicate evidence\<close>

datatype evidence =
    DuplicatePrepareBlockEvidence evidencePrepare evidencePrepare
  | DuplicatePrepareVoteEvidence evidenceVote evidenceVote
  | DuplicatePrecommitEvidence evidencePrecommit evidencePrecommit
  | DuplicateViewChangeEvidence evidenceView evidenceView

fun BlockNumber_de :: "evidence \<Rightarrow> u64" where
  "BlockNumber_de (DuplicatePrepareBlockEvidence a b) = ep_BlockNumber a"
| "BlockNumber_de (DuplicatePrepareVoteEvidence a b) = ev_BlockNumber a"
| "BlockNumber_de (DuplicatePrecommitEvidence a b) = ec_BlockNumber a"
| "BlockNumber_de (DuplicateViewChangeEvidence a b) = ew_BlockNumber a"

fun Epoch_de :: "evidence \<Rightarrow> u64" where
  "Epoch_de (DuplicatePrepareBlockEvidence a b) = ep_Epoch a"
| "Epoch_de (DuplicatePrepareVoteEvidence a b) = ev_Epoch a"
| "Epoch_de (DuplicatePrecommitEvidence a b) = ec_Epoch a"
| "Epoch_de (DuplicateViewChangeEvidence a b) = ew_Epoch a"

fun ViewNumber_de :: "evidence \<Rightarrow> u64" where
  "ViewNumber_de (DuplicatePrepareBlockEvidence a b) = ep_ViewNumber a"
| "ViewNumber_de (DuplicatePrepareVoteEvidence a b) = ev_ViewNumber a"
| "ViewNumber_de (DuplicatePrecommitEvidence a b) = ec_ViewNumber a"
| "ViewNumber_de (DuplicateViewChangeEvidence a b) = ew_ViewNumber a"

fun node_de :: "evidence \<Rightarrow> evidenceNode" where
  "node_de (DuplicatePrepareBlockEvidence a b) = ep_ValidateNode a"
| "node_de (DuplicatePrepareVoteEvidence a b) = ev_ValidateNode a"
| "node_de (DuplicatePrecommitEvidence a b) = ec_ValidateNode a"
| "node_de (DuplicateViewChangeEvidence a b) = ew_ValidateNode a"

definition NodeID_de :: "evidence \<Rightarrow> nodeID" where
  "NodeID_de d = en_NodeID (node_de d)"

definition BlsPubKey_de :: "evidence \<Rightarrow> bytes" where
  "BlsPubKey_de d = en_BlsPubKey (node_de d)"

fun Type_de :: "evidence \<Rightarrow> u8" where
  "Type_de (DuplicatePrepareBlockEvidence a b) = 1"
| "Type_de (DuplicatePrepareVoteEvidence a b) = 2"
| "Type_de (DuplicatePrecommitEvidence a b) = 4"
| "Type_de (DuplicateViewChangeEvidence a b) = 3"

text \<open>\<open>Hash\<close>: where a digest or the encoding fails the buffer stays empty.\<close>

definition hash_pair ::
    "(bytes \<Rightarrow> bytes) \<Rightarrow> (rlp_err + bytes) go \<Rightarrow> signature \<Rightarrow> (rlp_err + bytes) go \<Rightarrow> signature \<Rightarrow> bytes go" where
  "hash_pair keccak da sa db sb =
     go_bind da (\<lambda>ra. case ra of Inl _ \<Rightarrow> Inr (keccak [])
       | Inr ac \<Rightarrow> go_bind db (\<lambda>rb. case rb of Inl _ \<Rightarrow> Inr (keccak [])
           | Inr bc \<Rightarrow> go_map (\<lambda>r. case r of Inl _ \<Rightarrow> keccak [] | Inr h \<Rightarrow> h)
               (cannibalize keccak [RBytes ac, RBytes (Bytes_sig sa), RBytes bc, RBytes (Bytes_sig sb)])))"

definition Hash_dp :: "(bytes \<Rightarrow> bytes) \<Rightarrow> evidencePrepare \<Rightarrow> evidencePrepare \<Rightarrow> bytes go" where
  "Hash_dp k a b =
     hash_pair k (CannibalizeBytes_ep k a) (ep_Signature a) (CannibalizeBytes_ep k b) (ep_Signature b)"

definition Hash_dv :: "(bytes \<Rightarrow> bytes) \<Rightarrow> evidenceVote \<Rightarrow> evidenceVote \<Rightarrow> bytes go" where
  "Hash_dv k a b =
     hash_pair k (CannibalizeBytes_ev k a) (ev_Signature a) (CannibalizeBytes_ev k b) (ev_Signature b)"

definition Hash_dpc :: "(bytes \<Rightarrow> bytes) \<Rightarrow> evidencePrecommit \<Rightarrow> evidencePrecommit \<Rightarrow> bytes go" where
  "Hash_dpc k a b =
     hash_pair k (CannibalizeBytes_ec k a) (ec_Signature a) (CannibalizeBytes_ec k b) (ec_Signature b)"

definition Hash_dvc :: "(bytes \<Rightarrow> bytes) \<Rightarrow> evidenceView \<Rightarrow> evidenceView \<Rightarrow> bytes go" where
  "Hash_dvc k a b =
     hash_pair k (CannibalizeBytes_ew k a) (ew_Signature a) (CannibalizeBytes_ew k b) (ew_Signature b)"

fun Hash_de :: "(bytes \<Rightarrow> bytes) \<Rightarrow> evidence \<Rightarrow> bytes go" where
  "Hash_de k (DuplicatePrepareBlockEvidence a b) = Hash_dp k a b"
| "Hash_de k (DuplicatePrepareVoteEvidence a b) = Hash_dv k a b"
| "Hash_de k (DuplicatePrecommitEvidence a b) = Hash_dpc k a b"
| "Hash_de k (DuplicateViewChangeEvidence a b) = Hash_dvc k a b"

definition Equal_de :: "(bytes \<Rightarrow> bytes) \<Rightarrow> evidence \<Rightarrow> evidence \<Rightarrow> bool go" where
  "Equal_de k d e = (if Type_de d \<noteq> Type_de e then Inr False
     else go_bind (Hash_de k d) (\<lambda>dh. go_map (\<lambda>eh. dh = eh) (Hash_de k e)))"

datatype validateErr = EpochDiffers | ViewDiffers | NumberDiffers | ValidatorDiffers | BlockEqual | FirstFails | SecondFails

text \<open>The checks of \<open>Validate\<close> in their order; the last two verify the signatures.\<close>

fun checks :: "(bool \<times> validateErr) list \<Rightarrow> bool go \<Rightarrow> bool go \<Rightarrow> validateErr option go" where
  "checks ((c, e) # cs) va vb = (if c then Inr (Some e) else checks cs va vb)"
| "checks [] va vb = go_bind va (\<lambda>a. if \<not> a then Inr (Some FirstFails)
     else go_map (\<lambda>b. if \<not> b then Some SecondFails else None) vb)"

definition node_differs :: "evidenceNode \<Rightarrow> evidenceNode \<Rightarrow> bool" where
  "node_differs a b = (en_Index a \<noteq> en_Index b \<or> en_NodeID a \<noteq> en_NodeID b \<or> en_BlsPubKey a \<noteq> en_BlsPubKey b)"

definition Validate_dp :: "bls \<Rightarrow> (bytes \<Rightarrow> bytes) \<Rightarrow> evidencePrepare \<Rightarrow> evidencePrepare \<Rightarrow> validateErr option go" where
  "Validate_dp B k a b =
     checks [(ep_Epoch a \<noteq> ep_Epoch b, EpochDiffers), (ep_ViewNumber a \<noteq> ep_ViewNumber b, ViewDiffers),
       (ep_BlockNumber a \<noteq> ep_BlockNumber b, NumberDiffers),
       (node_differs (ep_ValidateNode a) (ep_ValidateNode b), ValidatorDiffers),
       (ep_BlockHash a = ep_BlockHash b, BlockEqual)] (Verify_ep B k a) (Verify_ep B k b)"

definition Validate_dv :: "bls \<Rightarrow> (bytes \<Rightarrow> bytes) \<Rightarrow> evidenceVote \<Rightarrow> evidenceVote \<Rightarrow> validateErr option go" where
  "Validate_dv B k a b =
     checks [(ev_Epoch a \<noteq> ev_Epoch b, EpochDiffers), (ev_ViewNumber a \<noteq> ev_ViewNumber b, ViewDiffers),
       (ev_BlockNumber a \<noteq> ev_BlockNumber b, NumberDiffers),
       (node_differs (ev_ValidateNode a) (ev_ValidateNode b), ValidatorDiffers),
       (ev_BlockHash a = ev_BlockHash b, BlockEqual)] (Verify_ev B k a) (Verify_ev B k b)"

definition Validate_dpc :: "bls \<Rightarrow> (bytes \<Rightarrow> bytes) \<Rightarrow> evidencePrecommit \<Rightarrow> evidencePrecommit \<Rightarrow> validateErr option go" where
  "Validate_dpc B k a b =
     checks [(ec_Epoch a \<noteq> ec_Epoch b, EpochDiffers), (ec_ViewNumber a \<noteq> ec_ViewNumber b, ViewDiffers),
       (ec_BlockNumber a \<noteq> ec_BlockNumber b, NumberDiffers),
       (node_differs (ec_ValidateNode a) (ec_ValidateNode b), ValidatorDiffers),
       (ec_BlockHash a = ec_BlockHash b, BlockEqual)] (Verify_ec B k a) (Verify_ec B k b)"

definition Validate_dvc :: "bls \<Rightarrow> (bytes \<Rightarrow> bytes) \<Rightarrow> evidenceView \<Rightarrow> evidenceView \<Rightarrow> validateErr option go" where
  "Validate_dvc B k a b =
     checks [(ew_Epoch a \<noteq> ew_Epoch b, EpochDiffers), (ew_ViewNumber a \<noteq> ew_ViewNumber b, ViewDiffers),
       (node_differs (ew_ValidateNode a) (ew_ValidateNode b), ValidatorDiffers),
       (ew_BlockNumber a = ew_BlockNumber b \<and> ew_BlockHash a = ew_BlockHash b, BlockEqual)]
       (Verify_ew B k a) (Verify_ew B k b)"

fun Validate :: "bls \<Rightarrow> (bytes \<Rightarrow> bytes) \<Rightarrow> evidence \<Rightarrow> validateErr option go" where
  "Validate B k (DuplicatePrepareBlockEvidence a b) = Validate_dp B k a b"
| "Validate B k (DuplicatePrepareVoteEvidence a b) = Validate_dv B k a b"
| "Validate B k (DuplicatePrecommitEvidence a b) = Validate_dpc B k a b"
| "Validate B k (DuplicateViewChangeEvidence a b) = Validate_dvc B k a b"

text \<open>\<open>EvidenceData\<close> and \<open>ClassifyEvidence\<close>: duplicate pre-commits have no place.\<close>

record evidenceData =
  DP :: "evidence list"
  DV :: "evidence list"
  DC :: "evidence list"

definition NewEvidenceData :: evidenceData where
  "NewEvidenceData = \<lparr>DP = [], DV = [], DC = []\<rparr>"

fun classify :: "evidence \<Rightarrow> evidenceData \<Rightarrow> evidenceData" where
  "classify (DuplicatePrepareBlockEvidence a b) ed = ed\<lparr>DP := DP ed @ [DuplicatePrepareBlockEvidence a b]\<rparr>"
| "classify (DuplicatePrepareVoteEvidence a b) ed = ed\<lparr>DV := DV ed @ [DuplicatePrepareVoteEvidence a b]\<rparr>"
| "classify (DuplicateViewChangeEvidence a b) ed = ed\<lparr>DC := DC ed @ [DuplicateViewChangeEvidence a b]\<rparr>"
| "classify (DuplicatePrecommitEvidence a b) ed = ed"

definition ClassifyEvidence :: "evidence list \<Rightarrow> evidenceData" where
  "ClassifyEvidence evds = fold classify evds NewEvidenceData"

section \<open>Identities\<close>

type_synonym identity = string

text \<open>\<open>%d\<close> of \<open>fmt\<close>, \<open>strings.Split\<close> at one character and \<open>strconv.ParseUint\<close> with its error
  dropped: 0 on a malformed number, the largest value on one out of range.\<close>

definition digit :: "nat \<Rightarrow> char" where
  "digit d = char_of (48 + d)"

fun dec :: "nat \<Rightarrow> string" where
  "dec n = (if n < 10 then [digit n] else dec (n div 10) @ [digit (n mod 10)])"

fun split_at :: "char \<Rightarrow> string \<Rightarrow> string list" where
  "split_at c [] = [[]]"
| "split_at c (x # xs) = (if x = c then [] # split_at c xs
     else (case split_at c xs of [] \<Rightarrow> [[x]] | w # ws \<Rightarrow> (x # w) # ws))"

definition is_digit :: "char \<Rightarrow> bool" where
  "is_digit c = (48 \<le> (of_char c :: nat) \<and> (of_char c :: nat) < 58)"

definition dec_value :: "string \<Rightarrow> nat" where
  "dec_value s = foldl (\<lambda>a c. 10 * a + (of_char c - 48)) 0 s"

definition parseUint :: "string \<Rightarrow> u64" where
  "parseUint s = (if s = [] \<or> \<not> list_all is_digit s then 0
     else if 2 ^ 64 \<le> dec_value s then MaxUint64 else word_of_nat (dec_value s))"

definition identity_of :: "u64 \<Rightarrow> u64 \<Rightarrow> u64 \<Rightarrow> u32 \<Rightarrow> identity" where
  "identity_of e n v i = dec (unat e) @ ''|'' @ dec (unat n) @ ''|'' @ dec (unat v) @ ''|'' @ dec (unat i)"

fun verifyIdentity :: "consensusMsg \<Rightarrow> identity" where
  "verifyIdentity (CPrepareBlock m) =
     identity_of (pb_Epoch m) (BlockNum (CPrepareBlock m)) (pb_ViewNumber m) (pb_ProposalIndex m)"
| "verifyIdentity (CPrepareVote m) =
     identity_of (pv_Epoch m) (BlockNum (CPrepareVote m)) (pv_ViewNumber m) (pv_ValidatorIndex m)"
| "verifyIdentity (CPreCommit m) =
     identity_of (pc_Epoch m) (BlockNum (CPreCommit m)) (pc_ViewNumber m) (pc_ValidatorIndex m)"
| "verifyIdentity (CViewChange m) =
     identity_of (vc_Epoch m) (BlockNum (CViewChange m)) (vc_ViewNumber m) (vc_ValidatorIndex m)"

section \<open>The lists of first messages\<close>

text \<open>\<open>ordered a b\<close> is the pair with the smaller hash first, as \<open>Add\<close> builds it from the new message \<open>a\<close>
  and the one found.\<close>

definition ordered_pair :: "('e \<Rightarrow> hash) \<Rightarrow> 'e \<Rightarrow> 'e \<Rightarrow> 'e \<times> 'e" where
  "ordered_pair h x found = (if h x > h found then (found, x) else (x, found))"

definition find_opb :: "evidencePrepare list \<Rightarrow> u64 \<Rightarrow> u64 \<Rightarrow> u64 \<Rightarrow> evidencePrepare option" where
  "find_opb l e v n = first_match (\<lambda>x. ep_Epoch x = e \<and> ep_ViewNumber x = v \<and> ep_BlockNumber x = n) l"

definition Add_opb :: "evidencePrepare \<Rightarrow> evidencePrepare list \<Rightarrow> (evidencePrepare \<times> evidencePrepare) option \<times> evidencePrepare list" where
  "Add_opb pb l =
     (case find_opb l (ep_Epoch pb) (ep_ViewNumber pb) (ep_BlockNumber pb) of
        Some ev \<Rightarrow> (if ep_BlockHash ev \<noteq> ep_BlockHash pb then Some (ordered_pair ep_BlockHash pb ev) else None, l)
      | None \<Rightarrow> (None, sort_key ep_ViewNumber (l @ [pb])))"

definition find_opv :: "evidenceVote list \<Rightarrow> u64 \<Rightarrow> u64 \<Rightarrow> u64 \<Rightarrow> evidenceVote option" where
  "find_opv l e v n = first_match (\<lambda>x. ev_Epoch x = e \<and> ev_ViewNumber x = v \<and> ev_BlockNumber x = n) l"

definition Add_opv :: "evidenceVote \<Rightarrow> evidenceVote list \<Rightarrow> (evidenceVote \<times> evidenceVote) option \<times> evidenceVote list" where
  "Add_opv pv l =
     (case find_opv l (ev_Epoch pv) (ev_ViewNumber pv) (ev_BlockNumber pv) of
        Some ev \<Rightarrow> (if ev_BlockHash ev \<noteq> ev_BlockHash pv then Some (ordered_pair ev_BlockHash pv ev) else None, l)
      | None \<Rightarrow> (None, sort_key ev_BlockNumber (l @ [pv])))"

definition find_opc :: "evidencePrecommit list \<Rightarrow> u64 \<Rightarrow> u64 \<Rightarrow> u64 \<Rightarrow> evidencePrecommit option" where
  "find_opc l e v n = first_match (\<lambda>x. ec_Epoch x = e \<and> ec_ViewNumber x = v \<and> ec_BlockNumber x = n) l"

definition Add_opc :: "evidencePrecommit \<Rightarrow> evidencePrecommit list \<Rightarrow> (evidencePrecommit \<times> evidencePrecommit) option \<times> evidencePrecommit list" where
  "Add_opc pv l =
     (case find_opc l (ec_Epoch pv) (ec_ViewNumber pv) (ec_BlockNumber pv) of
        Some ev \<Rightarrow> (if ec_BlockHash ev \<noteq> ec_BlockHash pv then Some (ordered_pair ec_BlockHash pv ev) else None, l)
      | None \<Rightarrow> (None, sort_key ec_BlockNumber (l @ [pv])))"

text \<open>The list of view changes looks for the new message's view among the block numbers.\<close>

definition find_ovc :: "evidenceView list \<Rightarrow> u64 \<Rightarrow> u64 \<Rightarrow> evidenceView option" where
  "find_ovc l e n = first_match (\<lambda>x. ew_Epoch x = e \<and> ew_BlockNumber x = n) l"

definition Add_ovc :: "evidenceView \<Rightarrow> evidenceView list \<Rightarrow> (evidenceView \<times> evidenceView) option \<times> evidenceView list" where
  "Add_ovc vc l =
     (case find_ovc l (ew_Epoch vc) (ew_ViewNumber vc) of
        Some ev \<Rightarrow> (if ew_BlockNumber ev \<noteq> ew_BlockNumber vc \<or> ew_BlockHash ev \<noteq> ew_BlockHash vc
          then Some (ordered_pair ew_BlockHash vc ev) else None, l)
      | None \<Rightarrow> (None, sort_key ew_BlockNumber (l @ [vc])))"

text \<open>The maps of lists: \<open>Add\<close> creates the list of an identity on demand, \<open>Clear\<close> and \<open>Size\<close> are the same
  code for each kind.\<close>

definition Add_ev :: "('e \<Rightarrow> 'e list \<Rightarrow> 'r \<times> 'e list) \<Rightarrow> 'e \<Rightarrow> identity \<Rightarrow> (identity, 'e list) gomap \<Rightarrow> 'r \<times> (identity, 'e list) gomap" where
  "Add_ev add x i m =
     (let l = (case gget m i of None \<Rightarrow> [] | Some l \<Rightarrow> l); (err, l') = add x l in (err, gset i l' m))"

definition stale :: "u64 \<Rightarrow> u64 \<Rightarrow> identity \<Rightarrow> bool go" where
  "stale epoch blockNumber k =
     (let s = split_at CHR ''|'' k
      in go_bind (go_map parseUint (go_index s 0)) (\<lambda>e. go_map (\<lambda>v.
           e < epoch \<or> e = epoch \<and> parseUint v \<le> blockNumber) (go_index s 1)))"

definition Clear_ev :: "u64 \<Rightarrow> u64 \<Rightarrow> (identity, 'e list) gomap \<Rightarrow> (identity, 'e list) gomap go" where
  "Clear_ev epoch blockNumber m =
     go_fold (\<lambda>k m. go_map (\<lambda>b. if b then gdel k m else m) (stale epoch blockNumber k)) (map fst m) m"

definition Size_ev :: "(identity, 'e list) gomap \<Rightarrow> nat" where
  "Size_ev m = sum_list (map length (gvals m))"

section \<open>The pool\<close>

record evidencePool =
  pool_pb :: "(identity, evidencePrepare list) gomap"
  pool_pv :: "(identity, evidenceVote list) gomap"
  pool_pc :: "(identity, evidencePrecommit list) gomap"
  pool_vc :: "(identity, evidenceView list) gomap"
  pool_db :: "(bytes, evidence) gomap"

text \<open>Failures of the database: reads and writes of a key.\<close>

record dbFaults =
  has_fails :: "bytes \<Rightarrow> bool"
  put_fails :: "bytes \<Rightarrow> bool"

datatype poolErr = Duplicate evidence | DbError

definition NewBaseEvidencePool :: "(bytes, evidence) gomap \<Rightarrow> evidencePool" where
  "NewBaseEvidencePool db = \<lparr>pool_pb = [], pool_pv = [], pool_pc = [], pool_vc = [], pool_db = db\<rparr>"

fun key_prefix :: "evidence \<Rightarrow> bytes" where
  "key_prefix (DuplicatePrepareBlockEvidence a b) = [1]"
| "key_prefix (DuplicatePrepareVoteEvidence a b) = [2]"
| "key_prefix (DuplicateViewChangeEvidence a b) = [3]"
| "key_prefix (DuplicatePrecommitEvidence a b) = []"

definition encodeKey :: "(bytes \<Rightarrow> bytes) \<Rightarrow> evidence \<Rightarrow> identity \<Rightarrow> bytes go" where
  "encodeKey k e i = go_map (\<lambda>h. key_prefix e @ be_bytes 8 (Epoch_de e) @ be_bytes 8 (ViewNumber_de e)
     @ be_bytes 8 (BlockNumber_de e) @ map of_char i @ h) (Hash_de k e)"

text \<open>\<open>commit\<close>: a failed read counts as absent, its error is overwritten by the result of the write.\<close>

definition commit_ev :: "dbFaults \<Rightarrow> (bytes \<Rightarrow> bytes) \<Rightarrow> evidence \<Rightarrow> identity \<Rightarrow> evidencePool \<Rightarrow> (poolErr option \<times> evidencePool) go" where
  "commit_ev flt k e i p = go_map (\<lambda>key.
     if \<not> has_fails flt key \<and> gget (pool_db p) key \<noteq> None then (None, p)
     else if put_fails flt key then (Some DbError, p)
     else (None, p\<lparr>pool_db := gset key e (pool_db p)\<rparr>)) (encodeKey k e i)"

text \<open>What an \<open>AddX\<close> does with the result of the map's \<open>Add\<close>.\<close>

definition report :: "dbFaults \<Rightarrow> (bytes \<Rightarrow> bytes) \<Rightarrow> identity \<Rightarrow> evidence option \<Rightarrow> evidencePool \<Rightarrow> (poolErr option \<times> evidencePool) go" where
  "report flt k i err p =
     (case err of None \<Rightarrow> Inr (None, p)
      | Some evidence \<Rightarrow> go_map (\<lambda>(cerr, p). (case cerr of Some e \<Rightarrow> Some e | None \<Rightarrow> Some (Duplicate evidence), p))
          (commit_ev flt k evidence i p))"

definition AddPrepareBlock_ev :: "dbFaults \<Rightarrow> (bytes \<Rightarrow> bytes) \<Rightarrow> prepareBlock \<Rightarrow> validateNode \<Rightarrow> evidencePool \<Rightarrow> (poolErr option \<times> evidencePool) go" where
  "AddPrepareBlock_ev flt k pb node p =
     (let i = verifyIdentity (CPrepareBlock pb);
          (err, m) = Add_ev Add_opb (NewEvidencePrepare k pb node) i (pool_pb p)
      in report flt k i (map_option (\<lambda>(a, b). DuplicatePrepareBlockEvidence a b) err) (p\<lparr>pool_pb := m\<rparr>))"

definition AddPrepareVote_ev :: "dbFaults \<Rightarrow> (bytes \<Rightarrow> bytes) \<Rightarrow> prepareVote \<Rightarrow> validateNode \<Rightarrow> evidencePool \<Rightarrow> (poolErr option \<times> evidencePool) go" where
  "AddPrepareVote_ev flt k pv node p =
     (let i = verifyIdentity (CPrepareVote pv);
          (err, m) = Add_ev Add_opv (NewEvidenceVote pv node) i (pool_pv p)
      in report flt k i (map_option (\<lambda>(a, b). DuplicatePrepareVoteEvidence a b) err) (p\<lparr>pool_pv := m\<rparr>))"

definition AddPreCommit_ev :: "dbFaults \<Rightarrow> (bytes \<Rightarrow> bytes) \<Rightarrow> preCommit \<Rightarrow> validateNode \<Rightarrow> evidencePool \<Rightarrow> (poolErr option \<times> evidencePool) go" where
  "AddPreCommit_ev flt k pc node p =
     (let i = verifyIdentity (CPreCommit pc);
          (err, m) = Add_ev Add_opc (NewEvidencePrecommit pc node) i (pool_pc p)
      in report flt k i (map_option (\<lambda>(a, b). DuplicatePrecommitEvidence a b) err) (p\<lparr>pool_pc := m\<rparr>))"

definition AddViewChange_ev :: "dbFaults \<Rightarrow> (bytes \<Rightarrow> bytes) \<Rightarrow> viewChange \<Rightarrow> validateNode \<Rightarrow> evidencePool \<Rightarrow> (poolErr option \<times> evidencePool) go" where
  "AddViewChange_ev flt k vc node p =
     (let i = verifyIdentity (CViewChange vc);
          (err, m) = Add_ev Add_ovc (NewEvidenceView vc node) i (pool_vc p)
      in report flt k i (map_option (\<lambda>(a, b). DuplicateViewChangeEvidence a b) err) (p\<lparr>pool_vc := m\<rparr>))"

text \<open>\<open>Evidences\<close> decodes a value as the kind its key's first byte names.  Vote and pre-commit evidence
  have the same RLP shape; any other mismatch does not decode.\<close>

fun decode_as :: "u8 \<Rightarrow> evidence \<Rightarrow> evidence option" where
  "decode_as flag (DuplicatePrepareBlockEvidence a b) = (if flag = 1 then Some (DuplicatePrepareBlockEvidence a b) else None)"
| "decode_as flag (DuplicatePrepareVoteEvidence a b) = (if flag = 2 then Some (DuplicatePrepareVoteEvidence a b) else None)"
| "decode_as flag (DuplicateViewChangeEvidence a b) = (if flag = 3 then Some (DuplicateViewChangeEvidence a b) else None)"
| "decode_as flag (DuplicatePrecommitEvidence a b) = (if flag = 2 then
     Some (let vote = (\<lambda>c. \<lparr>ev_Epoch = ec_Epoch c, ev_ViewNumber = ec_ViewNumber c, ev_BlockHash = ec_BlockHash c,
       ev_BlockNumber = ec_BlockNumber c, ev_BlockIndex = ec_BlockIndex c, ev_ValidateNode = ec_ValidateNode c,
       ev_Signature = ec_Signature c\<rparr>) in DuplicatePrepareVoteEvidence (vote a) (vote b)) else None)"

definition Evidences :: "evidencePool \<Rightarrow> evidence list go" where
  "Evidences p = go_fold (\<lambda>(key, e) evds. go_map (\<lambda>flag.
     case decode_as flag e of Some d \<Rightarrow> evds @ [d] | None \<Rightarrow> evds) (go_index key 0)) (pool_db p) []"

definition Clear_pool :: "u64 \<Rightarrow> u64 \<Rightarrow> evidencePool \<Rightarrow> evidencePool go" where
  "Clear_pool epoch n p =
     go_bind (Clear_ev epoch n (pool_pb p)) (\<lambda>pb. go_bind (Clear_ev epoch n (pool_pv p)) (\<lambda>pv.
     go_bind (Clear_ev epoch n (pool_pc p)) (\<lambda>pc. go_map (\<lambda>vc.
       p\<lparr>pool_pb := pb, pool_pv := pv, pool_pc := pc, pool_vc := vc\<rparr>) (Clear_ev epoch n (pool_vc p)))))"

section \<open>Identities: printing and parsing\<close>

lemma of_char_digit: "d < 10 \<Longrightarrow> of_char (digit d) = 48 + d"
  by (simp add: digit_def)

lemma is_digit_digit: "d < 10 \<Longrightarrow> is_digit (digit d)"
  by (simp add: is_digit_def of_char_digit)

declare dec.simps [simp del]

lemma dec_digits: "list_all is_digit (dec n) \<and> dec n \<noteq> []"
proof (induction n rule: dec.induct)
  case (1 n)
  show ?case
    by (cases "n < 10") (use 1 in \<open>simp_all add: dec.simps [of n] is_digit_digit\<close>)
qed

lemma dec_value_dec: "dec_value (dec n) = n"
proof (induction n rule: dec.induct)
  case (1 n)
  show ?case
  proof (cases "n < 10")
    case True then show ?thesis by (simp add: dec.simps [of n] dec_value_def of_char_digit)
  next
    case False
    then have "dec_value (dec n) = 10 * (n div 10) + n mod 10"
      using 1 by (simp add: dec.simps [of n] dec_value_def of_char_digit)
    then show ?thesis by simp
  qed
qed

lemma parseUint_dec: "parseUint (dec (unat (w :: u64))) = w"
  using unsigned_less [of w, where 'a = nat] by (simp add: parseUint_def dec_digits dec_value_dec)

lemma bar_not_in_dec: "CHR ''|'' \<notin> set (dec n)"
  using dec_digits [of n] by (auto simp: list_all_iff is_digit_def)

lemma split_at_bar: "c \<notin> set x \<Longrightarrow> split_at c (x @ c # r) = x # split_at c r"
  by (induction x) auto

lemma split_at_none: "c \<notin> set x \<Longrightarrow> split_at c x = [x]"
  by (induction x) auto

lemma split_identity:
  "split_at CHR ''|'' (identity_of e n v i) = [dec (unat e), dec (unat n), dec (unat v), dec (unat i)]"
  by (simp add: identity_of_def split_at_bar split_at_none bar_not_in_dec)

lemma dec_unat_inj: "dec (unat a) = dec (unat b) \<longleftrightarrow> a = b"
  by (metis dec_value_dec word_unat_eq_iff)

lemma identity_of_inj:
  "identity_of e n v i = identity_of e' n' v' i' \<longleftrightarrow> e = e' \<and> n = n' \<and> v = v' \<and> i = i'"
proof
  assume "identity_of e n v i = identity_of e' n' v' i'"
  then have "[dec (unat e), dec (unat n), dec (unat v), dec (unat i)] =
      [dec (unat e'), dec (unat n'), dec (unat v'), dec (unat i')]"
    by (metis split_identity)
  then show "e = e' \<and> n = n' \<and> v = v' \<and> i = i'" by (simp only: list.inject dec_unat_inj simp_thms)
qed simp

lemma stale_identity: "stale epoch number (identity_of e n v i) = Inr (e < epoch \<or> e = epoch \<and> n \<le> number)"
  by (simp add: stale_def split_identity parseUint_dec)

section \<open>A log of first messages\<close>

text \<open>What the evidence maps promise: per key the first message is kept, a later one with another hash is
  reported together with it.\<close>

locale first_log =
  fixes add :: "'m \<Rightarrow> 'p \<Rightarrow> ('s \<times> 's) option \<times> 'p"
    and first :: "'p \<Rightarrow> 'k \<Rightarrow> 's option"
    and ok :: "'p \<Rightarrow> bool"
    and key :: "'m \<Rightarrow> 'k"
    and form :: "'m \<Rightarrow> 's"
    and h :: "'s \<Rightarrow> hash"
  assumes ok_add: "ok p \<Longrightarrow> ok (snd (add m p))"
    and first_add: "ok p \<Longrightarrow> first (snd (add m p)) =
      (if first p (key m) = None then (first p)(key m \<mapsto> form m) else first p)"
    and reported: "ok p \<Longrightarrow> fst (add m p) = (case first p (key m) of None \<Rightarrow> None
      | Some f \<Rightarrow> if h f = h (form m) then None else Some (ordered_pair h (form m) f))"
begin

definition run :: "'m list \<Rightarrow> 'p \<Rightarrow> 'p" where
  "run ms p = fold (\<lambda>m p. snd (add m p)) ms p"

lemma ok_run: "ok p \<Longrightarrow> ok (run ms p)"
  unfolding run_def by (induction ms arbitrary: p) (simp_all add: ok_add)

lemma first_run:
  "ok p \<Longrightarrow> first (run ms p) k =
    (case first p k of Some f \<Rightarrow> Some f | None \<Rightarrow> map_option form (first_match (\<lambda>m. key m = k) ms))"
  unfolding run_def
  by (induction ms arbitrary: p) (auto simp: ok_add first_add split: option.splits)

lemma run_reports:
  assumes "ok p" "first p = (\<lambda>_. None)"
  shows "fst (add m (run ms p)) = (case first_match (\<lambda>m'. key m' = key m) ms of None \<Rightarrow> None
    | Some f \<Rightarrow> if h (form f) = h (form m) then None else Some (ordered_pair h (form m) (form f)))"
  using reported [OF ok_run [OF assms(1)], of m ms] first_run [OF assms(1), of ms "key m"] assms(2)
  by (auto split: option.splits)

end

text \<open>The maps of lists satisfy it when the list's search compares exactly what the identity holds:
  epoch, number and view.\<close>

definition first_ev :: "(identity, 'e list) gomap \<Rightarrow> identity \<Rightarrow> 'e option" where
  "first_ev m i = (case gget m i of Some (x # _) \<Rightarrow> Some x | _ \<Rightarrow> None)"

definition log_ok :: "('e \<Rightarrow> u64 \<times> u64 \<times> u64) \<Rightarrow> (identity, 'e list) gomap \<Rightarrow> bool" where
  "log_ok T m \<longleftrightarrow> (\<forall>i l. gget m i = Some l \<longrightarrow>
     (\<exists>x idx. l = [x] \<and> (case T x of (e, n, v) \<Rightarrow> i = identity_of e n v idx)))"

definition list_add :: "('e \<Rightarrow> u64 \<times> u64 \<times> u64) \<Rightarrow> ('e \<Rightarrow> hash) \<Rightarrow> ('e \<Rightarrow> u64) \<Rightarrow> 'e \<Rightarrow> 'e list \<Rightarrow> ('e \<times> 'e) option \<times> 'e list" where
  "list_add T h s x l = (case first_match (\<lambda>y. T y = T x) l of
     Some f \<Rightarrow> (if h f \<noteq> h x then Some (ordered_pair h x f) else None, l) | None \<Rightarrow> (None, sort_key s (l @ [x])))"

lemma Add_as_list_add:
  "Add_opb = list_add (\<lambda>x. (ep_Epoch x, ep_BlockNumber x, ep_ViewNumber x)) ep_BlockHash ep_ViewNumber"
  "Add_opv = list_add (\<lambda>x. (ev_Epoch x, ev_BlockNumber x, ev_ViewNumber x)) ev_BlockHash ev_BlockNumber"
  "Add_opc = list_add (\<lambda>x. (ec_Epoch x, ec_BlockNumber x, ec_ViewNumber x)) ec_BlockHash ec_BlockNumber"
  unfolding fun_eq_iff Add_opb_def Add_opv_def Add_opc_def find_opb_def find_opv_def find_opc_def list_add_def
    prod.inject by (simp_all add: conj_commute)

lemma first_ev_gset: "first_ev (gset i l m) = (case l of [] \<Rightarrow> (first_ev m)(i := None) | x # _ \<Rightarrow> (first_ev m)(i \<mapsto> x))"
  by (auto simp: first_ev_def fun_eq_iff split: list.splits)

lemma log_ok_gset:
  assumes "log_ok T m" "T x = (e, n, v)" shows "log_ok T (gset (identity_of e n v idx) [x] m)"
  unfolding log_ok_def
proof (intro allI impI)
  fix i l assume l: "gget (gset (identity_of e n v idx) [x] m) i = Some l"
  show "\<exists>x idx. l = [x] \<and> (case T x of (e, n, v) \<Rightarrow> i = identity_of e n v idx)"
  proof (cases "i = identity_of e n v idx")
    case True then show ?thesis using l assms(2) by (intro exI [of _ x] exI [of _ idx]) simp
  next
    case False then show ?thesis using l assms(1) by (simp add: log_ok_def)
  qed
qed

lemma Add_ev_log:
  assumes ok: "log_ok T m" and T: "T x = (e, n, v)" and i: "i = identity_of e n v idx"
  shows "log_ok T (snd (Add_ev (list_add T h s) x i m))
    \<and> first_ev (snd (Add_ev (list_add T h s) x i m)) =
      (if first_ev m i = None then (first_ev m)(i \<mapsto> x) else first_ev m)
    \<and> fst (Add_ev (list_add T h s) x i m) = (case first_ev m i of None \<Rightarrow> None
      | Some f \<Rightarrow> if h f = h x then None else Some (ordered_pair h x f))" (is ?thesis)
proof (cases "gget m i")
  case None
  then have "first_ev m i = None" by (simp add: first_ev_def)
  moreover have "Add_ev (list_add T h s) x i m = (None, gset i [x] m)"
    using None by (simp add: Add_ev_def list_add_def)
  ultimately show ?thesis using log_ok_gset [of T m x e n v idx] ok T i by (simp add: first_ev_gset)
next
  case (Some l)
  with ok obtain y idx' where l: "l = [y]" and y: "case T y of (e, n, v) \<Rightarrow> i = identity_of e n v idx'"
    unfolding log_ok_def by metis
  obtain e' n' v' where T': "T y = (e', n', v')" by (rule prod_cases3)
  with y i have eq: "e' = e" "n' = n" "v' = v" by (simp_all add: identity_of_inj)
  have f: "first_ev m i = Some y" using Some l by (simp add: first_ev_def)
  have "Add_ev (list_add T h s) x i m = (if h y = h x then None else Some (ordered_pair h x y), gset i [y] m)"
    using Some l T T' eq by (simp add: Add_ev_def list_add_def)
  moreover have "first_ev (gset i [y] m) = first_ev m" using f by (simp add: first_ev_gset fun_upd_idem)
  ultimately show ?thesis using log_ok_gset [of T m y e n v idx] ok T' eq i f by simp
qed

lemma first_logI:
  assumes "\<And>p m. ok p \<Longrightarrow> ok (snd (add m p))
    \<and> first (snd (add m p)) = (if first p (key m) = None then (first p)(key m \<mapsto> form m) else first p)
    \<and> fst (add m p) = (case first p (key m) of None \<Rightarrow> None
      | Some f \<Rightarrow> if h f = h (form m) then None else Some (ordered_pair h (form m) f))"
  shows "first_log add first ok key form h"
  by unfold_locales (simp_all add: assms)

text \<open>The log of a message kind: the map's \<open>Add\<close> on the evidence form of a message and its sender.\<close>

definition log_block :: "(bytes \<Rightarrow> bytes) \<Rightarrow> prepareBlock \<times> validateNode \<Rightarrow> (identity, evidencePrepare list) gomap
    \<Rightarrow> (evidencePrepare \<times> evidencePrepare) option \<times> (identity, evidencePrepare list) gomap" where
  "log_block k m = Add_ev Add_opb (NewEvidencePrepare k (fst m) (snd m)) (verifyIdentity (CPrepareBlock (fst m)))"

definition log_vote :: "prepareVote \<times> validateNode \<Rightarrow> (identity, evidenceVote list) gomap
    \<Rightarrow> (evidenceVote \<times> evidenceVote) option \<times> (identity, evidenceVote list) gomap" where
  "log_vote m = Add_ev Add_opv (NewEvidenceVote (fst m) (snd m)) (verifyIdentity (CPrepareVote (fst m)))"

definition log_precommit :: "preCommit \<times> validateNode \<Rightarrow> (identity, evidencePrecommit list) gomap
    \<Rightarrow> (evidencePrecommit \<times> evidencePrecommit) option \<times> (identity, evidencePrecommit list) gomap" where
  "log_precommit m = Add_ev Add_opc (NewEvidencePrecommit (fst m) (snd m)) (verifyIdentity (CPreCommit (fst m)))"

interpretation block_log: first_log "log_block k" first_ev
    "log_ok (\<lambda>x. (ep_Epoch x, ep_BlockNumber x, ep_ViewNumber x))" "\<lambda>m. verifyIdentity (CPrepareBlock (fst m))"
    "\<lambda>m. NewEvidencePrepare k (fst m) (snd m)" ep_BlockHash for k
  by (rule first_logI, unfold log_block_def Add_as_list_add, rule Add_ev_log, assumption)
    (simp_all add: NewEvidencePrepare_def)

interpretation vote_log: first_log log_vote first_ev
    "log_ok (\<lambda>x. (ev_Epoch x, ev_BlockNumber x, ev_ViewNumber x))" "\<lambda>m. verifyIdentity (CPrepareVote (fst m))"
    "\<lambda>m. NewEvidenceVote (fst m) (snd m)" ev_BlockHash
  by (rule first_logI, unfold log_vote_def Add_as_list_add, rule Add_ev_log, assumption)
    (simp_all add: NewEvidenceVote_def)

interpretation precommit_log: first_log log_precommit first_ev
    "log_ok (\<lambda>x. (ec_Epoch x, ec_BlockNumber x, ec_ViewNumber x))" "\<lambda>m. verifyIdentity (CPreCommit (fst m))"
    "\<lambda>m. NewEvidencePrecommit (fst m) (snd m)" ec_BlockHash
  by (rule first_logI, unfold log_precommit_def Add_as_list_add, rule Add_ev_log, assumption)
    (simp_all add: NewEvidencePrecommit_def)

lemma log_ok_empty [simp]: "log_ok T []" and first_ev_empty [simp]: "first_ev [] = (\<lambda>_. None)"
  by (simp_all add: log_ok_def first_ev_def fun_eq_iff)

section \<open>Digests and hashes never panic\<close>

fun small :: "rval \<Rightarrow> bool" where
  "small (RUint _) = True"
| "small (RBytes b) = (length b \<le> 100)"
| "small _ = False"

lemma headsize_le: "headsize n \<le> 9"
  using intsize_bounds [of n] by (simp add: headsize_def)

lemma length_enc_small: "small v \<Longrightarrow> length (enc v) \<le> 109"
proof (cases v)
  case (RUint i) then show ?thesis using length_enc_RUint [of i] by simp
next
  case (RBytes b)
  assume "small v"
  then show ?thesis using RBytes headsize_le [of "word_of_nat (length b)"]
    by (simp add: enc_str_def length_puthead)
qed simp_all

lemma cannibalize_small:
  assumes "list_all small fs" "length fs \<le> 10"
  shows "cannibalize k fs = Inr (Inr (k (enc (RList fs)))) \<and> length (enc (RList fs)) < 2 ^ 64"
proof -
  have "length (concat (map enc fs)) \<le> 109 * length fs"
    using assms(1) by (induction fs) (auto dest: length_enc_small simp del: enc.simps)
  then have len: "length (enc (RList fs)) \<le> 9 + 1090"
    using assms(2) headsize_le [of "word_of_nat (length (concat (map enc fs)))"]
    by (simp add: length_puthead Let_def del: enc.simps(1-6))
  moreover have "enc_ok v" if "small v" for v using that by (cases v) simp_all
  then have "enc_ok (RList fs)" using assms(1) by (simp add: list_all_iff)
  ultimately show ?thesis using EncodeToBytes_enc [of "RList fs" fresh_encbuf]
    by (simp add: cannibalize_def del: enc.simps)
qed

lemma length_Bytes_sig [simp]: "length (Bytes_sig s) = length s"
  by (simp add: Bytes_sig_def)

lemma hash_pair_total:
  assumes "\<forall>b. length (k b) = 32" "length sa = SignatureLength" "length sb = SignatureLength"
  shows "\<exists>h. hash_pair k (Inr (Inr (k x))) sa (Inr (Inr (k y))) sb = Inr h"
  using cannibalize_small [of "[RBytes (k x), RBytes (Bytes_sig sa), RBytes (k y), RBytes (Bytes_sig sb)]" k] assms
  by (simp add: hash_pair_def SignatureLength_def del: enc.simps)

lemma CannibalizeBytes_ev_small:
  "CannibalizeBytes_ev k ev = Inr (Inr (k (enc (RList [RUint (ev_Epoch ev), RUint (ev_ViewNumber ev),
     RBytes (hash_bytes (ev_BlockHash ev)), RUint (ev_BlockNumber ev), RUint (ucast (ev_BlockIndex ev))]))))"
  using cannibalize_small [of "[RUint (ev_Epoch ev), RUint (ev_ViewNumber ev),
     RBytes (hash_bytes (ev_BlockHash ev)), RUint (ev_BlockNumber ev), RUint (ucast (ev_BlockIndex ev))]" k]
  by (simp add: CannibalizeBytes_ev_def del: enc.simps)

lemma CannibalizeBytes_ep_small:
  "length (ep_BlockData ep) \<le> 100 \<Longrightarrow> CannibalizeBytes_ep k ep = Inr (Inr (k (enc (RList [RUint (ep_Epoch ep),
     RUint (ep_ViewNumber ep), RBytes (hash_bytes (ep_BlockHash ep)), RUint (ep_BlockNumber ep), RBytes (ep_BlockData ep),
     RUint (ucast (ep_BlockIndex ep)), RUint (ucast (en_Index (ep_ValidateNode ep)))]))))"
  using cannibalize_small [of "[RUint (ep_Epoch ep), RUint (ep_ViewNumber ep), RBytes (hash_bytes (ep_BlockHash ep)),
     RUint (ep_BlockNumber ep), RBytes (ep_BlockData ep), RUint (ucast (ep_BlockIndex ep)),
     RUint (ucast (en_Index (ep_ValidateNode ep)))]" k]
  by (simp add: CannibalizeBytes_ep_def del: enc.simps)

text \<open>Without write failures the duplicate is returned and found in the database under its key.\<close>

lemma report_stores:
  assumes "\<forall>key. \<not> put_fails flt key" "encodeKey k d i = Inr key"
  shows "\<exists>p'. report flt k i (Some d) p = Inr (Some (Duplicate d), p') \<and> gget (pool_db p') key \<noteq> None
    \<and> (gget (pool_db p) key = None \<longrightarrow> gget (pool_db p') key = Some d)
    \<and> p' = p\<lparr>pool_db := pool_db p'\<rparr>"
  using assms by (auto simp: report_def commit_ev_def)

lemma report_None [simp]: "report flt k i None p = Inr (None, p)"
  by (simp add: report_def)

lemma encodeKey_vote:
  assumes "\<forall>b. length (k b) = 32" "length (ev_Signature a) = SignatureLength" "length (ev_Signature b) = SignatureLength"
  shows "\<exists>key. encodeKey k (DuplicatePrepareVoteEvidence a b) i = Inr key"
proof -
  obtain h where "Hash_de k (DuplicatePrepareVoteEvidence a b) = Inr h"
    using hash_pair_total [OF assms] unfolding Hash_de.simps Hash_dv_def CannibalizeBytes_ev_small by blast
  then show ?thesis unfolding encodeKey_def by simp
qed

lemma encodeKey_block:
  assumes "\<forall>b. length (k b) = 32" "length (ep_Signature a) = SignatureLength" "length (ep_Signature b) = SignatureLength"
    and "length (ep_BlockData a) \<le> 100" "length (ep_BlockData b) \<le> 100"
  shows "\<exists>key. encodeKey k (DuplicatePrepareBlockEvidence a b) i = Inr (1 # key)"
proof -
  obtain h where "Hash_de k (DuplicatePrepareBlockEvidence a b) = Inr h"
    using hash_pair_total [OF assms(1-3)]
    unfolding Hash_de.simps Hash_dp_def CannibalizeBytes_ep_small [OF assms(4)] CannibalizeBytes_ep_small [OF assms(5)] by blast
  then show ?thesis unfolding encodeKey_def by simp
qed

text \<open>Feeding a sequence of votes to the pool.\<close>

definition add_votes :: "dbFaults \<Rightarrow> (bytes \<Rightarrow> bytes) \<Rightarrow> (prepareVote \<times> validateNode) list \<Rightarrow> evidencePool \<Rightarrow> evidencePool go" where
  "add_votes flt k ms = go_fold (\<lambda>m p. go_map snd (AddPrepareVote_ev flt k (fst m) (snd m) p)) ms"

definition sealed :: "prepareVote \<times> validateNode \<Rightarrow> bool" where
  "sealed m \<longleftrightarrow> length (pv_Signature (fst m)) = SignatureLength"

abbreviation pv_slot :: "prepareVote \<Rightarrow> u64 \<times> u64 \<times> u64 \<times> u32" where
  "pv_slot pv \<equiv> (pv_Epoch pv, pv_BlockNumber pv, pv_ViewNumber pv, pv_ValidatorIndex pv)"

definition vote_pair :: "evidenceVote \<times> evidenceVote \<Rightarrow> evidence" where
  "vote_pair ab = DuplicatePrepareVoteEvidence (fst ab) (snd ab)"

lemma ev_BlockHash_New [simp]: "ev_BlockHash (NewEvidenceVote pv node) = pv_BlockHash pv"
  by (simp add: NewEvidenceVote_def)

lemma AddPrepareVote_as_log:
  "AddPrepareVote_ev flt k pv node p = report flt k (verifyIdentity (CPrepareVote pv))
     (map_option vote_pair (fst (log_vote (pv, node) (pool_pv p)))) (p\<lparr>pool_pv := snd (log_vote (pv, node) (pool_pv p))\<rparr>)"
  by (simp add: AddPrepareVote_ev_def log_vote_def vote_pair_def [abs_def] case_prod_unfold Let_def)

text \<open>Every vote held by the log is sealed.\<close>

definition sealed_log :: "(identity, evidenceVote list) gomap \<Rightarrow> bool" where
  "sealed_log m \<longleftrightarrow> (\<forall>i x. first_ev m i = Some x \<longrightarrow> length (ev_Signature x) = SignatureLength)"

abbreviation vote_ok :: "(identity, evidenceVote list) gomap \<Rightarrow> bool" where
  "vote_ok \<equiv> log_ok (\<lambda>x. (ev_Epoch x, ev_BlockNumber x, ev_ViewNumber x))"

lemma AddPrepareVote_total:
  assumes k: "\<forall>b. length (k b) = 32" and flt: "\<forall>key. \<not> put_fails flt key"
    and ok: "vote_ok (pool_pv p)" "sealed_log (pool_pv p)" and s: "length (pv_Signature pv) = SignatureLength"
  shows "\<exists>p'. AddPrepareVote_ev flt k pv node p =
      Inr (map_option (\<lambda>ab. Duplicate (vote_pair ab)) (fst (log_vote (pv, node) (pool_pv p))), p')
    \<and> pool_pv p' = snd (log_vote (pv, node) (pool_pv p))
    \<and> (\<forall>ab. fst (log_vote (pv, node) (pool_pv p)) = Some ab \<longrightarrow>
         (\<exists>key. encodeKey k (vote_pair ab) (verifyIdentity (CPrepareVote pv)) = Inr key \<and> gget (pool_db p') key \<noteq> None))"
proof (cases "fst (log_vote (pv, node) (pool_pv p))")
  case None then show ?thesis by (simp add: AddPrepareVote_as_log)
next
  case (Some ab)
  let ?i = "verifyIdentity (CPrepareVote pv)" and ?x = "NewEvidenceVote pv node"
  obtain f where f: "first_ev (pool_pv p) ?i = Some f" and ab: "ab = ordered_pair ev_BlockHash ?x f"
    using Some vote_log.reported [OF ok(1), of "(pv, node)"] by (auto split: option.splits if_splits)
  have len: "length (ev_Signature f) = SignatureLength" "length (ev_Signature ?x) = SignatureLength"
    using f ok(2) s by (auto simp: sealed_log_def NewEvidenceVote_def)
  then have "\<exists>key. encodeKey k (vote_pair ab) ?i = Inr key"
    using encodeKey_vote [OF k len(1) len(2), of ?i] encodeKey_vote [OF k len(2) len(1), of ?i]
    by (cases "ev_BlockHash f < ev_BlockHash ?x") (simp_all add: ab ordered_pair_def vote_pair_def)
  then obtain key where key: "encodeKey k (vote_pair ab) ?i = Inr key" by blast
  obtain p' where "report flt k ?i (Some (vote_pair ab)) (p\<lparr>pool_pv := snd (log_vote (pv, node) (pool_pv p))\<rparr>)
      = Inr (Some (Duplicate (vote_pair ab)), p')" "gget (pool_db p') key \<noteq> None"
      "pool_pv p' = snd (log_vote (pv, node) (pool_pv p))"
    using report_stores [OF flt key, of "p\<lparr>pool_pv := snd (log_vote (pv, node) (pool_pv p))\<rparr>"]
    by (metis (no_types, lifting) evidencePool.select_convs(2) evidencePool.surjective evidencePool.update_convs(2,5))
  then show ?thesis using Some key by (simp add: AddPrepareVote_as_log)
qed

lemma sealed_log_add:
  "vote_ok m \<Longrightarrow> sealed_log m \<Longrightarrow> length (pv_Signature pv) = SignatureLength \<Longrightarrow> sealed_log (snd (log_vote (pv, node) m))"
  by (simp add: sealed_log_def vote_log.first_add NewEvidenceVote_def)

lemma add_votes_total:
  assumes k: "\<forall>b. length (k b) = 32" and flt: "\<forall>key. \<not> put_fails flt key"
  shows "vote_ok (pool_pv p) \<Longrightarrow> sealed_log (pool_pv p) \<Longrightarrow> list_all sealed ms \<Longrightarrow>
    \<exists>p'. add_votes flt k ms p = Inr p' \<and> pool_pv p' = vote_log.run ms (pool_pv p) \<and> sealed_log (pool_pv p')"
proof (induction ms arbitrary: p)
  case (Cons m ms)
  obtain p' where p': "AddPrepareVote_ev flt k (fst m) (snd m) p =
      Inr (map_option (\<lambda>ab. Duplicate (vote_pair ab)) (fst (log_vote (fst m, snd m) (pool_pv p))), p')"
      "pool_pv p' = snd (log_vote (fst m, snd m) (pool_pv p))"
    using AddPrepareVote_total [OF k flt Cons.prems(1,2), of "fst m" "snd m"] Cons.prems(3) by (auto simp: sealed_def)
  have "vote_ok (pool_pv p')" "sealed_log (pool_pv p')"
    using vote_log.ok_add [OF Cons.prems(1)] sealed_log_add [OF Cons.prems(1,2), of "fst m" "snd m"] p'(2) Cons.prems(3)
    by (simp_all add: sealed_def)
  then show ?case using Cons.IH [of p'] Cons.prems(3) p' by (simp add: add_votes_def vote_log.run_def)
qed (simp add: add_votes_def vote_log.run_def)

section \<open>Evidence of double proposals verifies\<close>

lemma CannibalizeBytes_NewEvidencePrepare:
  assumes "\<forall>b. length (k b) = 32" "vn_Index node = pb_ProposalIndex pb"
  shows "CannibalizeBytes_ep k (NewEvidencePrepare k pb node) = CannibalizeBytes_pb k pb"
  using assms by (simp add: CannibalizeBytes_ep_def CannibalizeBytes_pb_def NewEvidencePrepare_def NewEvidenceNode_def
    BytesToHash_32)

definition signed_block :: "bls \<Rightarrow> (bytes \<Rightarrow> bytes) \<Rightarrow> validateNode \<Rightarrow> prepareBlock \<Rightarrow> bool" where
  "signed_block B k node pb \<longleftrightarrow> pb_ProposalIndex pb = vn_Index node \<and> length (pb_Signature pb) = SignatureLength
     \<and> (\<exists>data. CannibalizeBytes_pb k pb = Inr (Inr data) \<and> Verify_node B node data (Bytes_sig (pb_Signature pb)) = None)"

lemma Verify_NewEvidencePrepare:
  assumes "\<forall>b. length (k b) = 32" "signed_block B k node pb"
  shows "Verify_ep B k (NewEvidencePrepare k pb node) = Inr True"
  using assms CannibalizeBytes_NewEvidencePrepare [of k node pb]
  by (auto simp: signed_block_def Verify_ep_def verify_digest_def Verify_en_def Verify_node_def
      NewEvidencePrepare_def NewEvidenceNode_def split: option.splits if_splits)

lemma Validate_blocks:
  assumes "\<forall>b. length (k b) = 32" "signed_block B k node x" "signed_block B k node y"
    and "pb_Epoch x = pb_Epoch y" "pb_ViewNumber x = pb_ViewNumber y" "blk_Number (pb_Block x) = blk_Number (pb_Block y)"
    and "blk_Hash (pb_Block x) \<noteq> blk_Hash (pb_Block y)"
  shows "Validate B k (DuplicatePrepareBlockEvidence (NewEvidencePrepare k x node) (NewEvidencePrepare k y node)) = Inr None"
  using Verify_NewEvidencePrepare [OF assms(1,2)] Verify_NewEvidencePrepare [OF assms(1,3)] assms(4-7)
  by (simp add: Validate_dp_def node_differs_def NewEvidencePrepare_def)

section \<open>Evidence of double votes and view changes\<close>

text \<open>The evidence digest of a vote has five fields, the signed one six.\<close>

definition preimage_ev :: "u64 \<Rightarrow> u64 \<Rightarrow> hash \<Rightarrow> u64 \<Rightarrow> u32 \<Rightarrow> bytes" where
  "preimage_ev a b h c d = enc (RList [RUint a, RUint b, RBytes (hash_bytes h), RUint c, RUint (ucast d)])"

lemma preimage_ev_neq: "preimage_ev a b h c d \<noteq> preimage6 a' b' h' c' d' e'"
proof
  let ?five = "[RUint a, RUint b, RBytes (hash_bytes h), RUint c, RUint (ucast d)]"
  assume "preimage_ev a b h c d = preimage6 a' b' h' c' d' e'"
  then have "enc_item (item_of (RList ?five)) @ [] = enc_item (item_of (RList (digest6 a' b' h' c' d' e'))) @ []"
    by (simp only: preimage_ev_def preimage6_def append_Nil2) (simp add: enc_item_of [symmetric] digest6_def del: enc.simps item_of.simps)
  moreover have "length (enc (RList ?five)) < 2 ^ 64"
    using cannibalize_small [of ?five "\<lambda>x. x"] by (simp del: enc.simps)
  then have "length (enc_item (item_of (RList ?five)) @ []) < 2 ^ 64"
    by (simp add: enc_item_of [symmetric] del: enc.simps item_of.simps)
  ultimately have "item_of (RList ?five) = item_of (RList (digest6 a' b' h' c' d' e'))"
    using enc_item_inj by blast
  then show False by (simp add: digest6_def)
qed

lemma CannibalizeBytes_NewEvidenceVote:
  "CannibalizeBytes_ev k (NewEvidenceVote pv node) =
     Inr (Inr (k (preimage_ev (pv_Epoch pv) (pv_ViewNumber pv) (pv_BlockHash pv) (pv_BlockNumber pv) (pv_BlockIndex pv))))"
  by (simp add: CannibalizeBytes_ev_small preimage_ev_def NewEvidenceVote_def del: enc.simps)

text \<open>View changes of one identity whose block number is not the view: the search compares the view with
  block numbers and never succeeds, so a second view change with another hash is kept silently.\<close>

lemma ViewChange_duplicates_missed:
  assumes "\<forall>x\<in>set l. ew_BlockNumber x = vc_BlockNumber vc" and "vc_BlockNumber vc \<noteq> vc_ViewNumber vc"
    and "gget (pool_vc p) (verifyIdentity (CViewChange vc)) = Some l"
  shows "AddViewChange_ev flt k vc node p = Inr (None, p\<lparr>pool_vc := gset (verifyIdentity (CViewChange vc))
    (sort_key ew_BlockNumber (l @ [NewEvidenceView vc node])) (pool_vc p)\<rparr>)"
proof -
  have "find_ovc l (ew_Epoch (NewEvidenceView vc node)) (ew_ViewNumber (NewEvidenceView vc node)) = None"
    using assms(1,2) by (auto simp: find_ovc_def first_match_None NewEvidenceView_def split: option.splits)
  then show ?thesis using assms(3) by (simp add: AddViewChange_ev_def Add_ev_def Add_ovc_def)
qed

section \<open>Properties\<close>

text \<open>C30: Double prepare votes are found and recorded.  After any sequence of votes was given to a new
  evidence pool whose database accepts writes, adding a vote returns no error if no vote of the same
  epoch, number, view and validator index came before or if the first such vote has the same block hash.
  Otherwise it returns the evidence of exactly these two votes, smaller block hash first, and the database
  holds an entry under the key of that evidence.\<close>
theorem vote_equivocation_found:
  assumes "\<forall>b. length (k b) = 32" and "\<forall>key. \<not> put_fails flt key"
    and "list_all sealed ms" "length (pv_Signature pv) = SignatureLength"
  shows "\<exists>p err p'. add_votes flt k ms (NewBaseEvidencePool db) = Inr p
    \<and> AddPrepareVote_ev flt k pv node p = Inr (err, p')
    \<and> (case first_match (\<lambda>m. pv_slot (fst m) = pv_slot pv) ms of
         None \<Rightarrow> err = None
       | Some m \<Rightarrow> if pv_BlockHash (fst m) = pv_BlockHash pv then err = None
           else let (a, b) = (if pv_BlockHash pv > pv_BlockHash (fst m)
                  then (NewEvidenceVote (fst m) (snd m), NewEvidenceVote pv node)
                  else (NewEvidenceVote pv node, NewEvidenceVote (fst m) (snd m)));
                    d = DuplicatePrepareVoteEvidence a b
                in err = Some (Duplicate d)
                  \<and> (\<exists>key. encodeKey k d (verifyIdentity (CPrepareVote pv)) = Inr key \<and> gget (pool_db p') key \<noteq> None))"
proof -
  let ?P0 = "NewBaseEvidencePool db"
  have ok0: "vote_ok (pool_pv ?P0)" "sealed_log (pool_pv ?P0)" "first_ev (pool_pv ?P0) = (\<lambda>_. None)"
    by (simp_all add: NewBaseEvidencePool_def sealed_log_def)
  obtain p where p: "add_votes flt k ms ?P0 = Inr p" "pool_pv p = vote_log.run ms (pool_pv ?P0)" "sealed_log (pool_pv p)"
    using add_votes_total [OF assms(1,2) ok0(1,2) assms(3)] by blast
  have ok: "vote_ok (pool_pv p)" using vote_log.ok_run [OF ok0(1)] p(2) by simp
  have slot: "(\<lambda>m'. verifyIdentity (CPrepareVote (fst m')) = verifyIdentity (CPrepareVote (fst (pv, node)))) =
      (\<lambda>m. pv_slot (fst m) = pv_slot pv)"
    by (auto simp: identity_of_inj fun_eq_iff)
  have r: "fst (log_vote (pv, node) (pool_pv p)) = (case first_match (\<lambda>m. pv_slot (fst m) = pv_slot pv) ms of None \<Rightarrow> None
    | Some f \<Rightarrow> if pv_BlockHash (fst f) = pv_BlockHash pv then None
        else Some (ordered_pair ev_BlockHash (NewEvidenceVote pv node) (NewEvidenceVote (fst f) (snd f))))"
    using vote_log.run_reports [OF ok0(1,3), of "(pv, node)" ms, unfolded slot] p(2)
    by (simp only: fst_conv snd_conv ev_BlockHash_New)
  obtain p' where p': "AddPrepareVote_ev flt k pv node p =
      Inr (map_option (\<lambda>ab. Duplicate (vote_pair ab)) (fst (log_vote (pv, node) (pool_pv p))), p')"
      "\<And>ab. fst (log_vote (pv, node) (pool_pv p)) = Some ab \<Longrightarrow>
         \<exists>key. encodeKey k (vote_pair ab) (verifyIdentity (CPrepareVote pv)) = Inr key \<and> gget (pool_db p') key \<noteq> None"
    using AddPrepareVote_total [OF assms(1,2) ok p(3) assms(4), of node] by blast
  show ?thesis
    by (rule exI [of _ p], rule exI, rule exI [of _ p'], intro conjI, rule p(1), rule p'(1))
      (use r p'(2) in \<open>auto simp: ordered_pair_def vote_pair_def Let_def split: option.splits\<close>)
qed

definition no_faults :: dbFaults where
  "no_faults = \<lparr>has_fails = \<lambda>_. False, put_fails = \<lambda>_. False\<rparr>"

definition ev_vote :: "hash \<Rightarrow> prepareVote" where
  "ev_vote h = \<lparr>pv_Epoch = 1, pv_ViewNumber = 2, pv_BlockHash = h, pv_BlockNumber = 7, pv_BlockIndex = 0,
     pv_ValidatorIndex = 0, pv_ParentQC = None, pv_Signature = replicate SignatureLength 0\<rparr>"

theorem vote_equivocation_found_witness:
  "\<exists>p err p'. add_votes no_faults (\<lambda>_. replicate 32 0) [(ev_vote 5, vnode_example 0)] (NewBaseEvidencePool []) = Inr p
    \<and> AddPrepareVote_ev no_faults (\<lambda>_. replicate 32 0) (ev_vote 6) (vnode_example 0) p = Inr (err, p')
    \<and> err = Some (Duplicate (DuplicatePrepareVoteEvidence
         (NewEvidenceVote (ev_vote 5) (vnode_example 0)) (NewEvidenceVote (ev_vote 6) (vnode_example 0))))"
  using vote_equivocation_found [of "\<lambda>_. replicate 32 0" no_faults "[(ev_vote 5, vnode_example 0)]" "ev_vote 6" "[]" "vnode_example 0"]
  by (auto simp: no_faults_def sealed_def ev_vote_def Let_def)

text \<open>C31: Evidence of double proposals convicts.  If a validator signed two proposals of the same epoch,
  view and block number for different blocks, giving both to a new pool with a working database records
  the pair: the second call returns the evidence, \<open>Evidences\<close> lists it, it names the validator, and its
  \<open>Validate\<close> accepts it.\<close>
theorem prepare_evidence_validates:
  assumes "\<forall>b. length (k b) = 32" and "\<forall>key. \<not> put_fails flt key"
    and "signed_block B k node x" "signed_block B k node y"
    and "pb_Epoch x = pb_Epoch y" "pb_ViewNumber x = pb_ViewNumber y" "blk_Number (pb_Block x) = blk_Number (pb_Block y)"
    and "blk_Hash (pb_Block x) \<noteq> blk_Hash (pb_Block y)"
  shows "\<exists>p d p'. AddPrepareBlock_ev flt k x node (NewBaseEvidencePool []) = Inr (None, p)
    \<and> AddPrepareBlock_ev flt k y node p = Inr (Some (Duplicate d), p')
    \<and> Evidences p' = Inr [d] \<and> NodeID_de d = vn_NodeID node \<and> Validate B k d = Inr None"
proof -
  let ?X = "NewEvidencePrepare k x node" and ?Y = "NewEvidencePrepare k y node"
  let ?i = "verifyIdentity (CPrepareBlock x)" and ?P = "NewBaseEvidencePool []"
  have i: "verifyIdentity (CPrepareBlock y) = ?i"
    using assms(3-7) by (simp add: signed_block_def)
  define p where "p = ?P\<lparr>pool_pb := [(?i, [?X])]\<rparr>"
  have one: "AddPrepareBlock_ev flt k x node ?P = Inr (None, p)"
    by (simp add: AddPrepareBlock_ev_def p_def Add_ev_def Add_opb_def find_opb_def NewBaseEvidencePool_def gset_def
      del: verifyIdentity.simps)
  define d where "d = (case ordered_pair ep_BlockHash ?Y ?X of (a, b) \<Rightarrow> DuplicatePrepareBlockEvidence a b)"
  have sig: "length (ep_Signature ?X) = SignatureLength" "length (ep_Signature ?Y) = SignatureLength"
    "length (ep_BlockData ?X) \<le> 100" "length (ep_BlockData ?Y) \<le> 100"
    using assms(3,4) by (simp_all add: signed_block_def NewEvidencePrepare_def length_BytesToHash)
  have "\<exists>key. encodeKey k d ?i = Inr (1 # key)"
    using encodeKey_block [OF assms(1) sig(1,2,3,4), of ?i] encodeKey_block [OF assms(1) sig(2,1,4,3), of ?i]
    by (simp add: d_def ordered_pair_def)
  then obtain key where key: "encodeKey k d ?i = Inr (1 # key)" by blast
  define p' where "p' = p\<lparr>pool_pb := [(?i, [?X])], pool_db := [(1 # key, d)]\<rparr>"
  have find: "find_opb [?X] (ep_Epoch ?Y) (ep_ViewNumber ?Y) (ep_BlockNumber ?Y) = Some ?X" "ep_BlockHash ?X \<noteq> ep_BlockHash ?Y"
    using assms(5-8) by (simp_all add: find_opb_def NewEvidencePrepare_def)
  have two: "AddPrepareBlock_ev flt k y node p = Inr (Some (Duplicate d), p')"
    using find assms(2) key
    by (simp add: AddPrepareBlock_ev_def Add_ev_def Add_opb_def i p_def p'_def gget_def gset_def report_def commit_ev_def
      NewBaseEvidencePool_def d_def [symmetric] Let_def del: verifyIdentity.simps)
  have "Evidences p' = Inr [d]"
    by (simp add: Evidences_def p'_def d_def ordered_pair_def)
  moreover have "NodeID_de d = vn_NodeID node"
    by (simp add: d_def ordered_pair_def NodeID_de_def NewEvidencePrepare_def NewEvidenceNode_def)
  moreover have "Validate B k d = Inr None"
    using Validate_blocks [OF assms(1,3,4-8)] Validate_blocks [OF assms(1,4,3)] assms(5-8)
    by (simp add: d_def ordered_pair_def del: Validate.simps)
  ultimately show ?thesis using one two by blast
qed

definition ev_bls :: "(bytes \<Rightarrow> bool) \<Rightarrow> bls" where
  "ev_bls good = \<lparr>bls_Deserialize = Some, bls_AddSign = (\<lambda>a b. a), bls_AddPub = (\<lambda>a b. a), bls_Verify = (\<lambda>s p d. good d)\<rparr>"

definition ev_block :: "hash \<Rightarrow> prepareBlock" where
  "ev_block h = \<lparr>pb_Epoch = 1, pb_ViewNumber = 2,
     pb_Block = \<lparr>blk_Hash = h, blk_Number = 7, blk_ParentHash = 3, blk_Time = 0, blk_Rlp = [1]\<rparr>, pb_BlockIndex = 0,
     pb_ProposalIndex = 0, pb_PrepareQC = None, pb_ViewChangeQC = None, pb_Signature = replicate SignatureLength 0\<rparr>"

lemma ev_block_signed: "signed_block (ev_bls (\<lambda>_. True)) (\<lambda>_. replicate 32 0) (vnode_example 0) (ev_block h)"
  using cannibalize_small [of "[RUint 1, RUint 2, RBytes (hash_bytes h), RUint 7, RBytes (replicate 32 0), RUint 0, RUint 0]"
      "\<lambda>_. replicate 32 0"]
  by (simp add: signed_block_def ev_block_def CannibalizeBytes_pb_def Verify_node_def ev_bls_def)

theorem prepare_evidence_validates_witness:
  "\<exists>p d p'. AddPrepareBlock_ev no_faults (\<lambda>_. replicate 32 0) (ev_block 5) (vnode_example 0) (NewBaseEvidencePool []) = Inr (None, p)
    \<and> AddPrepareBlock_ev no_faults (\<lambda>_. replicate 32 0) (ev_block 6) (vnode_example 0) p = Inr (Some (Duplicate d), p')
    \<and> Evidences p' = Inr [d] \<and> NodeID_de d = 10 \<and> Validate (ev_bls (\<lambda>_. True)) (\<lambda>_. replicate 32 0) d = Inr None"
  using prepare_evidence_validates [OF _ _ ev_block_signed [of 5] ev_block_signed [of 6], of no_faults]
  by (simp add: ev_block_def no_faults_def)

text \<open>C32: Evidence of double votes convicts nobody.  The digest an \<open>EvidenceVote\<close> is verified against
  leaves out the step that the signed digest of the vote contains.  Where the hash has no collision on the two
  inputs and the validator's signature verifies only against the digest it was made for, \<open>Validate\<close> rejects
  every duplicate-vote evidence that contains the vote.\<close>
theorem vote_evidence_rejected:
  assumes "inj_on k {preimage_pv pv,
      preimage_ev (pv_Epoch pv) (pv_ViewNumber pv) (pv_BlockHash pv) (pv_BlockNumber pv) (pv_BlockIndex pv)}"
    and "\<forall>d. Verify_node B node d (Bytes_sig (pv_Signature pv)) = None \<longrightarrow> CannibalizeBytes_pv k pv = Inr (Inr d)"
  shows "Validate B k (DuplicatePrepareVoteEvidence (NewEvidenceVote pv node) other) \<noteq> Inr None
    \<and> Validate B k (DuplicatePrepareVoteEvidence other (NewEvidenceVote pv node)) \<noteq> Inr None"
proof -
  let ?d = "k (preimage_ev (pv_Epoch pv) (pv_ViewNumber pv) (pv_BlockHash pv) (pv_BlockNumber pv) (pv_BlockIndex pv))"
  have "k (preimage_pv pv) \<noteq> ?d"
    using assms(1) preimage_ev_neq by (metis inj_onD insertI1 insertI2 preimage_pv_def)
  then have "Verify_node B node ?d (Bytes_sig (pv_Signature pv)) \<noteq> None"
    using assms(2) by (auto simp: digest_preimage)
  then have "Verify_ev B k (NewEvidenceVote pv node) = Inr False"
    unfolding Verify_ev_def verify_digest_def CannibalizeBytes_NewEvidenceVote
    by (auto simp: NewEvidenceVote_def Verify_en_def NewEvidenceNode_def Verify_node_def split: option.splits)
  then show ?thesis by (auto simp: Validate_dv_def go_bind_eq_Inr go_map_eq_Inr)
qed

theorem vote_evidence_rejected_witness:
  "Validate (ev_bls (\<lambda>d. d = preimage_pv (ev_vote 5))) (\<lambda>b. b)
     (DuplicatePrepareVoteEvidence (NewEvidenceVote (ev_vote 5) (vnode_example 0)) (NewEvidenceVote (ev_vote 6) (vnode_example 0)))
     \<noteq> Inr None"
  using vote_evidence_rejected [of "\<lambda>b. b" "ev_vote 5" "ev_bls (\<lambda>d. d = preimage_pv (ev_vote 5))" "vnode_example 0"
      "NewEvidenceVote (ev_vote 6) (vnode_example 0)"]
  by (simp add: digest_preimage Verify_node_def ev_bls_def del: Validate.simps)

end
