(* ===== verification/Certificates.thy ===== *)
theory Certificates
  imports Rules Evidence "HOL-Library.Multiset"
begin

text \<open>
  Making and checking certificates (\<open>consensus/pbft/pbft.go\<close>): the signature and certificate checks every
  consensus message passes (\<open>verifyConsensusSign\<close>, \<open>checkPrepareQC\<close>, \<open>verifyPrepareQC\<close>,
  \<open>verifyViewChangeQC\<close>), the aggregation of votes and view changes into certificates
  (\<open>generatePrepareQC\<close>, \<open>generatePreCommitQC\<close>, \<open>generateViewChangeQC\<close>), and the proposer schedule.
  \<open>k\<close> is Keccak-256, \<open>B\<close> the BLS library.  Votes and view changes are given as maps whose order is the
  order in which \<open>range\<close> visits them.
\<close>

section \<open>Errors of handlers\<close>

text \<open>\<open>AuthFailed\<close> is \<open>authFailedError\<close>; the others answer \<open>AuthFailed()\<close> with false or do not implement it.\<close>

datatype handleErr = AuthFailed string | Failed string | VdError vderr | DuplicateMsg evidence | RuleError safetyError

fun authFailed :: "handleErr \<Rightarrow> bool" where
  "authFailed (AuthFailed _) = True"
| "authFailed _ = False"

section \<open>Checking\<close>

definition verifyPrepareQC ::
    "bls \<Rightarrow> (bytes \<Rightarrow> bytes) \<Rightarrow> validatorPool \<Rightarrow> u64 \<Rightarrow> hash \<Rightarrow> quorumCert option \<Rightarrow> handleErr option go" where
  "verifyPrepareQC B k vp oriNum oriHash p =
     (case p of None \<Rightarrow> Inr (Some (Failed ''verify prepare qc failed,qc is nil''))
      | Some qc \<Rightarrow> (case EnableVerifyEpoch vp (q_Epoch qc) of Some err \<Rightarrow> Inr (Some (VdError err))
        | None \<Rightarrow> go_bind (Len_vp vp (q_Epoch qc)) (\<lambda>n. go_bind (Len_qc qc) (\<lambda>signsTotal.
            if signsTotal < threshold n then Inr (Some (AuthFailed ''block qc has small number of signature''))
            else if oriNum \<noteq> q_BlockNumber qc \<or> oriHash \<noteq> q_BlockHash qc
            then Inr (Some (AuthFailed ''verify prepare qc failed,not the corresponding qc''))
            else go_bind (CannibalizeBytes_qc k qc) (\<lambda>d. case d of Inl _ \<Rightarrow> Inr (Some (Failed ''rlp''))
              | Inr cb \<Rightarrow> go_map (\<lambda>err. case err of None \<Rightarrow> None | Some _ \<Rightarrow> Some (AuthFailed ''verify prepare qc failed''))
                  (VerifyAggSigByBA B vp (q_Epoch qc) (q_ValidatorSet qc) cb (Bytes_sig (q_Signature qc))))))))"

text \<open>The loop of \<open>validateViewChangeQC\<close> after the first certificate, with the hashes seen.\<close>

fun same_view_loop :: "u64 \<Rightarrow> u64 \<Rightarrow> viewChangeQuorumCert list \<Rightarrow> hash list \<Rightarrow> handleErr option" where
  "same_view_loop epoch viewNumber [] existHash = None"
| "same_view_loop epoch viewNumber (vc # vcs) existHash =
     (if epoch \<noteq> vq_Epoch vc \<or> viewNumber \<noteq> vq_ViewNumber vc then Some (Failed ''has multiple view messages'')
      else if vq_BlockHash vc \<in> set existHash then Some (Failed ''has duplicated blockHash'')
      else same_view_loop epoch viewNumber vcs (vq_BlockHash vc # existHash))"

definition validateViewChangeQC :: "validatorPool \<Rightarrow> viewChangeQC \<Rightarrow> handleErr option go" where
  "validateViewChangeQC vp v =
     (let (vcEpoch, _) = MaxBlock v
      in go_bind (Len_vp vp vcEpoch) (\<lambda>maxLimit.
         if length (QCs v) > maxLimit then Inr (Some (Failed ''viewchangeQC exceed validator max limit''))
         else go_map (\<lambda>signsTotal.
           if signsTotal < threshold maxLimit then Some (Failed ''viewchange has small number of signature'')
           else (case QCs v of [] \<Rightarrow> None
             | vc # _ \<Rightarrow> same_view_loop (vq_Epoch vc) (vq_ViewNumber vc) (QCs v) []))
           (Len_vc v)))"

definition verify_vcqc :: "bls \<Rightarrow> (bytes \<Rightarrow> bytes) \<Rightarrow> validatorPool \<Rightarrow> viewChangeQuorumCert \<Rightarrow> handleErr option go" where
  "verify_vcqc B k vp vc = go_bind (CannibalizeBytes_vcqc k vc) (\<lambda>d.
     case d of Inl _ \<Rightarrow> Inr (Some (Failed ''get cannibalize bytes failed''))
     | Inr cb \<Rightarrow> go_map (\<lambda>err. case err of None \<Rightarrow> None | Some _ \<Rightarrow> Some (AuthFailed ''verify viewchange qc failed''))
         (VerifyAggSigByBA B vp (vq_Epoch vc) (vq_ValidatorSet vc) cb (Bytes_sig (vq_Signature vc))))"

definition verifyViewChangeQC :: "bls \<Rightarrow> (bytes \<Rightarrow> bytes) \<Rightarrow> validatorPool \<Rightarrow> viewChangeQC \<Rightarrow> handleErr option go" where
  "verifyViewChangeQC B k vp v =
     (let (vcEpoch, _) = MaxBlock v
      in case EnableVerifyEpoch vp vcEpoch of Some err \<Rightarrow> Inr (Some (VdError err))
         | None \<Rightarrow> go_bind (validateViewChangeQC vp v) (\<lambda>e. case e of Some err \<Rightarrow> Inr (Some err)
             | None \<Rightarrow> go_fold (\<lambda>vc e. case e of Some err \<Rightarrow> Inr (Some err) | None \<Rightarrow> verify_vcqc B k vp vc) (QCs v) None))"

definition verifyConsensusSign :: "bls \<Rightarrow> (bytes \<Rightarrow> bytes) \<Rightarrow> validatorPool \<Rightarrow> consensusMsg \<Rightarrow> handleErr option go" where
  "verifyConsensusSign B k vp msg =
     (case EnableVerifyEpoch vp (EpochNum msg) of Some err \<Rightarrow> Inr (Some (VdError err))
      | None \<Rightarrow> go_bind (CannibalizeBytes k msg) (\<lambda>d.
          case d of Inl _ \<Rightarrow> Inr (Some (Failed ''get msg's cannibalize bytes failed''))
          | Inr digest \<Rightarrow> go_map (\<lambda>e. case e of None \<Rightarrow> None | Some _ \<Rightarrow> Some (AuthFailed ''signature''))
              (Verify_vp B vp (EpochNum msg) (NodeIndex msg) digest (Sign msg))))"

definition checkViewChangeQC :: "bls \<Rightarrow> (bytes \<Rightarrow> bytes) \<Rightarrow> validatorPool \<Rightarrow> prepareBlock \<Rightarrow> handleErr option go" where
  "checkViewChangeQC B k vp pb =
     (case pb_ViewChangeQC pb of None \<Rightarrow> Inr None
      | Some v \<Rightarrow> (let (_, _, _, _, h, number) = MaxBlock v
          in if \<not> (blk_Number (pb_Block pb) = number + 1 \<and> blk_ParentHash (pb_Block pb) = h)
             then Inr (Some (AuthFailed ''prepareBlock is not based on viewChangeQC maxBlock''))
             else verifyViewChangeQC B k vp v))"

fun checkPrepareQC :: "consensusMsg \<Rightarrow> handleErr option" where
  "checkPrepareQC (CPrepareBlock cm) =
     (if (BlockNum (CPrepareBlock cm) = 1 \<or> pb_ViewNumber cm = 0) \<and> pb_PrepareQC cm \<noteq> None
      then Some (AuthFailed ''prepareBlock need not take PrepareQC'') else None)"
| "checkPrepareQC (CPrepareVote cm) =
     (if BlockNum (CPrepareVote cm) > 1 \<and> pv_ParentQC cm = None
      then Some (AuthFailed ''prepareVote need take PrepareQC'') else None)"
| "checkPrepareQC (CPreCommit cm) =
     (if BlockNum (CPreCommit cm) > 1 \<and> pc_ParentQC cm = None
      then Some (AuthFailed ''preCommit need take ParentQC'') else None)"
| "checkPrepareQC (CViewChange cm) =
     (if vc_BlockNumber cm > 1 \<and> vc_PrepareQC cm = None
      then Some (AuthFailed ''viewChange need take PrepareQC'') else None)"

text \<open>\<open>doubtDuplicate\<close>: only duplicate evidence is passed on, an error of the database is not.\<close>

definition only_duplicate :: "poolErr option \<times> evidencePool \<Rightarrow> handleErr option \<times> evidencePool" where
  "only_duplicate r = (case fst r of Some (Duplicate d) \<Rightarrow> Some (DuplicateMsg d) | _ \<Rightarrow> None, snd r)"

fun doubtDuplicate :: "dbFaults \<Rightarrow> (bytes \<Rightarrow> bytes) \<Rightarrow> consensusMsg \<Rightarrow> validateNode \<Rightarrow> evidencePool \<Rightarrow> (handleErr option \<times> evidencePool) go" where
  "doubtDuplicate flt k (CPrepareBlock cm) node ev = go_map only_duplicate (AddPrepareBlock_ev flt k cm node ev)"
| "doubtDuplicate flt k (CPrepareVote cm) node ev = go_map only_duplicate (AddPrepareVote_ev flt k cm node ev)"
| "doubtDuplicate flt k (CPreCommit cm) node ev = go_map only_duplicate (AddPreCommit_ev flt k cm node ev)"
| "doubtDuplicate flt k (CViewChange cm) node ev = go_map only_duplicate (AddViewChange_ev flt k cm node ev)"

section \<open>The proposer\<close>

definition CalCurrentProposerWithBlockNumber :: "u64 \<Rightarrow> u64 \<Rightarrow> nat \<Rightarrow> u64 go" where
  "CalCurrentProposerWithBlockNumber viewNumber blockNumber numValidators =
     go_mod (blockNumber - 1 + viewNumber div 10) (word_of_nat numValidators)"

definition CalCurrentProposer :: "viewState \<Rightarrow> nat \<Rightarrow> u64 go" where
  "CalCurrentProposer vs numValidators =
     go_mod (v_blockNumber vs - 1 + v_viewNumber vs div 10) (word_of_nat numValidators)"

definition currentProposer :: "viewState \<Rightarrow> validatorPool \<Rightarrow> validateNode option go" where
  "currentProposer vs vp =
     go_bind (Len_vp vp (v_epoch vs)) (\<lambda>n. go_bind (CalCurrentProposer vs n) (\<lambda>i.
       go_map ptr_of (GetValidatorByIndex vp (v_epoch vs) (ucast i))))"

definition isProposer :: "viewState \<Rightarrow> validatorPool \<Rightarrow> u64 \<Rightarrow> u64 \<Rightarrow> u32 \<Rightarrow> bool go" where
  "isProposer vs vp epoch blockNumber nodeIndex =
     (if EnableVerifyEpoch vp epoch \<noteq> None then Inr False
      else go_bind (Len_vp vp epoch) (\<lambda>n.
        go_bind (if blockNumber > 0 then CalCurrentProposerWithBlockNumber (v_viewNumber vs) blockNumber n else Inr 0) (\<lambda>index.
        go_map (\<lambda>r. case r of Inr validator \<Rightarrow> vn_Index validator = nodeIndex | Inl _ \<Rightarrow> False)
          (GetValidatorByIndex vp epoch (ucast index)))))"

section \<open>Checking a consensus message\<close>

text \<open>The last part of \<open>verifyConsensusMsg\<close>: the certificates a message carries.  Votes and pre-commits
  have the same code.\<close>

definition verify_parent :: "bls \<Rightarrow> (bytes \<Rightarrow> bytes) \<Rightarrow> blockTree \<Rightarrow> validatorPool \<Rightarrow> u64 \<Rightarrow> quorumCert option \<Rightarrow> handleErr option go" where
  "verify_parent B k bt vp number parentQC =
     (if number = 1 then Inr None
      else go_bind (go_deref parentQC) (\<lambda>prepareQC.
        case snd (FindBlockAndQC bt (q_BlockHash prepareQC) (number - 1)) of
          None \<Rightarrow> Inr (Some (Failed ''parentBlock and parentQC not exists''))
        | Some localQC \<Rightarrow> verifyPrepareQC B k vp (q_BlockNumber localQC) (q_BlockHash localQC) (Some prepareQC)))"

fun verify_carried :: "bls \<Rightarrow> (bytes \<Rightarrow> bytes) \<Rightarrow> viewState \<Rightarrow> blockTree \<Rightarrow> validatorPool \<Rightarrow> consensusMsg \<Rightarrow> handleErr option go" where
  "verify_carried B k vs bt vp (CPrepareBlock cm) =
     go_bind (currentProposer vs vp) (\<lambda>p. go_bind (go_deref p) (\<lambda>proposer.
       if vn_Index proposer \<noteq> NodeIndex (CPrepareBlock cm) then Inr (Some (Failed ''current proposer index''))
       else if BlockNum (CPrepareBlock cm) = 1 \<or> pb_BlockIndex cm \<noteq> 0 then Inr None
       else checkViewChangeQC B k vp cm))"
| "verify_carried B k vs bt vp (CPrepareVote cm) = verify_parent B k bt vp (pv_BlockNumber cm) (pv_ParentQC cm)"
| "verify_carried B k vs bt vp (CPreCommit cm) = verify_parent B k bt vp (pc_BlockNumber cm) (pc_ParentQC cm)"
| "verify_carried B k vs bt vp (CViewChange cm) =
     (if vc_BlockNumber cm = 0 then Inr None
      else verifyPrepareQC B k vp (vc_BlockNumber cm) (vc_BlockHash cm) (vc_PrepareQC cm))"

definition verifyConsensusMsg ::
    "bls \<Rightarrow> (bytes \<Rightarrow> bytes) \<Rightarrow> dbFaults \<Rightarrow> viewState \<Rightarrow> blockTree \<Rightarrow> validatorPool \<Rightarrow> consensusMsg \<Rightarrow> evidencePool
      \<Rightarrow> ((handleErr + validateNode) \<times> evidencePool) go" where
  "verifyConsensusMsg B k flt vs bt vp msg ev =
     (case checkPrepareQC msg of Some err \<Rightarrow> Inr (Inl err, ev)
      | None \<Rightarrow> go_bind (verifyConsensusSign B k vp msg) (\<lambda>e. case e of Some err \<Rightarrow> Inr (Inl err, ev)
        | None \<Rightarrow> go_bind (GetValidatorByIndex vp (EpochNum msg) (NodeIndex msg)) (\<lambda>r.
            case r of Inl _ \<Rightarrow> Inr (Inl (AuthFailed ''get validator failed''), ev)
            | Inr vnode \<Rightarrow> go_bind (doubtDuplicate flt k msg vnode ev) (\<lambda>(e, ev').
                case e of Some err \<Rightarrow> Inr (Inl err, ev')
                | None \<Rightarrow> go_map (\<lambda>e. (case e of Some err \<Rightarrow> Inl err | None \<Rightarrow> Inr vnode, ev'))
                    (verify_carried B k vs bt vp msg)))))"

section \<open>Aggregation\<close>

text \<open>The loop of \<open>generatePrepareQC\<close> and \<open>generatePreCommitQC\<close> over \<open>(same state, index, signature)\<close>: the
  result is \<open>None\<close> where the code returns nil.\<close>

definition agg_step :: "bls \<Rightarrow> u32 \<Rightarrow> bool \<times> u32 \<times> bytes \<Rightarrow> (bytes \<times> bitArray option) option \<Rightarrow> (bytes \<times> bitArray option) option go" where
  "agg_step B first = (\<lambda>(same, i, s) r. case r of None \<Rightarrow> Inr None
     | Some (aggSig, vSet) \<Rightarrow>
         if \<not> same then Inr None
         else if i = first then Inr (Some (aggSig, vSet))
         else case bls_Deserialize B s of None \<Rightarrow> Inr None
           | Some sig \<Rightarrow> go_map (\<lambda>(vSet, _). Some (bls_AddSign B aggSig sig, vSet)) (SetIndex vSet i True))"

text \<open>The code around the loop: \<open>qc\<close> is the certificate without signature and signers.\<close>

definition agg_votes :: "bls \<Rightarrow> nat \<Rightarrow> u32 \<Rightarrow> bytes \<Rightarrow> (bool \<times> u32 \<times> bytes) list \<Rightarrow> quorumCert \<Rightarrow> quorumCert option go" where
  "agg_votes B nodes first sign votes qc =
     go_bind (SetIndex (NewBitArray (word_of_nat nodes)) first True) (\<lambda>(vSet, _).
     case bls_Deserialize B sign of None \<Rightarrow> Inr None
     | Some aggSig \<Rightarrow> go_map (\<lambda>r. case r of None \<Rightarrow> None
         | Some (aggSig, vSet') \<Rightarrow> Some (qc\<lparr>q_Signature := SetBytes aggSig (q_Signature qc),
             q_ValidatorSet := Update_ba (NewBitArray (Size vSet)) vSet'\<rparr>))
         (go_fold (agg_step B first) votes (Some (aggSig, vSet))))"

definition generatePrepareQC :: "bls \<Rightarrow> validatorPool \<Rightarrow> u64 \<Rightarrow> prepareVotesMap \<Rightarrow> quorumCert option go" where
  "generatePrepareQC B vp epoch votes =
     (case votes of [] \<Rightarrow> Inr None
      | (_, vote) # _ \<Rightarrow> go_bind (Len_vp vp epoch) (\<lambda>nodes.
          agg_votes B nodes (pv_ValidatorIndex vote) (Bytes_sig (pv_Signature vote))
            (map (\<lambda>p. (EqualState_pv vote p, pv_ValidatorIndex p, Bytes_sig (pv_Signature p))) (gvals votes))
            \<lparr>q_Epoch = pv_Epoch vote, q_ViewNumber = pv_ViewNumber vote, q_BlockHash = pv_BlockHash vote,
             q_BlockNumber = pv_BlockNumber vote, q_BlockIndex = pv_BlockIndex vote, q_Step = RoundStepPrepareVote,
             q_Signature = replicate SignatureLength 0, q_ValidatorSet = None\<rparr>))"

definition generatePreCommitQC :: "bls \<Rightarrow> validatorPool \<Rightarrow> u64 \<Rightarrow> preCommitsMap \<Rightarrow> quorumCert option go" where
  "generatePreCommitQC B vp epoch votes =
     (case votes of [] \<Rightarrow> Inr None
      | (_, vote) # _ \<Rightarrow> go_bind (Len_vp vp epoch) (\<lambda>nodes.
          agg_votes B nodes (pc_ValidatorIndex vote) (Bytes_sig (pc_Signature vote))
            (map (\<lambda>p. (EqualState_pc vote p, pc_ValidatorIndex p, Bytes_sig (pc_Signature p))) (gvals votes))
            \<lparr>q_Epoch = pc_Epoch vote, q_ViewNumber = pc_ViewNumber vote, q_BlockHash = pc_BlockHash vote,
             q_BlockNumber = pc_BlockNumber vote, q_BlockIndex = pc_BlockIndex vote, q_Step = RoundStepPreCommit,
             q_Signature = replicate SignatureLength 0, q_ValidatorSet = None\<rparr>))"

text \<open>\<open>generateViewChangeQC\<close> groups by block hash; a group is the certificate, the aggregate and the signers.\<close>

definition block_of_qc :: "quorumCert option \<Rightarrow> u64 \<times> u64" where
  "block_of_qc p = (case p of None \<Rightarrow> (0, 0) | Some qc \<Rightarrow> (q_Epoch qc, q_ViewNumber qc))"

definition new_vcqc :: "u32 \<Rightarrow> viewChange \<Rightarrow> viewChangeQuorumCert" where
  "new_vcqc nodes v = (let (blockEpoch, blockView) = block_of_qc (vc_PrepareQC v)
     in \<lparr>vq_Epoch = vc_Epoch v, vq_ViewNumber = vc_ViewNumber v, vq_BlockHash = vc_BlockHash v,
         vq_BlockNumber = vc_BlockNumber v, vq_BlockEpoch = blockEpoch, vq_BlockViewNumber = blockView,
         vq_Signature = replicate SignatureLength 0, vq_ValidatorSet = NewBitArray nodes\<rparr>)"

type_synonym vcGroup = "viewChangeQuorumCert \<times> bytes \<times> bitArray option"

definition group_step :: "bls \<Rightarrow> u32 \<Rightarrow> viewChange \<Rightarrow> (hash, vcGroup) gomap option \<Rightarrow> (hash, vcGroup) gomap option go" where
  "group_step B nodes v r =
     (case r of None \<Rightarrow> Inr None
      | Some qcs \<Rightarrow> (case bls_Deserialize B (Bytes_sig (vc_Signature v)) of None \<Rightarrow> Inr None
        | Some aggSig \<Rightarrow> (case gget qcs (vc_BlockHash v) of
            None \<Rightarrow> go_map (\<lambda>(ba, _). Some (gset (vc_BlockHash v) (new_vcqc nodes v, aggSig, ba) qcs))
              (SetIndex (NewBitArray nodes) (vc_ValidatorIndex v) True)
          | Some (cert, sig, ba) \<Rightarrow> go_map (\<lambda>(ba, _). Some (gset (vc_BlockHash v) (cert, bls_AddSign B sig aggSig, ba) qcs))
              (SetIndex ba (vc_ValidatorIndex v) True))))"

definition finish_group :: "vcGroup \<Rightarrow> viewChangeQuorumCert" where
  "finish_group = (\<lambda>(cert, sig, ba). cert\<lparr>vq_Signature := SetBytes sig (vq_Signature cert),
     vq_ValidatorSet := Update_ba (vq_ValidatorSet cert) ba\<rparr>)"

definition generateViewChangeQC :: "bls \<Rightarrow> validatorPool \<Rightarrow> u64 \<Rightarrow> (u32, viewChange) gomap \<Rightarrow> viewChangeQC option go" where
  "generateViewChangeQC B vp epoch viewChanges =
     go_bind (Len_vp vp epoch) (\<lambda>nodes. go_map (map_option (\<lambda>qcs. \<lparr>QCs = map finish_group (gvals qcs)\<rparr>))
       (go_fold (group_step B (word_of_nat nodes)) (gvals viewChanges) (Some [])))"

definition generateViewChangeQuorumCert :: "bls \<Rightarrow> validatorPool \<Rightarrow> u64 \<Rightarrow> nodeID \<Rightarrow> viewChange \<Rightarrow> viewChangeQuorumCert option go" where
  "generateViewChangeQuorumCert B vp epoch self v =
     go_bind (GetValidatorByNodeID vp epoch self) (\<lambda>r. case r of Inl _ \<Rightarrow> Inr None
     | Inr node \<Rightarrow> go_bind (Len_vp vp epoch) (\<lambda>nodes.
         case bls_Deserialize B (Bytes_sig (vc_Signature v)) of None \<Rightarrow> Inr None
         | Some aggSig \<Rightarrow> (let cert = new_vcqc (word_of_nat nodes) v
             in go_map (\<lambda>(ba, _). Some (cert\<lparr>vq_Signature := SetBytes aggSig (vq_Signature cert), vq_ValidatorSet := ba\<rparr>))
                  (SetIndex (vq_ValidatorSet cert) (vn_Index node) True))))"

section \<open>Signers of a certificate\<close>

definition signers :: "bitArray option \<Rightarrow> u32 list" where
  "signers p = filter (\<lambda>i. GetIndex p i = Inr True) (range_u32 (Size p))"

lemma count_fold_Inr:
  "go_fold (\<lambda>i n. go_map (\<lambda>b. if b then n + 1 else n) (g i)) is n = Inr l \<Longrightarrow>
    l = n + length (filter (\<lambda>i. g i = Inr True) is)"
proof (induction "is" arbitrary: n)
  case (Cons i "is")
  then obtain b where b: "g i = Inr b" by (auto simp: go_bind_eq_Inr go_map_eq_Inr)
  then show ?case using Cons.IH [of "if b then n + 1 else n"] Cons.prems by simp
qed simp

lemma count_set_signers: "count_set p = Inr l \<Longrightarrow> l = length (signers p)"
  unfolding count_set_def signers_def by (drule count_fold_Inr) simp

lemma nodes_fold_Inl:
  "go_fold (\<lambda>i r. case r of Inl err \<Rightarrow> Inr (Inl err) | Inr l \<Rightarrow> f i l) is (Inl err) = Inr (Inl err)"
  by (induction "is") simp_all

lemma nodes_fold_Inr:
  "go_fold (\<lambda>i r. case r of Inl err \<Rightarrow> Inr (Inl err)
       | Inr l \<Rightarrow> go_map (\<lambda>b. if b then go_map (\<lambda>n. l @ [n]) (at_index InvalidIndex ns (unat i)) else Inr l) (g i))
     is (Inr l) = Inr (Inr ms) \<Longrightarrow>
   ms = l @ map (\<lambda>i. ns ! unat i) (filter (\<lambda>i. g i = Inr True) is)
     \<and> (\<forall>i\<in>set is. g i = Inr True \<longrightarrow> unat i < length ns)"
proof (induction "is" arbitrary: l)
  case (Cons i "is")
  then obtain b where b: "g i = Inr b" by (auto simp: go_bind_eq_Inr go_map_eq_Inr)
  show ?case
  proof (cases b)
    case True
    then have "unat i < length ns" using Cons.prems b by (auto simp: at_index_def nodes_fold_Inl not_le split: if_splits)
    then show ?thesis using Cons.IH [of "l @ [ns ! unat i]"] Cons.prems b True by (simp add: at_index_def)
  next
    case False then show ?thesis using Cons.IH [of l] Cons.prems b by simp
  qed
qed simp

lemma NodeListByBitArray_signers:
  "NodeListByBitArray vs p = Inr (Inr ns) \<Longrightarrow> ns = map (\<lambda>i. sorted_of vs ! unat i) (signers p)
     \<and> (\<forall>i\<in>set (signers p). unat i < length (sorted_of vs))"
  unfolding NodeListByBitArray_def signers_def by (drule nodes_fold_Inr) auto

lemma distinct_signers: "distinct (map unat (signers p))"
proof -
  have "distinct (map unat (range_u32 (Size p)))" by (simp add: unat_range_u32)
  then show ?thesis unfolding signers_def by (metis distinct_map_filter)
qed

text \<open>What acceptance means: the facts of the certificate are those asked for, it names at least a
  threshold of validators of its epoch, and the signature verifies against the sum of their keys.\<close>

definition certified :: "bls \<Rightarrow> (bytes \<Rightarrow> bytes) \<Rightarrow> validators \<Rightarrow> quorumCert \<Rightarrow> bool" where
  "certified B k vs qc \<longleftrightarrow> threshold (Len_vs vs) \<le> length (signers (q_ValidatorSet qc))
     \<and> signers (q_ValidatorSet qc) \<noteq> []
     \<and> (\<forall>i\<in>set (signers (q_ValidatorSet qc)). unat i < length (sorted_of vs))
     \<and> (\<exists>sig. bls_Deserialize B (Bytes_sig (q_Signature qc)) = Some sig
          \<and> bls_Verify B sig (agg_pub B (map (\<lambda>i. sorted_of vs ! unat i) (signers (q_ValidatorSet qc)))) (k (preimage_qc qc)))"

lemma verifyPrepareQC_sound:
  assumes "verifyPrepareQC B k vp n h p = Inr None"
  obtains qc vs where "p = Some qc" "EnableVerifyEpoch vp (q_Epoch qc) = None" "validators_of vp (q_Epoch qc) = Inr vs"
    "n = q_BlockNumber qc" "h = q_BlockHash qc" "certified B k vs qc"
proof -
  obtain qc where p: "p = Some qc" using assms by (cases p) (simp_all add: verifyPrepareQC_def)
  then obtain vs l r where vs: "EnableVerifyEpoch vp (q_Epoch qc) = None" "validators_of vp (q_Epoch qc) = Inr vs"
      "Len_qc qc = Inr l" "threshold (Len_vs vs) \<le> l" "n = q_BlockNumber qc" "h = q_BlockHash qc"
    and r: "NodeListByBitArray vs (q_ValidatorSet qc) = Inr r"
    and ok: "(case r of Inl _ \<Rightarrow> Some NotFoundValidators
       | Inr nodeList \<Rightarrow> if nodeList = [] then Some NotFoundValidators
           else case bls_Deserialize B (Bytes_sig (q_Signature qc)) of None \<Rightarrow> Some SignDeserialize
             | Some sig \<Rightarrow> if bls_Verify B sig (agg_pub B nodeList) (k (preimage_qc qc)) then None else Some BlsVerifyFail) = None"
    using assms
    by (auto simp: verifyPrepareQC_def Len_vp_def digest_preimage VerifyAggSigByBA_def go_bind_eq_Inr go_map_eq_Inr not_less
        split: option.splits if_splits)
  from ok obtain ns sig where ns: "r = Inr ns" "ns \<noteq> []" "bls_Deserialize B (Bytes_sig (q_Signature qc)) = Some sig"
      "bls_Verify B sig (agg_pub B ns) (k (preimage_qc qc))"
    by (auto split: sum.splits if_splits option.splits)
  have "l = length (signers (q_ValidatorSet qc))" using vs(3) count_set_signers by (simp add: Len_qc_def)
  with NodeListByBitArray_signers [OF r [unfolded ns(1)]] ns vs have "certified B k vs qc"
    by (auto simp: certified_def)
  then show thesis using that p vs by blast
qed

section \<open>Aggregation is checked successfully\<close>

text \<open>What the code relies on of the BLS library: deserialising is idempotent and yields 64 bytes, sums of
  signatures are signatures, keys are summed in any order, and the sum of signatures of one message
  verifies against the sum of the keys.\<close>

definition bls_ok :: "bls \<Rightarrow> bool" where
  "bls_ok B \<longleftrightarrow>
     (\<forall>s t. bls_Deserialize B s = Some t \<longrightarrow> bls_Deserialize B t = Some t \<and> length t = SignatureLength)
   \<and> (\<forall>a b. bls_Deserialize B a = Some a \<longrightarrow> bls_Deserialize B b = Some b \<longrightarrow>
        bls_Deserialize B (bls_AddSign B a b) = Some (bls_AddSign B a b))
   \<and> (\<forall>p q. bls_AddPub B p q = bls_AddPub B q p)
   \<and> (\<forall>p q r. bls_AddPub B (bls_AddPub B p q) r = bls_AddPub B p (bls_AddPub B q r))
   \<and> (\<forall>a b p q m. bls_Verify B a p m \<longrightarrow> bls_Verify B b q m \<longrightarrow> bls_Verify B (bls_AddSign B a b) (bls_AddPub B p q) m)"

lemma bls_okD:
  assumes "bls_ok B"
  shows "bls_Deserialize B s = Some t \<Longrightarrow> bls_Deserialize B t = Some t"
    and "bls_Deserialize B s = Some t \<Longrightarrow> length t = SignatureLength"
    and "bls_Deserialize B a = Some a \<Longrightarrow> bls_Deserialize B b = Some b \<Longrightarrow>
      bls_Deserialize B (bls_AddSign B a b) = Some (bls_AddSign B a b)"
    and "bls_AddPub B p q = bls_AddPub B q p"
    and "bls_AddPub B (bls_AddPub B p q) r = bls_AddPub B p (bls_AddPub B q r)"
    and "bls_Verify B a p m \<Longrightarrow> bls_Verify B b q m \<Longrightarrow> bls_Verify B (bls_AddSign B a b) (bls_AddPub B p q) m"
  using assms unfolding bls_ok_def by blast+

lemma AddPub_swap: "bls_ok B \<Longrightarrow> bls_AddPub B (bls_AddPub B p q) r = bls_AddPub B (bls_AddPub B p r) q"
  using bls_okD(4,5) by metis

lemma foldl_AddPub_perm:
  assumes "bls_ok B" "mset xs = mset ys"
  shows "foldl (\<lambda>p n. bls_AddPub B p (vn_BlsPubKey n)) a xs = foldl (\<lambda>p n. bls_AddPub B p (vn_BlsPubKey n)) a ys"
  using fold_multiset_equiv [of xs "\<lambda>n p. bls_AddPub B p (vn_BlsPubKey n)" ys] assms AddPub_swap [OF assms(1)]
  by (simp add: foldl_conv_fold fun_eq_iff o_def)

lemma agg_pub_perm:
  assumes "bls_ok B" "mset xs = mset ys"
  shows "agg_pub B xs = agg_pub B ys"
proof (cases xs)
  case Nil then show ?thesis using assms by simp
next
  case (Cons x xs')
  then obtain y ys' where ys: "ys = y # ys'" using assms(2) by (cases ys) simp_all
  show ?thesis
  proof (cases "x = y")
    case True then show ?thesis using Cons ys assms foldl_AddPub_perm [OF assms(1), of xs' ys'] by (simp add: agg_pub_def)
  next
    case False
    have m: "add_mset x (mset xs') = add_mset y (mset ys')" using assms(2) Cons ys by simp
    then have "y \<in> set xs'" using False by (metis insert_noteq_member set_mset_mset)
    then obtain zs where zs: "mset xs' = mset (y # zs)" by (metis in_multiset_in_set insert_DiffM mset.simps(2) mset_remove1)
    then have ys': "mset ys' = mset (x # zs)" using m by (simp add: add_mset_commute)
    show ?thesis
      using foldl_AddPub_perm [OF assms(1) zs, of "vn_BlsPubKey x"] foldl_AddPub_perm [OF assms(1) ys', of "vn_BlsPubKey y"]
        Cons ys bls_okD(4) [OF assms(1), of "vn_BlsPubKey x" "vn_BlsPubKey y"]
      by (simp add: agg_pub_def)
  qed
qed

lemma agg_pub_snoc: "ns \<noteq> [] \<Longrightarrow> agg_pub B (ns @ [n]) = bls_AddPub B (agg_pub B ns) (vn_BlsPubKey n)"
  by (simp add: agg_pub_def)

lemma Bytes_sig_id [simp]: "Bytes_sig s = s"
  by (simp add: Bytes_sig_def go_copy_same_length)

text \<open>One signed entry: the node at index \<open>i\<close> of \<open>ns\<close> verifies it.\<close>

definition signed_entry :: "bls \<Rightarrow> validateNode list \<Rightarrow> bytes \<Rightarrow> bool \<times> u32 \<times> bytes \<Rightarrow> bool" where
  "signed_entry B ns d = (\<lambda>(same, i, s). same \<and> unat i < length ns \<and> Verify_node B (ns ! unat i) d s = None)"

lemma Verify_node_None: "Verify_node B n d s = None \<longleftrightarrow> (\<exists>t. bls_Deserialize B s = Some t \<and> bls_Verify B t (vn_BlsPubKey n) d)"
  by (auto simp: Verify_node_def split: option.splits)

definition agg_inv :: "bls \<Rightarrow> validateNode list \<Rightarrow> bytes \<Rightarrow> u32 list \<Rightarrow> bytes \<Rightarrow> bitArray \<Rightarrow> bool" where
  "agg_inv B ns d is agg ba \<longleftrightarrow> is \<noteq> [] \<and> bls_Deserialize B agg = Some agg \<and> length agg = SignatureLength
     \<and> bls_Verify B agg (agg_pub B (map (\<lambda>i. ns ! unat i) is)) d
     \<and> wf_ba ba \<and> unat (Bits ba) = length ns \<and> ba_bits ba = unat ` set is"

lemma agg_step_inv:
  assumes B: "bls_ok B" and inv: "agg_inv B ns d is agg ba" and e: "signed_entry B ns d (same, i, s)" and "i \<noteq> first"
  shows "\<exists>agg' ba'. agg_step B first (same, i, s) (Some (agg, Some ba)) = Inr (Some (agg', Some ba'))
    \<and> agg_inv B ns d (is @ [i]) agg' ba' \<and> Bits ba' = Bits ba"
proof -
  obtain t where t: "same" "unat i < length ns" "bls_Deserialize B s = Some t" "bls_Verify B t (vn_BlsPubKey (ns ! unat i)) d"
    using e by (auto simp: signed_entry_def Verify_node_None)
  obtain ba' where ba': "setIndex ba i True = Inr (ba', True)" "wf_ba ba'" "Bits ba' = Bits ba"
      "ba_bits ba' = insert (unat i) (ba_bits ba)"
  proof (rule setIndex_wf [of ba i True])
    show "wf_ba ba" "unat i < unat (Bits ba)" using inv t(2) by (simp_all add: agg_inv_def)
  qed (simp add: upd_bit_def that)
  note tt = bls_okD(1) [OF B t(3)]
  have agg: "bls_Deserialize B (bls_AddSign B agg t) = Some (bls_AddSign B agg t)"
    using bls_okD(3) [OF B _ tt] inv by (simp add: agg_inv_def)
  have "agg_inv B ns d (is @ [i]) (bls_AddSign B agg t) ba'"
    using inv ba' agg bls_okD(2) [OF B agg] bls_okD(6) [OF B _ t(4)]
    by (simp add: agg_inv_def agg_pub_snoc)
  then show ?thesis using t ba' assms(4) by (simp add: agg_step_def SetIndex_def)
qed

lemma agg_fold:
  assumes B: "bls_ok B" and "agg_inv B ns d is agg ba" "\<forall>e\<in>set es. signed_entry B ns d e \<and> fst (snd e) \<noteq> first"
  shows "\<exists>agg' ba'. go_fold (agg_step B first) es (Some (agg, Some ba)) = Inr (Some (agg', Some ba'))
    \<and> agg_inv B ns d (is @ map (fst \<circ> snd) es) agg' ba' \<and> Bits ba' = Bits ba"
  using assms(2,3)
proof (induction es arbitrary: "is" agg ba)
  case (Cons e es)
  obtain same i s where e: "e = (same, i, s)" by (rule prod_cases3)
  obtain agg1 ba1 where 1: "agg_step B first e (Some (agg, Some ba)) = Inr (Some (agg1, Some ba1))"
      "agg_inv B ns d (is @ [i]) agg1 ba1" "Bits ba1 = Bits ba"
    using agg_step_inv [OF B Cons.prems(1), of same i s first] Cons.prems(2) e by auto
  show ?case using Cons.IH [OF 1(2)] Cons.prems(2) 1 e by simp
qed simp

lemma wf_NewBitArray_le:
  assumes "0 < n" "n + 63 < 2 ^ 32"
  obtains ba where "NewBitArray (word_of_nat n) = Some ba" "wf_ba ba" "unat (Bits ba) = n" "ba_bits ba = {}"
    "length (Elems ba) = (n + 63) div 64" "Bits ba = word_of_nat n"
proof -
  have u: "unat (word_of_nat n :: u32) = n" using assms by (simp add: unat_u32)
  then have "0 < (word_of_nat n :: u32)" "unat (word_of_nat n :: u32) + 63 < 2 ^ 32"
    using assms by (simp_all add: word_less_nat_alt)
  then show thesis using u that by (auto elim!: wf_NewBitArray simp: wf_ba_length)
qed

text \<open>The list \<open>es\<close> is what the loop visits, the first entry being the vote the certificate starts from.\<close>

lemma agg_votes_verifies:
  assumes B: "bls_ok B" and n: "0 < length ns" "length ns + 63 < 2 ^ 32"
    and es: "\<forall>e\<in>set es. signed_entry B ns d e" "es = (same, first, sign) # es'" "distinct (map (fst \<circ> snd) es)"
  shows "\<exists>agg ba. agg_votes B (length ns) first sign es qc =
      Inr (Some (qc\<lparr>q_Signature := SetBytes agg (q_Signature qc), q_ValidatorSet := Some ba\<rparr>))
    \<and> agg_inv B ns d (map (fst \<circ> snd) es) agg ba"
proof -
  obtain b0 where b0: "NewBitArray (word_of_nat (length ns)) = Some b0" "wf_ba b0" "unat (Bits b0) = length ns"
      "ba_bits b0 = {}" "length (Elems b0) = (length ns + 63) div 64" "Bits b0 = word_of_nat (length ns)"
    by (rule wf_NewBitArray_le [OF n])
  obtain t where t: "same" "unat first < length ns" "bls_Deserialize B sign = Some t"
      "bls_Verify B t (vn_BlsPubKey (ns ! unat first)) d"
    using es(1,2) by (auto simp: signed_entry_def Verify_node_None)
  obtain b1 where b1: "setIndex b0 first True = Inr (b1, True)" "wf_ba b1" "Bits b1 = Bits b0" "ba_bits b1 = {unat first}"
  proof (rule setIndex_wf [of b0 first True])
    show "wf_ba b0" "unat first < unat (Bits b0)" using b0 t(2) by simp_all
  qed (simp add: upd_bit_def b0 that)
  have "agg_inv B ns d [first] t b1"
    using t b1 b0 bls_okD(1,2) [OF B t(3)] by (simp add: agg_inv_def agg_pub_def)
  then obtain agg ba where ab: "go_fold (agg_step B first) es' (Some (t, Some b1)) = Inr (Some (agg, Some ba))"
      "agg_inv B ns d ([first] @ map (fst \<circ> snd) es') agg ba" "Bits ba = Bits b1"
    using agg_fold [OF B, of ns d "[first]" t b1 es' first] es by auto
  have "length (Elems ba) = length (Elems b0)"
    using ab(2,3) b1(3) b0(2) wf_ba_length [of ba] wf_ba_length [of b0] by (simp add: agg_inv_def)
  then have "Update_ba (Some b0) (Some ba) = Some ba"
    using ab(3) b1(3) by (simp add: Update_ba_def go_copy_same_length)
  then have "agg_votes B (length ns) first sign es qc =
      Inr (Some (qc\<lparr>q_Signature := SetBytes agg (q_Signature qc), q_ValidatorSet := Some ba\<rparr>))"
    using b0(1,6) b1(1,3) t(1,3) ab(1) es(2) by (simp add: agg_votes_def SetIndex_def agg_step_def Size_def)
  then show ?thesis using ab(2) es(2) by auto
qed

lemma signers_wf: "wf_ba ba \<Longrightarrow> signers (Some ba) = filter (\<lambda>i. unat i \<in> ba_bits ba) (range_u32 (Bits ba))"
  by (simp add: signers_def GetIndex_def getIndex_wf Size_def)

lemma agg_inv_verifies:
  assumes B: "bls_ok B" and inv: "agg_inv B (ordered_nodes vs) (k (preimage_qc qc)) is (q_Signature qc) ba"
    and wf: "wf_validators vs" and d: "distinct is" "threshold (Len_vs vs) \<le> length is"
    and vp: "EnableVerifyEpoch vp (q_Epoch qc) = None" "validators_of vp (q_Epoch qc) = Inr vs"
    and ba: "q_ValidatorSet qc = Some ba"
  shows "verifyPrepareQC B k vp (q_BlockNumber qc) (q_BlockHash qc) (Some qc) = Inr None \<and> set (signers (Some ba)) = set is"
proof -
  note i = inv [unfolded agg_inv_def]
  have dist: "distinct (signers (Some ba))" using distinct_signers [of "Some ba"] by (simp add: distinct_map)
  have "i \<in> set (range_u32 (Bits ba))" if "i \<in> set is" for i
  proof -
    have "unat i \<in> ba_bits ba" using i that by simp
    then show ?thesis using ba_bits_less by (fastforce simp: set_range_u32 word_less_nat_alt)
  qed
  then have set: "set (signers (Some ba)) = set is"
    using i by (auto simp: signers_wf word_unat_eq_iff [symmetric])
  have bits: "ba_bits ba \<subseteq> {..<Len_vs vs}" using ba_bits_less [of _ ba] i by (auto simp: Len_vs_def)
  have card: "card (ba_bits ba) = length is"
    using i d(1) card_image [of unat "set is"] by (simp add: inj_on_def word_unat_eq_iff [symmetric] distinct_card)
  have "mset (map (\<lambda>i. ordered_nodes vs ! unat i) (signers (Some ba))) = mset (map (\<lambda>i. ordered_nodes vs ! unat i) is)"
    using set dist d(1) by (simp add: set_eq_iff_mset_eq_distinct)
  then have "agg_pub B (map (\<lambda>i. ordered_nodes vs ! unat i) (signers (Some ba))) = agg_pub B (map (\<lambda>i. ordered_nodes vs ! unat i) is)"
    by (rule agg_pub_perm [OF B])
  moreover have "signers (Some ba) \<noteq> []" using set i by auto
  ultimately have "VerifyAggSigByBA B vp (q_Epoch qc) (Some ba) (k (preimage_qc qc)) (q_Signature qc) = Inr None"
    using NodeListByBitArray_wf [OF _ bits wf] i vp by (simp add: VerifyAggSigByBA_def signers_wf)
  then have "verifyPrepareQC B k vp (q_BlockNumber qc) (q_BlockHash qc) (Some qc) = Inr None"
    using vp ba i card d(2)
    by (simp add: verifyPrepareQC_def Len_vp_def Len_qc_def count_set_wf digest_preimage Len_vs_def)
  then show ?thesis using set by simp
qed

text \<open>Votes that may be aggregated: kept under their index, signed by the validator of that index, all for
  the same block in the same view.\<close>

definition signed_votes :: "bls \<Rightarrow> (bytes \<Rightarrow> bytes) \<Rightarrow> validators \<Rightarrow> prepareVotesMap \<Rightarrow> prepareVote \<Rightarrow> bool" where
  "signed_votes B k vs votes vote \<longleftrightarrow> gwf votes \<and> (\<forall>e\<in>set votes. pv_ValidatorIndex (snd e) = fst e
     \<and> unat (fst e) < Len_vs vs \<and> preimage_pv (snd e) = preimage_pv vote
     \<and> Verify_node B (ordered_nodes vs ! unat (fst e)) (k (preimage_pv vote)) (pv_Signature (snd e)) = None)"

lemma preimage_pv_fields:
  "preimage_pv v = preimage_pv w \<Longrightarrow> pv_Epoch v = pv_Epoch w \<and> pv_ViewNumber v = pv_ViewNumber w
     \<and> pv_BlockHash v = pv_BlockHash w \<and> pv_BlockNumber v = pv_BlockNumber w \<and> pv_BlockIndex v = pv_BlockIndex w"
  unfolding preimage_pv_def by (drule preimage6_inj) (simp only: ucast_u32_u64_eq simp_thms)

lemma generatePrepareQC_verifies:
  assumes "bls_ok B" and "EnableVerifyEpoch vp epoch = None" "validators_of vp epoch = Inr vs" "wf_validators vs"
    and "0 < Len_vs vs" "Len_vs vs + 63 < 2 ^ 32"
    and "signed_votes B k vs votes vote" "pv_Epoch vote = epoch" "threshold (Len_vs vs) \<le> length votes"
  shows "\<exists>qc. generatePrepareQC B vp epoch votes = Inr (Some qc)
    \<and> preimage_qc qc = preimage_pv vote \<and> set (signers (q_ValidatorSet qc)) = gkeys votes
    \<and> verifyPrepareQC B k vp (pv_BlockNumber vote) (pv_BlockHash vote) (Some qc) = Inr None"
proof -
  have "0 < threshold (Len_vs vs)" using assms(5) by (simp add: threshold_def)
  then obtain i v votes' where votes: "votes = (i, v) # votes'" using assms(9) by (cases votes) auto
  let ?d = "k (preimage_pv vote)" and ?ns = "ordered_nodes vs"
  let ?es = "map (\<lambda>p. (EqualState_pv v p, pv_ValidatorIndex p, pv_Signature p)) (gvals votes)"
  let ?qc = "\<lparr>q_Epoch = pv_Epoch v, q_ViewNumber = pv_ViewNumber v, q_BlockHash = pv_BlockHash v,
     q_BlockNumber = pv_BlockNumber v, q_BlockIndex = pv_BlockIndex v, q_Step = RoundStepPrepareVote,
     q_Signature = replicate SignatureLength 0, q_ValidatorSet = None\<rparr>"
  note sv = assms(7) [unfolded signed_votes_def]
  have v: "preimage_pv v = preimage_pv vote" "pv_ValidatorIndex v = i" using sv votes by auto
  have same: "EqualState_pv v (snd e)" if "e \<in> set votes" for e
    using sv that v preimage_pv_fields [of "snd e" v] by (simp add: EqualState_pv_def)
  have es: "\<forall>e\<in>set ?es. signed_entry B ?ns ?d e" using sv same by (auto simp: signed_entry_def Len_vs_def)
  have idx: "map (fst \<circ> snd) ?es = map fst votes" using sv by (auto simp: o_def)
  have len: "length ?ns = Len_vs vs" by (simp add: Len_vs_def)
  have hd: "?es = (EqualState_pv v v, pv_ValidatorIndex v, pv_Signature v) #
      map (\<lambda>p. (EqualState_pv v p, pv_ValidatorIndex p, pv_Signature p)) (gvals votes')"
    using votes by simp
  have dist: "distinct (map (fst \<circ> snd) ?es)" unfolding idx using sv by (simp add: gwf_def)
  obtain agg ba where ab: "agg_votes B (Len_vs vs) (pv_ValidatorIndex v) (pv_Signature v) ?es ?qc =
      Inr (Some (?qc\<lparr>q_Signature := SetBytes agg (q_Signature ?qc), q_ValidatorSet := Some ba\<rparr>))"
      "agg_inv B ?ns ?d (map fst votes) agg ba"
    using agg_votes_verifies [OF assms(1) _ _ es hd dist, of ?qc, unfolded len idx, OF assms(5,6)] by blast
  define qc where "qc = ?qc\<lparr>q_Signature := agg, q_ValidatorSet := Some ba\<rparr>"
  have sign: "SetBytes agg (replicate SignatureLength 0) = agg"
    using ab(2) by (simp add: SetBytes_def go_copy_same_length agg_inv_def)
  have gen: "generatePrepareQC B vp epoch votes = Inr (Some qc)"
    using ab(1) sign assms(3) votes by (simp add: generatePrepareQC_def qc_def Len_vp_def)
  have pre: "preimage_qc qc = preimage_pv vote" using v by (simp add: qc_def preimage_qc_def preimage_pv_def)
  have f: "pv_BlockNumber vote = q_BlockNumber qc" "pv_BlockHash vote = q_BlockHash qc" "q_Epoch qc = epoch"
    using preimage_pv_fields [OF v(1)] assms(8) by (simp_all add: qc_def)
  have "verifyPrepareQC B k vp (q_BlockNumber qc) (q_BlockHash qc) (Some qc) = Inr None \<and> set (signers (Some ba)) = set (map fst votes)"
    using agg_inv_verifies [OF assms(1), of vs k qc "map fst votes" ba vp] ab(2) pre assms f sv
    by (simp add: gwf_def qc_def)
  then show ?thesis using gen pre f by (simp add: qc_def)
qed

section \<open>Properties\<close>

text \<open>C5: Generated prepare certificates verify.  If the votes kept for a block are signed by at least
  \<open>threshold\<close> validators of the epoch for the same block in the same view, \<open>generatePrepareQC\<close> returns a
  certificate for that block naming exactly these validators, and \<open>verifyPrepareQC\<close> accepts it; the order
  in which the map is visited does not matter.  The BLS library is assumed to be additive (\<open>bls_ok\<close>).\<close>
theorem generated_qc_verifies:
  assumes "bls_ok B" and "EnableVerifyEpoch vp epoch = None" "validators_of vp epoch = Inr vs" "wf_validators vs"
    and "0 < Len_vs vs" "Len_vs vs + 63 < 2 ^ 32"
    and "signed_votes B k vs votes vote" "pv_Epoch vote = epoch" "threshold (Len_vs vs) \<le> length votes"
  shows "\<exists>qc. generatePrepareQC B vp epoch votes = Inr (Some qc)
    \<and> preimage_qc qc = preimage_pv vote \<and> set (signers (q_ValidatorSet qc)) = gkeys votes
    \<and> verifyPrepareQC B k vp (pv_BlockNumber vote) (pv_BlockHash vote) (Some qc) = Inr None"
  by (rule generatePrepareQC_verifies [OF assms])

text \<open>A library in which a signature is the key itself and sums are bytewise.\<close>

definition sum_bls :: bls where
  "sum_bls = \<lparr>bls_Deserialize = (\<lambda>s. if length s = SignatureLength then Some s else None),
     bls_AddSign = (\<lambda>a b. map2 (+) a b), bls_AddPub = (\<lambda>a b. map2 (+) a b), bls_Verify = (\<lambda>s p m. s = p)\<rparr>"

lemma map2_plus_assoc: "map2 (+) (map2 (+) a b) c = map2 (+) a (map2 (+) b (c :: 'a::semigroup_add list))"
  by (intro nth_equalityI) (simp_all add: add.assoc)

lemma map2_plus_commute: "map2 (+) a b = map2 (+) b (a :: 'a::ab_semigroup_add list)"
  by (intro nth_equalityI) (simp_all add: add.commute)

lemma sum_bls_ok: "bls_ok sum_bls"
  unfolding bls_ok_def sum_bls_def
  by (intro conjI allI) (auto simp: map2_plus_assoc split: if_splits intro: map2_plus_commute)

definition cert_node :: "u32 \<Rightarrow> validateNode" where
  "cert_node i = \<lparr>vn_Index = i, vn_Address = 0, vn_NodeID = 10 + ucast i, vn_BlsPubKey = replicate SignatureLength (ucast i)\<rparr>"

definition cert_validators :: validators where
  "cert_validators = \<lparr>Nodes = map (\<lambda>i. (10 + ucast i, cert_node i)) [0, 1, 2, 3], ValidBlockNumber = 1, sortedNodes = []\<rparr>"

definition cert_pool :: validatorPool where
  "cert_pool = pool_example\<lparr>vp_prevValidators := Some cert_validators, vp_currentValidators := Some cert_validators\<rparr>"

lemma cert_ordered: "ordered_nodes cert_validators = map cert_node [0, 1, 2, 3]"
  by (simp add: ordered_nodes_def cert_validators_def cert_node_def sort_key_def)

lemma wf_cert_validators: "wf_validators cert_validators"
  unfolding wf_validators_def cert_ordered
  by (auto simp: cert_validators_def gwf_def gget_def cert_node_def upt_rec split: if_splits)

definition cert_vote :: "u32 \<Rightarrow> prepareVote" where
  "cert_vote i = (ev_vote 5)\<lparr>pv_ValidatorIndex := i, pv_Signature := replicate SignatureLength (ucast i)\<rparr>"

definition cert_votes :: "u32 list \<Rightarrow> prepareVotesMap" where
  "cert_votes is = map (\<lambda>i. (i, cert_vote i)) is"

lemma cert_pool_1: "EnableVerifyEpoch cert_pool 1 = None" "validators_of cert_pool 1 = Inr cert_validators"
  by (simp_all add: cert_pool_def EnableVerifyEpoch_def validators_of_def epochToBlockNumber_def)

lemma signed_cert_votes:
  "signed_votes sum_bls k cert_validators (cert_votes [2, 0, 3]) (cert_vote 0)"
  "signed_votes sum_bls k cert_validators (cert_votes [1, 0, 2]) (cert_vote 0)"
  unfolding signed_votes_def cert_ordered
  by (auto simp: cert_votes_def gwf_def cert_vote_def ev_vote_def Len_vs_def cert_validators_def preimage_pv_def
      Verify_node_def sum_bls_def cert_node_def)

theorem generated_qc_verifies_witness:
  "\<exists>qc. generatePrepareQC sum_bls cert_pool 1 (cert_votes [2, 0, 3]) = Inr (Some qc)
    \<and> preimage_qc qc = preimage_pv (cert_vote 0) \<and> set (signers (q_ValidatorSet qc)) = {0, 2, 3}
    \<and> verifyPrepareQC sum_bls (\<lambda>b. b) cert_pool 7 5 (Some qc) = Inr None"
  using generated_qc_verifies [OF sum_bls_ok cert_pool_1 wf_cert_validators _ _ signed_cert_votes(1) [of "\<lambda>b. b"]]
  by (simp add: Len_vs_def cert_validators_def cert_votes_def cert_vote_def ev_vote_def threshold_def insert_commute)

section \<open>Weak spots\<close>

text \<open>\<open>validateViewChangeQC\<close> adds up the signers of all parts.  A validator that signed view changes for two
  blocks counts twice: here two of four validators reach the threshold of three.\<close>

definition twice_vcqc :: viewChangeQC where
  "twice_vcqc = (let part = (\<lambda>h w b. \<lparr>vq_Epoch = 1, vq_ViewNumber = 2, vq_BlockHash = h, vq_BlockNumber = 7,
     vq_BlockEpoch = 1, vq_BlockViewNumber = 0, vq_Signature = replicate SignatureLength b,
     vq_ValidatorSet = Some \<lparr>Bits = 4, Elems = [w]\<rparr>\<rparr>) in \<lparr>QCs = [part 5 3 1, part 6 1 0]\<rparr>)"

lemma twice_nodes:
  "NodeListByBitArray cert_validators (Some \<lparr>Bits = 4, Elems = [3]\<rparr>) = Inr (Inr [cert_node 0, cert_node 1])"
  "NodeListByBitArray cert_validators (Some \<lparr>Bits = 4, Elems = [1]\<rparr>) = Inr (Inr [cert_node 0])"
  by code_simp+

lemma twice_valid: "validateViewChangeQC cert_pool twice_vcqc = Inr None"
  by code_simp

lemma CannibalizeBytes_vcqc_eq:
  "CannibalizeBytes_vcqc k q = Inr (Inr (k (preimage6 (vq_Epoch q) (vq_ViewNumber q) (vq_BlockHash q) (vq_BlockNumber q)
     (vq_BlockEpoch q) (vq_BlockViewNumber q))))"
  unfolding CannibalizeBytes_vcqc_def cannibalize_digest6 [unfolded digest6_def] by simp

lemma verify_vcqc_twice:
  "\<forall>q\<in>set (QCs twice_vcqc). verify_vcqc sum_bls k cert_pool q = Inr None"
  by (simp add: twice_vcqc_def verify_vcqc_def CannibalizeBytes_vcqc_eq VerifyAggSigByBA_def cert_pool_1 twice_nodes
      sum_bls_def agg_pub_def cert_node_def SignatureLength_def Let_def)

lemma viewchange_signers_counted_twice:
  "verifyViewChangeQC sum_bls k cert_pool twice_vcqc = Inr None
    \<and> length (QCs twice_vcqc) = 2 \<and> map (\<lambda>q. signers (vq_ValidatorSet q)) (QCs twice_vcqc) = [[0, 1], [0]]
    \<and> threshold (Len_vs cert_validators) = 3"
proof (intro conjI)
  show "verifyViewChangeQC sum_bls k cert_pool twice_vcqc = Inr None"
    using verify_vcqc_twice [of k] twice_valid cert_pool_1
    by (simp add: verifyViewChangeQC_def twice_vcqc_def MaxBlock_def Let_def)
qed (code_simp+)

text \<open>The digests of votes and view changes have the same six-field form: a view change whose certificate
  is of view 2 has the digest of a prepare vote with block index equal to the epoch of that certificate.\<close>

lemma viewchange_digest_is_vote_digest:
  assumes "vc_PrepareQC vc = Some qc" "q_Epoch qc = ucast i" "q_ViewNumber qc = 2"
  shows "CannibalizeBytes_vc k vc = CannibalizeBytes_pv k \<lparr>pv_Epoch = vc_Epoch vc, pv_ViewNumber = vc_ViewNumber vc,
    pv_BlockHash = vc_BlockHash vc, pv_BlockNumber = vc_BlockNumber vc, pv_BlockIndex = i, pv_ValidatorIndex = n,
    pv_ParentQC = q, pv_Signature = s\<rparr>"
  using assms by (simp add: CannibalizeBytes_vc_def CannibalizeBytes_pv_def)

end
