(* ===== verification/Engine.thy ===== *)
theory Engine
  imports Certificates Codec
begin

text \<open>
  The consensus engine (\<open>consensus/pbft/consensus_process.go\<close> and the parts of \<open>pbft.go\<close> it calls): one
  definition per handler and helper, on a record of the engine's components.  All handlers run on one
  goroutine (\<open>receiveLoop\<close>), so a handler is a function from engine to engine.  What leaves the engine (network
  messages, write-ahead log, executor, transaction pool, chain) is appended to \<open>e_out\<close> in order.  The record
  \<open>env\<close> holds what the engine reads from outside: the clock (one instant per event, in nanoseconds), the hash, the
  BLS library and the node's own key, the agency, the configuration, the header check, the database faults,
  whether executing a block succeeds, which messages the network layer has seen, whether it knows a peer, the
  certificate in a block's extra data, and the view-change certificates kept in the write-ahead log.  \<open>log.Crit\<close>, which ends the process, is a panic.
  Metrics, logging and test hooks are left out.
\<close>

section \<open>State\<close>

datatype syncKey = KNumber u64 | KHash hash

text \<open>A \<open>protocols.State\<close>: a block with its certificate, either of which may be missing.\<close>

type_synonym chainItem = "block option \<times> quorumCert option"

datatype effect =
    Broadcast message
  | PartBroadcast message
  | Send string message
  | Requeue msgInfo
  | AsyncInsert "block list" "quorumCert list"
  | Execute block block
  | ExecuteNow block block
  | WalPrepareBlock prepareBlock
  | WalPrepareVote block prepareVote
  | WalPreCommit block preCommit
  | WalViewChange viewChange
  | WalConfirmViewChange u64 u64 block "quorumCert option" "viewChangeQC option" u64 u64
  | WalChainState chainItem chainItem chainItem
  | PostResult block bytes chainItem chainItem chainItem
  | PostValidators "validatorEvent list"
  | TxReset block
  | TxForkedReset block "block list"
  | ClearCache block
  | Flush block
  | SealResult block
  | PeerSetting string u64 u64
  | RemoveMessageHash string message
  | MarkHistory message
  | Forwarding string message
  | Blacklist string

record engine =
  e_state :: viewState
  e_tree :: blockTree
  e_vp :: validatorPool
  e_cs :: csMsgPool
  e_sync :: "syncKey syncCache"
  e_ev :: evidencePool
  e_tasks :: "(string, block \<times> int) gomap"
  e_loading :: bool
  e_syncing :: bool
  e_fetching :: bool
  e_out :: "effect list"

record env =
  c_now :: int
  c_keccak :: "bytes \<Rightarrow> bytes"
  c_bls :: bls
  c_sign :: "bytes \<Rightarrow> bytes"
  c_self :: nodeID
  c_agency :: agency
  c_amount :: u32
  c_headerOK :: "block \<Rightarrow> bool"
  c_faults :: dbFaults
  c_exec :: "block \<Rightarrow> block \<Rightarrow> bool"
  c_seen :: "message \<Rightarrow> bool"
  c_peerErr :: "string \<Rightarrow> bool"
  c_extra :: "block \<Rightarrow> quorumCert option"
  c_walViewChangeQC :: "u64 \<Rightarrow> u64 \<Rightarrow> u64 \<Rightarrow> viewChangeQC option"

definition emit :: "effect \<Rightarrow> engine \<Rightarrow> engine" where
  "emit x e = e\<lparr>e_out := e_out e @ [x]\<rparr>"

definition on_state :: "(viewState \<Rightarrow> viewState) \<Rightarrow> engine \<Rightarrow> engine" where
  "on_state f e = e\<lparr>e_state := f (e_state e)\<rparr>"

abbreviation unix :: "env \<Rightarrow> int" where
  "unix c \<equiv> c_now c div 1000000000"

section \<open>Small helpers of \<open>pbft.go\<close>\<close>

definition HasBlock :: "hash \<Rightarrow> u64 \<Rightarrow> engine \<Rightarrow> bool go" where
  "HasBlock h number e = go_map (\<lambda>qcBlock. blk_Number qcBlock > number \<or> blk_Number qcBlock = number \<and> blk_Hash qcBlock = h)
     (HighestPreCommitQCBlock (e_state e))"

definition isCurrentValidator :: "env \<Rightarrow> engine \<Rightarrow> (vderr + validateNode) go" where
  "isCurrentValidator c e = GetValidatorByNodeID (e_vp e) (v_epoch (e_state e)) (c_self c)"

definition currentValidatorLen :: "engine \<Rightarrow> nat go" where
  "currentValidatorLen e = Len_vp (e_vp e) (v_epoch (e_state e))"

definition signDigest :: "env \<Rightarrow> (bytes \<Rightarrow> 'm \<Rightarrow> 'm) \<Rightarrow> (rlp_err + bytes) go \<Rightarrow> 'm \<Rightarrow> 'm option go" where
  "signDigest c setSign digest m =
     go_map (\<lambda>r. case r of Inl _ \<Rightarrow> None | Inr buf \<Rightarrow> Some (setSign (c_sign c buf) m)) digest"

definition signMsgByBls_pb :: "env \<Rightarrow> prepareBlock \<Rightarrow> prepareBlock option go" where
  "signMsgByBls_pb c m = signDigest c SetSign_pb (CannibalizeBytes_pb (c_keccak c) m) m"

definition signMsgByBls_pv :: "env \<Rightarrow> prepareVote \<Rightarrow> prepareVote option go" where
  "signMsgByBls_pv c m = signDigest c SetSign_pv (CannibalizeBytes_pv (c_keccak c) m) m"

definition signMsgByBls_pc :: "env \<Rightarrow> preCommit \<Rightarrow> preCommit option go" where
  "signMsgByBls_pc c m = signDigest c SetSign_pc (CannibalizeBytes_pc (c_keccak c) m) m"

definition signMsgByBls_vc :: "env \<Rightarrow> viewChange \<Rightarrow> viewChange option go" where
  "signMsgByBls_vc c m = signDigest c SetSign_vc (CannibalizeBytes_vc (c_keccak c) m) m"

abbreviation zero_sig :: signature where
  "zero_sig \<equiv> replicate SignatureLength 0"

section \<open>Requests to peers\<close>

definition requeue :: "msgInfo option \<Rightarrow> engine \<Rightarrow> engine" where
  "requeue m e = (case m of None \<Rightarrow> e | Some mi \<Rightarrow> emit (Requeue mi) e)"

definition SyncPrepareBlock :: "env \<Rightarrow> string \<Rightarrow> u64 \<Rightarrow> u64 \<Rightarrow> u32 \<Rightarrow> u64 \<Rightarrow> engine \<Rightarrow> engine" where
  "SyncPrepareBlock c peer epoch blockNumber blockIndex viewNumber e =
     (let (m, cs) = GetPrepareBlock_cs epoch blockNumber blockIndex (e_cs e);
          e = requeue m (e\<lparr>e_cs := cs\<rparr>);
          (ok, sc) = AddOrReplace (c_now c) (KNumber blockNumber) (e_sync e);
          e = e\<lparr>e_sync := sc\<rparr>;
          msg = MGetPrepareBlock \<lparr>gpb_Epoch = epoch, gpb_BlockNumber = blockNumber, gpb_ViewNumber = viewNumber,
            gpb_BlockIndex = blockIndex\<rparr>
      in if ok then emit (if peer = [] then PartBroadcast msg else Send peer msg) e else e)"

definition SyncBlockQuorumCert :: "env \<Rightarrow> string \<Rightarrow> u64 \<Rightarrow> hash \<Rightarrow> u32 \<Rightarrow> engine \<Rightarrow> engine" where
  "SyncBlockQuorumCert c peer blockNumber blockHash blockIndex e =
     (let (m, cs) = GetPrepareQC_cs (v_epoch (e_state e)) blockNumber blockIndex (e_cs e);
          e = requeue m (e\<lparr>e_cs := cs\<rparr>);
          (ok, sc) = AddOrReplace (c_now c) (KHash blockHash) (e_sync e);
          e = e\<lparr>e_sync := sc\<rparr>
      in if ok then emit (Send peer (MGetBlockQuorumCert \<lparr>gbq_BlockHash = blockHash, gbq_BlockNumber = blockNumber\<rparr>)) e else e)"

definition SyncBlockPreCommitQuorumCert :: "env \<Rightarrow> string \<Rightarrow> u64 \<Rightarrow> hash \<Rightarrow> u32 \<Rightarrow> engine \<Rightarrow> engine" where
  "SyncBlockPreCommitQuorumCert c peer blockNumber blockHash blockIndex e =
     (let (m, cs) = GetPreCommitQC_cs (v_epoch (e_state e)) blockNumber blockIndex (e_cs e);
          e = requeue m (e\<lparr>e_cs := cs\<rparr>);
          (ok, sc) = AddOrReplace (c_now c) (KHash blockHash) (e_sync e);
          e = e\<lparr>e_sync := sc\<rparr>
      in if ok then emit (Send peer (MGetBlockPreCommitQuorumCert \<lparr>gbp_BlockHash = blockHash, gbp_BlockNumber = blockNumber\<rparr>)) e
         else e)"

text \<open>The fetcher (\<open>fetcher.go\<close>): one task per peer, kept with the block it builds on and its time.  The channel
  to the fetcher's goroutine is left out: a task counts from the call on.\<close>

definition arriveTimeout :: int where "arriveTimeout = 500 * 1000000"

definition AddTask :: "int \<Rightarrow> string \<Rightarrow> block \<Rightarrow> (string, block \<times> int) gomap \<Rightarrow> (string, block \<times> int) gomap" where
  "AddTask now peer parent tasks = gset peer (parent, now) tasks"

fun is_QCBlockList :: "message \<Rightarrow> bool" where
  "is_QCBlockList (MQCBlockList _) = True"
| "is_QCBlockList _ = False"

definition MatchTask :: "string \<Rightarrow> message \<Rightarrow> (string, block \<times> int) gomap \<Rightarrow> block option \<times> (string, block \<times> int) gomap" where
  "MatchTask peer msg tasks = (case gget tasks peer of
     Some (parent, _) \<Rightarrow> if is_QCBlockList msg then (Some parent, gdel peer tasks) else (None, tasks)
   | None \<Rightarrow> (None, tasks))"

definition expire_tasks :: "int \<Rightarrow> (string, block \<times> int) gomap \<Rightarrow> (string, block \<times> int) gomap" where
  "expire_tasks now tasks = filter (\<lambda>(_, _, t). \<not> now - t > arriveTimeout) tasks"

text \<open>\<open>fetchBlock\<close> up to the registration of the task.\<close>

definition fetchBlock :: "env \<Rightarrow> string \<Rightarrow> hash \<Rightarrow> u64 \<Rightarrow> quorumCert option \<Rightarrow> engine \<Rightarrow> engine go" where
  "fetchBlock c peer h number qc e =
     (if e_tasks e \<noteq> [] then Inr e
      else go_bind (HighestPreCommitQCBlock (e_state e)) (\<lambda>highestQC.
        if blk_Number highestQC + 2 < number then Inr e
        else if \<not> blk_Number highestQC < number then Inr e
        else go_map (\<lambda>err. if err \<noteq> None then e
            else emit (Send peer (MGetQCBlockList \<lparr>gql_Epoch = v_epoch (e_state e), gql_BlockHash = blk_Hash highestQC,
                  gql_BlockNumber = blk_Number highestQC\<rparr>))
              (e\<lparr>e_tasks := AddTask (c_now c) peer highestQC (e_tasks e)\<rparr>))
          (case qc of None \<Rightarrow> Inr None
           | Some q \<Rightarrow> if q_Epoch q = v_epoch (e_state e) then verifyPrepareQC (c_bls c) (c_keccak c) (e_vp e) number h qc
               else Inr None)))"

definition prepareVoteFetchRules :: "env \<Rightarrow> string \<Rightarrow> prepareVote \<Rightarrow> engine \<Rightarrow> engine" where
  "prepareVoteFetchRules c peer vote e =
     (let st = e_state e
      in if pv_BlockNumber vote = v_blockNumber st \<and> pv_ViewNumber vote = v_viewNumber st
         then (case ViewBlockAndQC (v_blockNumber st) st of
             (None, _) \<Rightarrow> SyncPrepareBlock c peer (v_epoch st) (v_blockNumber st) 0 (v_viewNumber st) e
           | (Some b, None) \<Rightarrow> SyncBlockQuorumCert c peer (blk_Number b) (blk_Hash b) 0 e
           | _ \<Rightarrow> e)
         else e)"

definition preCommitFetchRules :: "env \<Rightarrow> string \<Rightarrow> preCommit \<Rightarrow> engine \<Rightarrow> engine" where
  "preCommitFetchRules c peer vote e =
     (let st = e_state e
      in if pc_BlockNumber vote = v_blockNumber st \<and> pc_ViewNumber vote = v_viewNumber st
         then (case ViewBlockAndPreCommitQC (v_blockNumber st) st of
             (None, _) \<Rightarrow> SyncPrepareBlock c peer (v_epoch st) (v_blockNumber st) 0 (v_viewNumber st) e
           | (Some b, None) \<Rightarrow> SyncBlockPreCommitQuorumCert c peer (blk_Number b) (blk_Hash b) 0 e
           | _ \<Rightarrow> e)
         else e)"

section \<open>Changing the view\<close>

text \<open>The blocks \<open>clearInvalidBlocks\<close> collects: numbers from the highest one down to the one after \<open>newBlock\<close>.\<close>

definition rollback_blocks :: "viewState \<Rightarrow> block \<Rightarrow> block list" where
  "rollback_blocks vs newBlock =
     (if 1 \<le> v_viewNumber vs
      then List.map_filter (\<lambda>n. ViewBlockByIndex (word_of_nat n) vs)
        (rev [Suc (unat (blk_Number newBlock))..<Suc (unat (MaxViewBlockNumber vs))])
      else [])"

definition clearInvalidBlocks :: "block \<Rightarrow> engine \<Rightarrow> engine go" where
  "clearInvalidBlocks newBlock e = go_map (\<lambda>commit.
     emit (TxForkedReset newBlock (rollback_blocks (e_state e) newBlock)) (emit (ClearCache commit) e))
     (HighestCommitBlock (e_state e))"

definition setViewTimer :: "env \<Rightarrow> viewState \<Rightarrow> viewState go" where
  "setViewTimer c vs = (case SetViewTimer (c_now c) 1 vs of None \<Rightarrow> Inl (Explicit ''view interval'') | Some vs' \<Rightarrow> Inr vs')"

definition changeView :: "env \<Rightarrow> u64 \<Rightarrow> u64 \<Rightarrow> block option \<Rightarrow> quorumCert option \<Rightarrow> viewChangeQC option \<Rightarrow> engine \<Rightarrow> engine go" where
  "changeView c epoch viewNumber bp qc viewChangeQC e =
     go_bind (go_deref bp) (\<lambda>block.
       let preEpoch = v_epoch (e_state e); preViewNumber = v_viewNumber (e_state e);
           e = e\<lparr>e_sync := Purge_sc (e_sync e), e_cs := Purge_cs epoch (blk_Number block) (e_cs e)\<rparr>
       in go_bind (setViewTimer c (ResetView epoch viewNumber (v_blockNumber (e_state e)) (e_state e))) (\<lambda>st.
          let e = e\<lparr>e_state := SetLastViewChangeQC viewChangeQC st\<rparr>;
              e = (if e_loading e then e
                   else emit (WalConfirmViewChange epoch viewNumber block qc viewChangeQC preEpoch preViewNumber) e)
          in go_bind (clearInvalidBlocks block e) (\<lambda>e.
             go_map (\<lambda>ev. SyncPrepareBlock c [] epoch (blk_Number block) 0 (v_viewNumber (e_state e)) (e\<lparr>e_ev := ev\<rparr>))
               (Clear_pool epoch (blk_Number block) (e_ev e)))))"

definition generateViewChange :: "env \<Rightarrow> quorumCert \<Rightarrow> engine \<Rightarrow> viewChange option go" where
  "generateViewChange c qc e = go_bind (isCurrentValidator c e) (\<lambda>r. case r of Inl _ \<Rightarrow> Inr None
     | Inr node \<Rightarrow> signMsgByBls_vc c \<lparr>vc_Epoch = v_epoch (e_state e), vc_ViewNumber = v_viewNumber (e_state e),
         vc_BlockHash = q_BlockHash qc, vc_BlockNumber = q_BlockNumber qc, vc_ValidatorIndex = vn_Index node,
         vc_PrepareQC = Some qc, vc_Signature = zero_sig\<rparr>)"

text \<open>\<open>richViewChangeQC\<close> appends to the certificate; the result is the certificate after the call.\<close>

definition append_cert :: "env \<Rightarrow> viewChange \<Rightarrow> viewChangeQC \<Rightarrow> engine \<Rightarrow> viewChangeQC option go" where
  "append_cert c v vcqc e = go_map (map_option (\<lambda>cert. AppendQuorumCert cert vcqc))
     (generateViewChangeQuorumCert (c_bls c) (e_vp e) (v_epoch (e_state e)) (c_self c) v)"

definition richViewChangeQC :: "env \<Rightarrow> viewChangeQC \<Rightarrow> engine \<Rightarrow> viewChangeQC go" where
  "richViewChangeQC c vcqc e =
     go_bind (isCurrentValidator c e) (\<lambda>r. case r of Inl _ \<Rightarrow> Inr vcqc
     | Inr node \<Rightarrow> (let hadSend = ViewChangeByIndex (vn_Index node) (e_state e) in
        go_bind (case hadSend of None \<Rightarrow> Inr (Some vcqc)
            | Some v \<Rightarrow> if ExistViewChange vcqc (vc_Epoch v) (vc_ViewNumber v) (vc_BlockHash v) then Inr (Some vcqc)
                else append_cert c v vcqc e) (\<lambda>r. case r of None \<Rightarrow> Inr vcqc
        | Some vcqc \<Rightarrow> go_bind (HighestQCBlock (e_state e)) (\<lambda>hq.
            case snd (FindBlockAndQC (e_tree e) (blk_Hash hq) (blk_Number hq)) of None \<Rightarrow> Inr vcqc
            | Some qc \<Rightarrow> (let (_, _, blockEpoch, blockView, _, number) = MaxBlock vcqc in
                if HigherQuorumCert qc number blockEpoch blockView \<and> hadSend = None
                then go_bind (generateViewChange c qc e) (\<lambda>v. case v of None \<Rightarrow> Inr vcqc
                  | Some v \<Rightarrow> go_map (\<lambda>r. case r of None \<Rightarrow> vcqc | Some q \<Rightarrow> q) (append_cert c v vcqc e))
                else Inr vcqc)))))"

definition tryChangeViewByViewChange :: "env \<Rightarrow> viewChangeQC \<Rightarrow> engine \<Rightarrow> engine go" where
  "tryChangeViewByViewChange c vcqc e =
     go_bind (HighestPreCommitQCBlock (e_state e)) (\<lambda>hp.
     let (bp, qc) = FindBlockAndQC (e_tree e) (blk_Hash hp) (blk_Number hp) in
     go_bind (go_deref bp) (\<lambda>block.
     go_bind (if blk_Number block \<noteq> 0
        then go_map (\<lambda>vcqc. let (_, _, blockEpoch, _, _, number) = MaxBlock vcqc
            in (vcqc, blk_Number hp < number \<or> blk_Number hp = number \<and> v_epoch (e_state e) < blockEpoch))
          (richViewChangeQC c vcqc e)
        else Inr (vcqc, False)) (\<lambda>(vcqc, behind).
     if behind then Inr e
     else let (_, _, blockEpoch, _, _, number) = MaxBlock vcqc; epoch = v_epoch (e_state e)
          in if EqualSwitchPoint (e_vp e) number \<and> blockEpoch = epoch
             then changeView c (epoch + 1) DefaultViewNumber bp qc (Some vcqc) e
             else changeView c epoch (v_viewNumber (e_state e) + 1) bp qc (Some vcqc) e)))"

definition update_validators :: "env \<Rightarrow> u64 \<Rightarrow> engine \<Rightarrow> engine go" where
  "update_validators c number e = go_map (\<lambda>(_, vp, evs). let e = e\<lparr>e_vp := vp\<rparr> in if evs = [] then e else emit (PostValidators evs) e)
     (Update_vp (c_agency c) number (v_epoch (e_state e) + 1) (e_vp e))"

definition tryChangeView :: "env \<Rightarrow> engine \<Rightarrow> engine go" where
  "tryChangeView c e =
     go_bind (HighestPreCommitQCBlock (e_state e)) (\<lambda>hp.
     let (bp, qc) = FindBlockAndQC (e_tree e) (blk_Hash hp) (blk_Number hp) in
     go_bind (go_deref bp) (\<lambda>block.
     let shouldSwitch = ShouldSwitch (e_vp e) (blk_Number block);
         enough = (MaxQCIndex (e_state e) + 1 = c_amount c
           \<or> (case qc of None \<Rightarrow> False | Some q \<Rightarrow> q_Epoch q = v_epoch (e_state e) \<and> shouldSwitch)) in
     go_bind (if shouldSwitch then update_validators c (blk_Number block) e else Inr e) (\<lambda>e.
     if enough
     then (if EqualSwitchPoint (e_vp e) (blk_Number block)
           then changeView c (v_epoch (e_state e) + 1) DefaultViewNumber bp qc None e
           else changeView c (v_epoch (e_state e)) DefaultViewNumber bp qc None e)
     else go_bind (currentValidatorLen e) (\<lambda>n.
       if ViewChangeLen (e_state e) \<ge> threshold n
       then go_bind (generateViewChangeQC (c_bls c) (e_vp e) (v_epoch (e_state e)) (v_viewChanges (e_state e))) (\<lambda>v.
            go_bind (go_deref v) (\<lambda>vcqc. tryChangeViewByViewChange c vcqc e))
       else Inr e))))"

section \<open>Certified blocks\<close>

definition TrySetHighestQCBlock :: "block option \<Rightarrow> engine \<Rightarrow> engine go" where
  "TrySetHighestQCBlock bp e = go_bind (HighestQCBlock (e_state e)) (\<lambda>h. go_map (\<lambda>block.
     if blk_Number h \<le> blk_Number block then on_state (SetHighestQCBlock block) e else e) (go_deref bp))"

text \<open>Whether the certificate of \<open>block\<close> is higher than that of the block \<open>h\<close>.\<close>

definition higher_cert :: "blockTree \<Rightarrow> block \<Rightarrow> block \<Rightarrow> bool go" where
  "higher_cert t block h =
     (let qc = snd (FindBlockAndQC t (blk_Hash block) (blk_Number block))
      in case snd (FindBlockAndQC t (blk_Hash h) (blk_Number h)) of None \<Rightarrow> Inr True
         | Some hqc \<Rightarrow> go_map (\<lambda>qc. HigherQuorumCert qc (q_BlockNumber hqc) (q_Epoch hqc) (q_ViewNumber hqc)) (go_deref qc))"

definition TrySetHighestPreCommitQCBlock :: "block \<Rightarrow> engine \<Rightarrow> engine go" where
  "TrySetHighestPreCommitQCBlock block e = go_bind (HighestPreCommitQCBlock (e_state e)) (\<lambda>h.
     go_map (\<lambda>b. if b then on_state (SetHighestPreCommitQCBlock block) e else e) (higher_cert (e_tree e) block h))"

definition TrySetHighestLockBlock :: "block option \<Rightarrow> engine \<Rightarrow> engine go" where
  "TrySetHighestLockBlock bp e = go_bind (go_deref bp) (\<lambda>block. go_bind (HighestLockBlock (e_state e)) (\<lambda>h.
     go_map (\<lambda>b. if b then on_state (SetHighestLockBlock block) e else e) (higher_cert (e_tree e) block h)))"

abbreviation (input) pbftVersion :: u8 where "pbftVersion \<equiv> 1"

text \<open>\<open>commitBlock\<close> and \<open>tryCommitNewBlock\<close>: \<open>PruneBlock\<close> out of fuel is a panic of its own.\<close>

definition commitBlock :: "block \<Rightarrow> quorumCert option \<Rightarrow> block \<Rightarrow> block \<Rightarrow> engine \<Rightarrow> engine go" where
  "commitBlock commit commitQC lock qcBlock e = go_map (\<lambda>r. case r of Inl _ \<Rightarrow> e
      | Inr extra \<Rightarrow> emit (PostResult commit extra (FindBlockAndQC (e_tree e) (blk_Hash qcBlock) (blk_Number qcBlock))
          (FindBlockAndQC (e_tree e) (blk_Hash lock) (blk_Number lock)) (Some commit, commitQC)) e)
     (EncodeExtra pbftVersion commitQC)"

definition prune_to :: "block \<Rightarrow> blockTree \<Rightarrow> blockTree go" where
  "prune_to commit t = go_bind (PruneBlock (blk_Hash commit) (blk_Number commit) t) (\<lambda>r.
     case r of None \<Rightarrow> Inl (Explicit ''prune fuel'') | Some (t, _) \<Rightarrow> NewRoot commit t)"

definition tryCommitNewBlock :: "block option \<Rightarrow> block option \<Rightarrow> block \<Rightarrow> engine \<Rightarrow> engine go" where
  "tryCommitNewBlock lock commit qc e =
     (case (lock, commit) of
        (Some lock, Some commit) \<Rightarrow>
          if blk_Number commit + 1 \<noteq> blk_Number qc then Inr e
          else (let (commitBlk, commitQC) = FindBlockAndQC (e_tree e) (blk_Hash commit) (blk_Number commit) in
            go_bind (HighestLockBlock (e_state e)) (\<lambda>_. go_bind (HighestCommitBlock (e_state e)) (\<lambda>oldCommit.
            if blk_Number oldCommit + 1 = blk_Number commit
            then go_bind (commitBlock commit commitQC lock qc e) (\<lambda>e. let e = on_state (SetHighestCommitBlock commit) e
                  in go_map (\<lambda>t. e\<lparr>e_tree := t\<rparr>) (prune_to commit (e_tree e)))
            else if blk_Number oldCommit = blk_Number commit \<and> blk_Number oldCommit > 0
            then Inr (emit (WalChainState (FindBlockAndQC (e_tree e) (blk_Hash qc) (blk_Number qc))
                  (FindBlockAndQC (e_tree e) (blk_Hash lock) (blk_Number lock)) (commitBlk, commitQC)) e)
            else Inr e)))
      | _ \<Rightarrow> Inr e)"

text \<open>Whether this node proposed in the current epoch: its transactions are then not reset.\<close>

definition is_own :: "env \<Rightarrow> quorumCert \<Rightarrow> engine \<Rightarrow> bool go" where
  "is_own c qc e = go_bind (isCurrentValidator c e) (\<lambda>r. case r of Inl _ \<Rightarrow> Inr False
     | Inr node \<Rightarrow> go_bind (currentProposer (e_state e) (e_vp e)) (\<lambda>p.
         go_map (\<lambda>proposer. vn_Index node = vn_Index proposer \<and> v_epoch (e_state e) = q_Epoch qc) (go_deref p)))"

definition add_qc_block :: "block \<Rightarrow> quorumCert \<Rightarrow> viewState \<Rightarrow> viewState" where
  "add_qc_block block qc vs =
     (if v_epoch vs = q_Epoch qc
      then (if ViewBlockByIndex (q_BlockNumber qc) vs = None
            then AddPreCommitQC qc (AddQC qc (AddQCBlock block qc vs)) else AddPreCommitQC qc (AddQC qc vs))
      else vs)"

definition insertQCBlock :: "env \<Rightarrow> block option \<Rightarrow> quorumCert \<Rightarrow> engine \<Rightarrow> engine go" where
  "insertQCBlock c bp qc e =
     go_bind (go_deref bp) (\<lambda>block. go_bind (HighestLockBlock (e_state e)) (\<lambda>hl.
     go_bind (if blk_Number block \<le> blk_Number hl then Inr True else HasBlock (blk_Hash block) (blk_Number block) e) (\<lambda>known.
     if known then Inr e
     else (let e = on_state (add_qc_block block qc) e in
       go_bind (InsertQCBlock block (Some qc) (e_tree e)) (\<lambda>(t, lock, commit). let e = e\<lparr>e_tree := t\<rparr> in
       go_bind (TrySetHighestQCBlock (Some block) e) (\<lambda>e.
       go_bind (TrySetHighestPreCommitQCBlock block e) (\<lambda>e.
       go_bind (TrySetHighestLockBlock lock e) (\<lambda>e.
       go_bind (is_own c qc e) (\<lambda>own.
       tryCommitNewBlock lock commit block (if own then e else emit (TxReset block) e))))))))))"

section \<open>Voting\<close>

definition tryAddStateBlockNumber :: "env \<Rightarrow> quorumCert \<Rightarrow> engine \<Rightarrow> engine" where
  "tryAddStateBlockNumber c qc e =
     (if q_BlockNumber qc = 0 \<or> q_BlockNumber qc = v_blockNumber (e_state e)
      then on_state (AddBlockNumber (unix c) qc) e else e)"

definition tryAddHadSendVote :: "u64 \<Rightarrow> prepareVote \<Rightarrow> viewState \<Rightarrow> viewState go" where
  "tryAddHadSendVote number vote vs =
     (if number > v_hadSendVoteNumber vs then Inr (AddHadSendVoteNumber number vote vs)
      else if number = v_hadSendVoteNumber vs
      then go_map (\<lambda>l. if pv_Epoch vote > pv_Epoch l \<or> pv_Epoch vote = pv_Epoch l \<and> pv_ViewNumber vote > pv_ViewNumber l
          then AddHadSendVoteNumber number vote vs else vs) (go_deref (v_hadSendVoteLast vs))
      else Inr vs)"

definition tryAddHadSendPreCommit :: "u64 \<Rightarrow> preCommit \<Rightarrow> viewState \<Rightarrow> viewState go" where
  "tryAddHadSendPreCommit number vote vs =
     (if number > v_hadSendPreCommitNumber vs then Inr (AddHadSendPreCommitNumber number vote vs)
      else if number = v_hadSendPreCommitNumber vs
      then go_map (\<lambda>l. if pc_Epoch vote > pc_Epoch l \<or> pc_Epoch vote = pc_Epoch l \<and> pc_ViewNumber vote > pc_ViewNumber l
          then AddHadSendPreCommitNumber number vote vs else vs) (go_deref (v_hadSendPreCommitLast vs))
      else Inr vs)"

text \<open>The index under which the local vote is kept: \<open>node\<close> is nil where the node is not a validator.\<close>

definition own_index :: "env \<Rightarrow> engine \<Rightarrow> u32 go" where
  "own_index c e = go_bind (isCurrentValidator c e) (\<lambda>r. go_map vn_Index (go_deref (ptr_of r)))"

definition trySendPrepareVote :: "env \<Rightarrow> prepareVote \<Rightarrow> engine \<Rightarrow> engine go" where
  "trySendPrepareVote c msg e =
     (if IsDeadline (c_now c) (e_state e) \<or> AllowVote msg (e_state e) \<noteq> None then Inr e
      else case ViewBlockByIndex (pv_BlockNumber msg) (e_state e) of None \<Rightarrow> Inl (Explicit ''Try send PrepareVote failed'')
        | Some block \<Rightarrow> (let (b, qc) = FindBlockAndQC (e_tree e) (blk_ParentHash block) (blk_Number block - 1) in
            if b \<noteq> None \<or> blk_Number block = 0
            then (let p = msg\<lparr>pv_ParentQC := qc\<rparr> in
              go_bind (tryAddHadSendVote (pv_BlockNumber p) p (e_state e)) (\<lambda>st. let e = e\<lparr>e_state := st\<rparr> in
              go_map (\<lambda>i. let e = on_state (AddPrepareVote i p) e;
                    e = (if e_loading e then e else emit (WalPrepareVote block p) e)
                in emit (Broadcast (MPrepareVote p)) e) (own_index c e)))
            else Inr e))"

definition trySendPreCommit :: "env \<Rightarrow> preCommit \<Rightarrow> engine \<Rightarrow> engine go" where
  "trySendPreCommit c msg e =
     (if IsDeadline (c_now c) (e_state e) \<or> AllowPreCommit msg (e_state e) \<noteq> None then Inr e
      else case ViewBlockByIndex (pc_BlockNumber msg) (e_state e) of None \<Rightarrow> Inl (Explicit ''Try send PreCommit failed'')
        | Some block \<Rightarrow> (let (b, qc) = FindBlockAndQC (e_tree e) (blk_ParentHash block) (blk_Number block - 1) in
            if b \<noteq> None \<or> blk_Number block = 0
            then (let p = msg\<lparr>pc_ParentQC := qc\<rparr> in
              go_bind (tryAddHadSendPreCommit (pc_BlockNumber p) p (e_state e)) (\<lambda>st. let e = e\<lparr>e_state := st\<rparr> in
              go_map (\<lambda>i. let e = on_state (AddPreCommit i p) e;
                    e = (if e_loading e then e else emit (WalPreCommit block p) e)
                in emit (Broadcast (MPreCommit p)) e) (own_index c e)))
            else Inr e))"

text \<open>\<open>signBlock\<close> and \<open>genPreCommit\<close>; their error results are only logged.\<close>

definition signBlock :: "env \<Rightarrow> hash \<Rightarrow> u64 \<Rightarrow> u32 \<Rightarrow> engine \<Rightarrow> (bool \<times> engine) go" where
  "signBlock c h number index e = go_bind (isCurrentValidator c e) (\<lambda>r. case r of Inl _ \<Rightarrow> Inr (False, e)
     | Inr node \<Rightarrow> go_bind (signMsgByBls_pv c \<lparr>pv_Epoch = v_epoch (e_state e), pv_ViewNumber = v_viewNumber (e_state e),
         pv_BlockHash = h, pv_BlockNumber = number, pv_BlockIndex = index, pv_ValidatorIndex = vn_Index node,
         pv_ParentQC = None, pv_Signature = zero_sig\<rparr>) (\<lambda>m. case m of None \<Rightarrow> Inr (False, e)
       | Some prepareVote \<Rightarrow> go_map (\<lambda>e. (True, e)) (trySendPrepareVote c prepareVote e)))"

definition genPreCommit :: "env \<Rightarrow> quorumCert \<Rightarrow> engine \<Rightarrow> engine go" where
  "genPreCommit c qc e =
     (if q_BlockNumber qc \<noteq> v_blockNumber (e_state e) then Inr e
      else go_bind (isCurrentValidator c e) (\<lambda>r. case r of Inl _ \<Rightarrow> Inr e
      | Inr node \<Rightarrow> go_bind (go_deref (ViewBlockByIndex (q_BlockNumber qc) (e_state e))) (\<lambda>block.
          let (b, qc2) = FindBlockAndQC (e_tree e) (blk_ParentHash block) (blk_Number block - 1) in
          if b \<noteq> None \<or> blk_Number block = 0
          then go_bind (signMsgByBls_pc c \<lparr>pc_Epoch = q_Epoch qc, pc_ViewNumber = q_ViewNumber qc, pc_BlockHash = q_BlockHash qc,
                pc_BlockNumber = q_BlockNumber qc, pc_BlockIndex = q_BlockIndex qc, pc_ValidatorIndex = vn_Index node,
                pc_ParentQC = qc2, pc_Signature = zero_sig\<rparr>) (\<lambda>m. case m of None \<Rightarrow> Inr e
            | Some preCommit \<Rightarrow> trySendPreCommit c preCommit e)
          else Inr e)))"

definition exePrepareBlock :: "prepareBlock \<Rightarrow> engine \<Rightarrow> engine" where
  "exePrepareBlock msg e =
     (case ViewBlockByIndex (blk_Number (pb_Block msg)) (e_state e) of None \<Rightarrow> e
      | Some block \<Rightarrow> (case fst (FindBlockAndQC (e_tree e) (blk_ParentHash block) (blk_Number block - 1)) of None \<Rightarrow> e
        | Some parent \<Rightarrow> on_state (SetExecuting (pb_BlockIndex msg) False) (emit (Execute block parent) e)))"

text \<open>What follows once a prepare certificate is known, from own votes or from a peer.\<close>

definition on_prepare_qc :: "env \<Rightarrow> quorumCert \<Rightarrow> engine \<Rightarrow> engine go" where
  "on_prepare_qc c qc e = genPreCommit c qc (on_state (\<lambda>vs. AddQC qc (SetPrepareVoteQC qc vs)) e)"

definition findPreVoteQC :: "env \<Rightarrow> u64 \<Rightarrow> engine \<Rightarrow> engine go" where
  "findPreVoteQC c blockNumber e = go_bind (currentValidatorLen e) (\<lambda>n.
     if PrepareVoteLenByNumber blockNumber (e_state e) \<ge> threshold n
     then go_bind (generatePrepareQC (c_bls c) (e_vp e) (v_epoch (e_state e)) (AllPrepareVoteByNumber blockNumber (e_state e)))
       (\<lambda>r. case r of None \<Rightarrow> Inr e
        | Some qc \<Rightarrow> go_bind (TrySetHighestQCBlock (ViewBlockByIndex blockNumber (e_state e)) e) (\<lambda>e.
            on_prepare_qc c qc (emit (Broadcast (MBlockQuorumCert \<lparr>bq_BlockQC = qc\<rparr>)) e)))
     else Inr e)"

definition findPreCommitQC :: "env \<Rightarrow> preCommit \<Rightarrow> engine \<Rightarrow> engine go" where
  "findPreCommitQC c msg e = go_bind (currentValidatorLen e) (\<lambda>n.
     if PreCommitLenByNumber (pc_BlockNumber msg) (e_state e) \<ge> threshold n
     then go_bind (generatePreCommitQC (c_bls c) (e_vp e) (v_epoch (e_state e)) (AllPreCommitByNumber (pc_BlockNumber msg) (e_state e)))
       (\<lambda>r. case r of None \<Rightarrow> Inr e
        | Some qc \<Rightarrow>
            (let block = ViewBlockByIndex (pc_BlockNumber msg) (e_state e);
                 e = on_state (\<lambda>vs. AddPreCommitQC qc (SetPreCommitQC qc vs)) e in
             go_bind (insertQCBlock c block qc e) (\<lambda>e.
             tryChangeView c (tryAddStateBlockNumber c qc (emit (Broadcast (MBlockPreCommitQuorumCert \<lparr>bp_BlockQC = qc\<rparr>)) e)))))
     else Inr e)"

text \<open>\<open>insertPreCommitQC\<close>: a validator needs to have voted, a candidate to have executed the block.\<close>

definition has_executed :: "env \<Rightarrow> quorumCert \<Rightarrow> block \<Rightarrow> engine \<Rightarrow> bool go" where
  "has_executed c qc block e =
     (let linked = (if fst (FindBlockAndQC (e_tree e) (blk_ParentHash block) (blk_Number block - 1)) = None then Inr False
        else go_map (\<lambda>hp. blk_Number hp \<le> q_BlockNumber qc) (HighestPreCommitQCBlock (e_state e)))
      in go_bind (IsValidator (e_vp e) (q_Epoch qc) (c_self c)) (\<lambda>v.
         if v then (if HadSendPreVoteByQC qc (e_state e) then linked else Inr False)
         else if IsCandidateNode (c_agency c) (c_self c)
         then (if q_BlockNumber qc \<le> v_maxExecutedBlockNumber (e_state e) then linked else Inr False)
         else Inr False))"

definition insertPreCommitQC :: "env \<Rightarrow> quorumCert \<Rightarrow> engine \<Rightarrow> engine go" where
  "insertPreCommitQC c qc e =
     (case ViewBlockByIndex (q_BlockNumber qc) (e_state e) of None \<Rightarrow> Inr e
      | Some block \<Rightarrow> go_bind (has_executed c qc block e) (\<lambda>ok.
          if ok
          then go_bind (insertQCBlock c (Some block) qc (on_state (\<lambda>vs. AddPreCommitQC qc (SetPreCommitQC qc vs)) e)) (\<lambda>e.
               tryChangeView c (tryAddStateBlockNumber c qc e))
          else Inr e))"

section \<open>Handlers\<close>

definition checked :: "env \<Rightarrow> consensusMsg \<Rightarrow> engine \<Rightarrow> ((handleErr + validateNode) \<times> engine) go" where
  "checked c msg e = go_map (\<lambda>(r, ev). (r, e\<lparr>e_ev := ev\<rparr>))
     (verifyConsensusMsg (c_bls c) (c_keccak c) (c_faults c) (e_state e) (e_tree e) (e_vp e) msg (e_ev e))"

text \<open>The part of \<open>OnPrepareBlock\<close> that deals with a broken rule: \<open>Some err\<close> ends the handler.\<close>

definition new_view_of :: "env \<Rightarrow> prepareBlock \<Rightarrow> engine \<Rightarrow> (handleErr option \<times> engine) go" where
  "new_view_of c msg e = go_bind (checkViewChangeQC (c_bls c) (c_keccak c) (e_vp e) msg) (\<lambda>err. case err of
      Some er \<Rightarrow> Inr (Some er, e)
    | None \<Rightarrow> (let (block, qc) = (case pb_ViewChangeQC msg of
           Some v \<Rightarrow> (let (_, _, _, _, h, number) = MaxBlock v in FindBlockAndQC (e_tree e) h number)
         | None \<Rightarrow> FindBlockAndQC (e_tree e) (blk_ParentHash (pb_Block msg)) (blk_Number (pb_Block msg) - 1))
        in go_map (\<lambda>e. (None, e)) (changeView c (pb_Epoch msg) (pb_ViewNumber msg) block qc (pb_ViewChangeQC msg) e)))"

definition on_rule_error :: "env \<Rightarrow> string \<Rightarrow> prepareBlock \<Rightarrow> safetyError \<Rightarrow> engine \<Rightarrow> (handleErr option \<times> engine) go" where
  "on_rule_error c peer msg err e =
     (if Common err then Inr (Some (RuleError err), e)
      else go_bind (verifyConsensusSign (c_bls c) (c_keccak c) (e_vp e) (CPrepareBlock msg)) (\<lambda>serr. case serr of
          Some er \<Rightarrow> Inr (Some er, e)
        | None \<Rightarrow> if Fetch err
            then go_bind (isProposer (e_state e) (e_vp e) (pb_Epoch msg) (blk_Number (pb_Block msg)) (pb_ProposalIndex msg)) (\<lambda>b.
                 go_map (\<lambda>e. (Some (RuleError err), e))
                   (if b then fetchBlock c peer (blk_ParentHash (pb_Block msg)) (blk_Number (pb_Block msg) - 1) None e else Inr e))
            else if NewView err then new_view_of c msg e
            else Inr (None, e)))"

definition OnPrepareBlock :: "env \<Rightarrow> string \<Rightarrow> prepareBlock \<Rightarrow> engine \<Rightarrow> (handleErr option \<times> engine) go" where
  "OnPrepareBlock c peer msg e =
     (if \<not> c_headerOK c (pb_Block msg) then Inr (Some (Failed ''verify header fail''), e)
      else go_bind (PrepareBlockRules (c_now c) (c_amount c) (e_state e) (e_tree e) (e_vp e) msg) (\<lambda>err.
        go_bind (case err of None \<Rightarrow> Inr (None, e) | Some er \<Rightarrow> on_rule_error c peer msg er e) (\<lambda>(stop, e).
        case stop of Some er \<Rightarrow> Inr (Some er, e)
        | None \<Rightarrow> go_map (\<lambda>(r, e). case r of Inl er \<Rightarrow> (Some er, e)
            | Inr _ \<Rightarrow> (None, exePrepareBlock msg (on_state (\<lambda>vs. UpdateStep RoundStepPrepareBlock (AddPrepareBlock msg vs)) e)))
            (checked c (CPrepareBlock msg) e))))"

text \<open>Votes and pre-commits: a broken rule is answered with a request to the peer.\<close>

definition vote_rule_error ::
    "env \<Rightarrow> string \<Rightarrow> consensusMsg \<Rightarrow> quorumCert option \<Rightarrow> (engine \<Rightarrow> engine) \<Rightarrow> safetyError \<Rightarrow> engine \<Rightarrow> (handleErr option \<times> engine) go" where
  "vote_rule_error c peer msg parentQC fetchRules err e =
     (if Common err then Inr (Some (RuleError err), e)
      else go_bind (verifyConsensusSign (c_bls c) (c_keccak c) (e_vp e) msg) (\<lambda>serr. case serr of
          Some _ \<Rightarrow> Inr (Some (RuleError err), e)
        | None \<Rightarrow> go_map (\<lambda>e. (Some (RuleError err), e))
            (if Fetch err then (case parentQC of None \<Rightarrow> Inr e
               | Some q \<Rightarrow> fetchBlock c peer (q_BlockHash q) (q_BlockNumber q) parentQC e)
             else if FetchPrepare err then Inr (fetchRules e) else Inr e)))"

definition OnPrepareVote :: "env \<Rightarrow> string \<Rightarrow> prepareVote \<Rightarrow> engine \<Rightarrow> (handleErr option \<times> engine) go" where
  "OnPrepareVote c peer msg e =
     go_bind (PrepareVoteRules (c_now c) (c_amount c) (e_state e) (e_tree e) msg) (\<lambda>err. case err of
       Some er \<Rightarrow> vote_rule_error c peer (CPrepareVote msg) (pv_ParentQC msg) (prepareVoteFetchRules c peer msg) er e
     | None \<Rightarrow> go_bind (checked c (CPrepareVote msg) e) (\<lambda>(r, e). case r of Inl er \<Rightarrow> Inr (Some er, e)
         | Inr node \<Rightarrow> go_map (\<lambda>e. (None, e)) (findPreVoteQC c (pv_BlockNumber msg)
             (on_state (\<lambda>vs. UpdateStep RoundStepPrepareVote (AddPrepareVote (vn_Index node) msg vs)) e))))"

definition OnPreCommit :: "env \<Rightarrow> string \<Rightarrow> preCommit \<Rightarrow> engine \<Rightarrow> (handleErr option \<times> engine) go" where
  "OnPreCommit c peer msg e =
     go_bind (PreCommitRules (c_now c) (c_amount c) (e_state e) (e_tree e) msg) (\<lambda>err. case err of
       Some er \<Rightarrow> vote_rule_error c peer (CPreCommit msg) (pc_ParentQC msg) (preCommitFetchRules c peer msg) er e
     | None \<Rightarrow> go_bind (checked c (CPreCommit msg) e) (\<lambda>(r, e). case r of Inl er \<Rightarrow> Inr (Some er, e)
         | Inr node \<Rightarrow> go_map (\<lambda>e. (None, e)) (findPreCommitQC c msg
             (on_state (\<lambda>vs. UpdateStep RoundStepPreCommit (AddPreCommit (vn_Index node) msg vs)) e))))"

definition OnViewChange :: "env \<Rightarrow> string \<Rightarrow> viewChange \<Rightarrow> engine \<Rightarrow> (handleErr option \<times> engine) go" where
  "OnViewChange c peer msg e =
     go_bind (ViewChangeRules (e_state e) (e_tree e) msg) (\<lambda>err. case err of
       Some er \<Rightarrow> go_map (\<lambda>e. (Some (RuleError er), e))
         (if Fetch er \<and> vc_PrepareQC msg \<noteq> None then fetchBlock c peer (vc_BlockHash msg) (vc_BlockNumber msg) (vc_PrepareQC msg) e
          else Inr e)
     | None \<Rightarrow> go_bind (checked c (CViewChange msg) e) (\<lambda>(r, e). case r of Inl er \<Rightarrow> Inr (Some er, e)
         | Inr node \<Rightarrow> go_map (\<lambda>e. (None, e)) (tryChangeView c (on_state (AddViewChange (vn_Index node) msg) e))))"

definition OnViewTimeout :: "env \<Rightarrow> engine \<Rightarrow> engine go" where
  "OnViewTimeout c e = go_bind (isCurrentValidator c e) (\<lambda>r. case r of Inl _ \<Rightarrow> Inr e
     | Inr node \<Rightarrow> if ViewChangeByIndex (vn_Index node) (e_state e) \<noteq> None then Inr e
       else go_bind (HighestPreCommitQCBlock (e_state e)) (\<lambda>hp.
         go_bind (signMsgByBls_vc c \<lparr>vc_Epoch = v_epoch (e_state e), vc_ViewNumber = v_viewNumber (e_state e),
             vc_BlockHash = blk_Hash hp, vc_BlockNumber = blk_Number hp, vc_ValidatorIndex = vn_Index node,
             vc_PrepareQC = snd (FindBlockAndQC (e_tree e) (blk_Hash hp) (blk_Number hp)), vc_Signature = zero_sig\<rparr>) (\<lambda>m.
         case m of None \<Rightarrow> Inr e
         | Some viewChange \<Rightarrow> (let e = (if e_loading e then e else emit (WalViewChange viewChange) e);
               e = on_state (AddViewChange (vn_Index node) viewChange) e
             in tryChangeView c (emit (Broadcast (MViewChange viewChange)) e)))))"

definition insert_one :: "env \<Rightarrow> block \<Rightarrow> quorumCert \<Rightarrow> engine \<Rightarrow> (handleErr option \<times> engine) go" where
  "insert_one c block qc e =
     (case QCBlockRules (e_state e) (e_tree e) block qc of
        Some err \<Rightarrow> if NewView err
          then go_bind (changeView c (q_Epoch qc) DefaultViewNumber (Some block) (Some qc) None e) (\<lambda>e.
               go_bind (insertQCBlock c (Some block) qc e) (\<lambda>e.
               go_map (\<lambda>e. (None, e)) (tryChangeView c (tryAddStateBlockNumber c qc e))))
          else Inr (Some (RuleError err), e)
      | None \<Rightarrow> go_bind (insertQCBlock c (Some block) qc e) (\<lambda>e.
          go_map (\<lambda>e. (None, e)) (tryChangeView c (tryAddStateBlockNumber c qc e))))"

definition OnInsertQCBlock :: "env \<Rightarrow> block list \<Rightarrow> quorumCert list \<Rightarrow> engine \<Rightarrow> (handleErr option \<times> engine) go" where
  "OnInsertQCBlock c blocks qcs e =
     (if length blocks \<noteq> length qcs then Inr (Some (Failed ''block qc is inconsistent''), e)
      else go_fold (\<lambda>(block, qc) (err, e). if err \<noteq> None then Inr (err, e) else insert_one c block qc e) (zip blocks qcs) (None, e))"

text \<open>The executor reports the outcome of a block; a failed execution is only logged.\<close>

definition onAsyncExecuteStatus :: "env \<Rightarrow> hash \<Rightarrow> u64 \<Rightarrow> bool \<Rightarrow> engine \<Rightarrow> engine go" where
  "onAsyncExecuteStatus c h number failed e =
     (if failed then Inr e
      else case ViewBlockByIndex number (e_state e) of None \<Rightarrow> Inr e
        | Some block \<Rightarrow> if blk_Hash block \<noteq> h then Inr e
            else (let e = on_state (\<lambda>vs. SetMaxExecutedBlockNumber (blk_Number block) (SetExecuting 0 True vs)) e in
              go_bind (isCurrentValidator c e) (\<lambda>r. case r of Inl _ \<Rightarrow> Inr e
              | Inr _ \<Rightarrow> go_bind (signBlock c (blk_Hash block) (blk_Number block) 0 e) (\<lambda>(ok, e).
                  if ok then findPreVoteQC c number e else Inr e))))"

text \<open>\<open>OnSeal\<close>: the node proposes the block the worker sealed.\<close>

definition OnSeal :: "env \<Rightarrow> block \<Rightarrow> engine \<Rightarrow> engine go" where
  "OnSeal c block e = go_bind (HighestPreCommitQCBlock (e_state e)) (\<lambda>hp.
     if blk_Hash hp \<noteq> blk_ParentHash block then Inr e
     else go_bind (isCurrentValidator c e) (\<lambda>r. case r of Inl _ \<Rightarrow> Inr e
     | Inr me \<Rightarrow> go_bind (currentValidatorLen e) (\<lambda>n. go_bind (CalCurrentProposer (e_state e) n) (\<lambda>proposer.
         if proposer \<noteq> ucast (vn_Index me) then Inr e
         else go_bind (signMsgByBls_pb c \<lparr>pb_Epoch = v_epoch (e_state e), pb_ViewNumber = v_viewNumber (e_state e),
             pb_Block = block, pb_BlockIndex = 0, pb_ProposalIndex = vn_Index me, pb_PrepareQC = None,
             pb_ViewChangeQC = v_lastViewChangeQC (e_state e), pb_Signature = zero_sig\<rparr>) (\<lambda>m. case m of None \<Rightarrow> Inr e
         | Some pb \<Rightarrow> go_map (\<lambda>(err, e). if err \<noteq> None then on_state (SetExecuting (pb_BlockIndex pb) False) e
             else (let e = (if e_loading e then e else emit (WalPrepareBlock pb) e)
                   in emit (SealResult block) (emit (Flush block) (emit (TxReset block) (emit (Broadcast (MPrepareBlock pb)) e)))))
             (OnPrepareBlock c [] pb e))))))"

end
