(* ===== verification/Sync.thy ===== *)
theory Sync
  imports Engine
begin

text \<open>
  Synchronisation with peers (\<open>consensus/pbft/sync_process.go\<close>) and the dispatch of messages
  (\<open>handleConsensusMsg\<close>, \<open>handleSyncMsg\<close> of \<open>pbft.go\<close>): the handlers of all requests and responses, the
  queries for missing votes, and the engine as a machine that consumes events.  A forked block without a
  certificate (only the root of the tree can be one) contributes none to the answer to \<open>GetQCBlockList\<close>.
\<close>

section \<open>Requests\<close>

definition OnGetPrepareBlock :: "string \<Rightarrow> getPrepareBlock \<Rightarrow> engine \<Rightarrow> engine" where
  "OnGetPrepareBlock peer msg e =
     (let st = e_state e
      in if gpb_Epoch msg = v_epoch st \<and> gpb_BlockNumber msg = v_blockNumber st \<and> gpb_ViewNumber msg = v_viewNumber st
         then (let e = (case PrepareBlockByIndex (gpb_BlockNumber msg) st of None \<Rightarrow> e
                 | Some pb \<Rightarrow> emit (Send peer (MPrepareBlock pb)) e)
               in case snd (ViewBlockAndQC (gpb_BlockNumber msg) st) of None \<Rightarrow> e
                  | Some qc \<Rightarrow> emit (Send peer (MBlockQuorumCert \<lparr>bq_BlockQC = qc\<rparr>)) e)
         else e)"

definition OnGetBlockQuorumCert :: "string \<Rightarrow> getBlockQuorumCert \<Rightarrow> engine \<Rightarrow> engine" where
  "OnGetBlockQuorumCert peer msg e = (case snd (ViewBlockAndQC (gbq_BlockNumber msg) (e_state e)) of None \<Rightarrow> e
     | Some qc \<Rightarrow> emit (Send peer (MBlockQuorumCert \<lparr>bq_BlockQC = qc\<rparr>)) e)"

definition OnGetBlockPreCommitQuorumCert :: "string \<Rightarrow> getBlockPreCommitQuorumCert \<Rightarrow> engine \<Rightarrow> engine" where
  "OnGetBlockPreCommitQuorumCert peer msg e = (case snd (ViewBlockAndPreCommitQC (gbp_BlockNumber msg) (e_state e)) of None \<Rightarrow> e
     | Some qc \<Rightarrow> emit (Send peer (MBlockPreCommitQuorumCert \<lparr>bp_BlockQC = qc\<rparr>)) e)"

text \<open>The loop of \<open>OnGetQCBlockList\<close> over the numbers after the requested one; it stops at a certificate of
  a later epoch.\<close>

fun collect_qcs :: "viewState \<Rightarrow> u64 \<Rightarrow> u64 list \<Rightarrow> (block \<times> quorumCert) list" where
  "collect_qcs vs epoch [] = []"
| "collect_qcs vs epoch (n # ns) =
     (case ViewBlockAndPreCommitQC n vs of
        (Some block, Some qc) \<Rightarrow> if q_Epoch qc > epoch then [] else (block, qc) # collect_qcs vs epoch ns
      | _ \<Rightarrow> collect_qcs vs epoch ns)"

definition numbers_between :: "u64 \<Rightarrow> u64 \<Rightarrow> u64 list" where
  "numbers_between a b = map word_of_nat [Suc (unat a)..<Suc (unat b)]"

definition forked_of :: "blockTree \<Rightarrow> block \<Rightarrow> hash \<Rightarrow> block list \<times> quorumCert list" where
  "forked_of t highestQC h =
     (if blk_ParentHash highestQC = h
      then (let (bs, qcs) = FindForkedBlocksAndQCs t (blk_Hash highestQC) (blk_Number highestQC)
            in if bs \<noteq> [] \<and> qcs \<noteq> [] then (bs, List.map_filter (\<lambda>q. q) qcs) else ([], []))
      else ([], []))"

definition OnGetQCBlockList :: "string \<Rightarrow> getQCBlockList \<Rightarrow> engine \<Rightarrow> (handleErr option \<times> engine) go" where
  "OnGetQCBlockList peer msg e = go_map (\<lambda>highestQC.
     if blk_Number highestQC \<le> gql_BlockNumber msg then (Some (Failed ''peer state too high''), e)
     else if blk_Number highestQC > gql_BlockNumber msg + 2 then (Some (Failed ''peer state too low''), e)
     else (let found = collect_qcs (e_state e) (gql_Epoch msg) (numbers_between (gql_BlockNumber msg) (blk_Number highestQC));
               (forkedBlocks, forkedQCs) = forked_of (e_tree e) highestQC (gql_BlockHash msg)
           in (None, if found = [] then e else emit (Send peer (MQCBlockList \<lparr>qbl_QC = map snd found, qbl_Blocks = map fst found,
                qbl_ForkedQC = forkedQCs, qbl_ForkedBlocks = forkedBlocks\<rparr>)) e)))
     (HighestPreCommitQCBlock (e_state e))"

text \<open>The votes a peer misses, in map order and cut off at \<open>remain\<close> where that is positive.\<close>

fun select_votes :: "(u32 \<Rightarrow> bool go) \<Rightarrow> int \<Rightarrow> (u32 \<times> 'v) list \<Rightarrow> 'v list \<Rightarrow> 'v list go" where
  "select_votes unknown remain [] votes = Inr votes"
| "select_votes unknown remain ((i, v) # vs) votes = go_bind (unknown i) (\<lambda>b.
     let votes = (if b then votes @ [v] else votes)
     in if remain > 0 \<and> int (length votes) \<ge> remain then Inr votes else select_votes unknown remain vs votes)"

definition remaining :: "nat \<Rightarrow> bitArray option \<Rightarrow> int" where
  "remaining n unKnownSet = int (threshold n) - (int n - int (unat (Size unKnownSet)))"

definition missing_votes :: "bitArray option \<Rightarrow> (u32 \<times> 'v) list \<Rightarrow> engine \<Rightarrow> 'v list go" where
  "missing_votes unKnownSet votes e =
     (if votes = [] then Inr []
      else go_bind (currentValidatorLen e) (\<lambda>n. select_votes (GetIndex unKnownSet) (remaining n unKnownSet) votes []))"

definition OnGetPrepareVote :: "string \<Rightarrow> getPrepareVote \<Rightarrow> engine \<Rightarrow> engine go" where
  "OnGetPrepareVote peer msg e =
     (let st = e_state e
      in if gpv_Epoch msg = v_epoch st \<and> gpv_BlockNumber msg = v_blockNumber st \<and> gpv_ViewNumber msg = v_viewNumber st
         then (case snd (ViewBlockAndQC (gpv_BlockNumber msg) st) of
             Some qc \<Rightarrow> Inr (emit (Send peer (MBlockQuorumCert \<lparr>bq_BlockQC = qc\<rparr>)) e)
           | None \<Rightarrow> go_map (\<lambda>votes. if votes = [] then e else emit (Send peer (MPrepareVotes \<lparr>pvs_Epoch = gpv_Epoch msg, pvs_ViewNumber = gpv_ViewNumber msg,
                 pvs_BlockIndex = gpv_BlockIndex msg, pvs_Votes = votes\<rparr>)) e)
               (missing_votes (gpv_UnKnownSet msg) (AllPrepareVoteByNumber (gpv_BlockNumber msg) st) e))
         else Inr e)"

definition OnGetPreCommit :: "string \<Rightarrow> getPreCommit \<Rightarrow> engine \<Rightarrow> engine go" where
  "OnGetPreCommit peer msg e =
     (let st = e_state e
      in if gpc_Epoch msg = v_epoch st \<and> gpc_BlockNumber msg = v_blockNumber st \<and> gpc_ViewNumber msg = v_viewNumber st
         then (case snd (ViewBlockAndPreCommitQC (gpc_BlockNumber msg) st) of
             Some qc \<Rightarrow> Inr (emit (Send peer (MBlockPreCommitQuorumCert \<lparr>bp_BlockQC = qc\<rparr>)) e)
           | None \<Rightarrow> go_map (\<lambda>votes. if votes = [] then e else emit (Send peer (MPreCommits \<lparr>pcs_Epoch = gpc_Epoch msg, pcs_ViewNumber = gpc_ViewNumber msg,
                 pcs_BlockIndex = gpc_BlockIndex msg, pcs_Votes = votes\<rparr>)) e)
               (missing_votes (gpc_UnKnownSet msg) (AllPreCommitByNumber (gpc_BlockNumber msg) st) e))
         else Inr e)"

definition OnPrepareBlockHash :: "env \<Rightarrow> string \<Rightarrow> prepareBlockHash \<Rightarrow> engine \<Rightarrow> engine" where
  "OnPrepareBlockHash c peer msg e =
     (let st = e_state e
      in if pbh_Epoch msg = v_epoch st \<and> pbh_BlockNumber msg = v_blockNumber st \<and> pbh_ViewNumber msg = v_viewNumber st
           \<and> ViewBlockByIndex (pbh_BlockNumber msg) st = None
         then SyncPrepareBlock c peer (pbh_Epoch msg) (pbh_BlockNumber msg) (pbh_BlockIndex msg) (pbh_ViewNumber msg)
           (emit (RemoveMessageHash peer (MPrepareBlockHash msg)) e)
         else e)"

section \<open>Certificates from peers\<close>

text \<open>The common first part of \<open>OnBlockQuorumCert\<close> and \<open>OnBlockPreCommitQuorumCert\<close>: the certificate is of the
  current view, not known yet, and its block is known.\<close>

definition qc_of_view :: "quorumCert \<Rightarrow> viewState \<Rightarrow> bool" where
  "qc_of_view qc st \<longleftrightarrow> q_Epoch qc = v_epoch st \<and> (q_BlockNumber qc = v_blockNumber st \<or> v_blockNumber st = 0)
     \<and> q_ViewNumber qc = v_viewNumber st"

definition qc_block :: "bool \<Rightarrow> string \<Rightarrow> quorumCert \<Rightarrow> engine \<Rightarrow> handleErr + block" where
  "qc_block had exists qc e =
     (if \<not> qc_of_view qc (e_state e) then Inl (Failed ''msg is not match current state'')
      else if snd (FindBlockAndQC (e_tree e) (q_BlockHash qc) (q_BlockNumber qc)) \<noteq> None then Inl (Failed ''block already exists'')
      else if had then Inl (Failed exists)
      else case ViewBlockByIndex (q_BlockNumber qc) (e_state e) of None \<Rightarrow> Inl (Failed ''block not exist'') | Some b \<Rightarrow> Inr b)"

definition OnBlockQuorumCert :: "env \<Rightarrow> blockQuorumCert \<Rightarrow> engine \<Rightarrow> (handleErr option \<times> engine) go" where
  "OnBlockQuorumCert c msg e =
     (let qc = bq_BlockQC msg
      in case qc_block (HadPrepareVoteQC (q_BlockHash qc) (q_BlockNumber qc) (q_ViewNumber qc) (e_state e)) ''BlockQC already exists'' qc e of
           Inl err \<Rightarrow> Inr (Some err, e)
         | Inr block \<Rightarrow> go_bind (verifyPrepareQC (c_bls c) (c_keccak c) (e_vp e) (blk_Number block) (blk_Hash block) (Some qc)) (\<lambda>err.
             if err \<noteq> None then Inr (Some (AuthFailed ''Failed to verify prepareQC''), e)
             else go_bind (TrySetHighestQCBlock (Some block) e) (\<lambda>e. go_map (\<lambda>e. (None, e)) (on_prepare_qc c qc e))))"

definition OnBlockPreCommitQuorumCert :: "env \<Rightarrow> blockPreCommitQuorumCert \<Rightarrow> engine \<Rightarrow> (handleErr option \<times> engine) go" where
  "OnBlockPreCommitQuorumCert c msg e =
     (let qc = bp_BlockQC msg
      in case qc_block (HadPreCommitQC (q_BlockHash qc) (q_BlockNumber qc) (q_ViewNumber qc) (e_state e)) ''BlockPreCommitQC already exists'' qc e of
           Inl err \<Rightarrow> Inr (Some err, e)
         | Inr block \<Rightarrow> go_bind (verifyPrepareQC (c_bls c) (c_keccak c) (e_vp e) (blk_Number block) (blk_Hash block) (Some qc)) (\<lambda>err.
             if err \<noteq> None then Inr (Some (AuthFailed ''Failed to verify preCommitQC''), e)
             else go_map (\<lambda>e. (None, e)) (insertPreCommitQC c qc e)))"

section \<open>Batches of votes\<close>

text \<open>A batch stops at the first vote whose handler fails.\<close>

definition batch :: "('v \<Rightarrow> engine \<Rightarrow> bool) \<Rightarrow> ('v \<Rightarrow> engine \<Rightarrow> (handleErr option \<times> engine) go) \<Rightarrow> 'v list \<Rightarrow> engine \<Rightarrow> (handleErr option \<times> engine) go" where
  "batch needed handler vs e =
     go_fold (\<lambda>v (err, e). if err \<noteq> None \<or> \<not> needed v e then Inr (err, e) else handler v e) vs (None, e)"

definition OnPrepareVotes :: "env \<Rightarrow> string \<Rightarrow> prepareVotes \<Rightarrow> engine \<Rightarrow> (handleErr option \<times> engine) go" where
  "OnPrepareVotes c peer msg = batch (\<lambda>vote e. snd (ViewBlockAndQC (pv_BlockNumber vote) (e_state e)) = None \<and> \<not> c_seen c (MPrepareVote vote))
     (OnPrepareVote c peer) (pvs_Votes msg)"

definition OnPreCommits :: "env \<Rightarrow> string \<Rightarrow> preCommits \<Rightarrow> engine \<Rightarrow> (handleErr option \<times> engine) go" where
  "OnPreCommits c peer msg = batch (\<lambda>vote e. snd (ViewBlockAndPreCommitQC (pc_BlockNumber vote) (e_state e)) = None \<and> \<not> c_seen c (MPreCommit vote))
     (OnPreCommit c peer) (pcs_Votes msg)"

definition OnViewChanges :: "env \<Rightarrow> string \<Rightarrow> viewChange list \<Rightarrow> engine \<Rightarrow> (handleErr option \<times> engine) go" where
  "OnViewChanges c peer msg = batch (\<lambda>v e. \<not> c_seen c (MViewChange v)) (OnViewChange c peer) msg"

section \<open>Status\<close>

abbreviation TypeForPreCommitQCBn :: u64 where "TypeForPreCommitQCBn \<equiv> 4"

definition lacks_qc :: "latestStatusData \<Rightarrow> bool" where
  "lacks_qc msg \<longleftrightarrow> ls_BlockNumber msg \<noteq> 0 \<and> ls_QuorumCert msg = None \<or> ls_LBlockNumber msg \<noteq> 0 \<and> ls_LQuorumCert msg = None"

definition status_of :: "blockTree \<Rightarrow> hash \<times> u64 \<Rightarrow> block \<Rightarrow> u64 \<Rightarrow> latestStatusData" where
  "status_of t hn lock logicType = (case hn of (h, number) \<Rightarrow>
     \<lparr>ls_BlockNumber = number, ls_BlockHash = h, ls_QuorumCert = snd (FindBlockAndQC t h number),
      ls_LBlockNumber = blk_Number lock, ls_LBlockHash = blk_Hash lock,
      ls_LQuorumCert = snd (FindBlockAndQC t (blk_Hash lock) (blk_Number lock)), ls_LogicType = logicType\<rparr>)"

text \<open>\<open>PeerSetting\<close> followed by \<open>fetchBlock\<close>; it fails for an unknown peer.\<close>

definition peer_fetch :: "env \<Rightarrow> string \<Rightarrow> latestStatusData \<Rightarrow> engine \<Rightarrow> (handleErr option \<times> engine) go" where
  "peer_fetch c peer msg e =
     (if c_peerErr c peer then Inr (Some (Failed ''PeerSetting failed''), e)
      else go_map (\<lambda>e. (None, e)) (fetchBlock c peer (ls_BlockHash msg) (ls_BlockNumber msg) (ls_QuorumCert msg)
        (emit (PeerSetting peer (ls_LogicType msg) (ls_BlockNumber msg)) e)))"

definition peer_ahead :: "block \<Rightarrow> latestStatusData \<Rightarrow> bool" where
  "peer_ahead hq msg \<longleftrightarrow> blk_Number hq < ls_BlockNumber msg \<or> blk_Number hq = ls_BlockNumber msg \<and> blk_Hash hq \<noteq> ls_BlockHash msg"

definition OnGetLatestStatus :: "env \<Rightarrow> string \<Rightarrow> latestStatusData \<Rightarrow> engine \<Rightarrow> (handleErr option \<times> engine) go" where
  "OnGetLatestStatus c peer msg e =
     (if lacks_qc msg \<or> ls_LogicType msg \<noteq> TypeForPreCommitQCBn then Inr (None, e)
      else go_bind (HighestPreCommitQCBlock (e_state e)) (\<lambda>hq. go_bind (HighestLockBlock (e_state e)) (\<lambda>hl.
        let reply = (\<lambda>hn. emit (Send peer (MLatestStatus (status_of (e_tree e) hn hl (ls_LogicType msg)))) e)
        in if blk_Number hq = ls_BlockNumber msg \<and> blk_Hash hq = ls_BlockHash msg
           then (case IsForked (e_tree e) (blk_Hash hq) (blk_Number hq) of
               (h, n, True) \<Rightarrow> Inr (None, reply (h, n)) | (_, _, False) \<Rightarrow> Inr (None, e))
           else if peer_ahead hq msg then peer_fetch c peer msg e
           else Inr (None, reply (blk_Hash hq, blk_Number hq)))))"

definition OnLatestStatus :: "env \<Rightarrow> string \<Rightarrow> latestStatusData \<Rightarrow> engine \<Rightarrow> (handleErr option \<times> engine) go" where
  "OnLatestStatus c peer msg e =
     (if lacks_qc msg \<or> ls_LogicType msg \<noteq> TypeForPreCommitQCBn then Inr (None, e)
      else go_bind (HighestPreCommitQCBlock (e_state e)) (\<lambda>hq. if peer_ahead hq msg then peer_fetch c peer msg e else Inr (None, e)))"

definition LatestStatus :: "engine \<Rightarrow> latestStatusData go" where
  "LatestStatus e = go_bind (HighestPreCommitQCBlock (e_state e)) (\<lambda>hq. go_map (\<lambda>hl.
     status_of (e_tree e) (blk_Hash hq, blk_Number hq) hl 0) (HighestLockBlock (e_state e)))"

section \<open>View changes from peers\<close>

definition isLocalView :: "getViewChange \<Rightarrow> viewState \<Rightarrow> bool" where
  "isLocalView msg st \<longleftrightarrow> gvc_Epoch msg = v_epoch st \<and> gvc_ViewNumber msg = v_viewNumber st \<and> gvc_BlockNumber msg = v_blockNumber st"

definition isLastView :: "getViewChange \<Rightarrow> viewState \<Rightarrow> bool" where
  "isLastView msg st \<longleftrightarrow>
     gvc_Epoch msg = v_epoch st \<and> gvc_ViewNumber msg + 1 = v_viewNumber st \<and> gvc_BlockNumber msg = v_blockNumber st
     \<or> gvc_Epoch msg = v_epoch st \<and> v_viewNumber st = DefaultViewNumber \<and> gvc_BlockNumber msg + 1 = v_blockNumber st"

definition isPreviousView :: "getViewChange \<Rightarrow> viewState \<Rightarrow> bool" where
  "isPreviousView msg st \<longleftrightarrow>
     gvc_Epoch msg = v_epoch st \<and> gvc_ViewNumber msg + 1 < v_viewNumber st \<and> gvc_BlockNumber msg = v_blockNumber st
     \<or> gvc_Epoch msg = v_epoch st \<and> gvc_BlockNumber msg + 1 < v_blockNumber st"

definition OnGetViewChange :: "env \<Rightarrow> string \<Rightarrow> getViewChange \<Rightarrow> engine \<Rightarrow> (handleErr option \<times> engine) go" where
  "OnGetViewChange c peer msg e =
     (let st = e_state e;
          mismatch = Some (Failed ''request is not match local view'');
          reply = (\<lambda>qc high. emit (Send peer (MViewChangeQuorumCert \<lparr>vqm_ViewChangeQC = qc, vqm_HighestViewChangeQC = high\<rparr>)) e)
      in if isLocalView msg st
         then go_map (\<lambda>vcs. (None, if vcs = [] then e else emit (Send peer (MViewChanges vcs)) e))
           (select_votes (GetIndex (gvc_ViewChangeBits msg)) 0 (v_viewChanges st) [])
         else if isLastView msg st
         then (case v_lastViewChangeQC st of None \<Rightarrow> Inr (None, e)
           | Some qc \<Rightarrow> if EqualAll qc (gvc_Epoch msg) (gvc_ViewNumber msg) (gvc_BlockNumber msg - 1) \<noteq> None
               then Inr (Some (Failed ''not equal''), e) else Inr (None, reply qc None))
         else if isPreviousView msg st
         then (case c_walViewChangeQC c (gvc_Epoch msg) (gvc_BlockNumber msg - 1) (gvc_ViewNumber msg) of
             Some qc \<Rightarrow> Inr (None, reply qc (c_walViewChangeQC c (v_epoch st) (v_blockNumber st - 1) (v_viewNumber st - 1)))
           | None \<Rightarrow> Inr (mismatch, e))
         else Inr (mismatch, e))"

definition trySyncViewChangeQuorumCert :: "env \<Rightarrow> string \<Rightarrow> viewChangeQuorumCertMsg \<Rightarrow> engine \<Rightarrow> engine go" where
  "trySyncViewChangeQuorumCert c peer msg e = (case vqm_HighestViewChangeQC msg of None \<Rightarrow> Inr e
     | Some high \<Rightarrow> (let (epoch, viewNumber, _, _, _, blockNumber) = MaxBlock high; st = e_state e in
        if v_epoch st \<noteq> epoch then Inr e
        else if v_viewNumber st = viewNumber \<and> v_blockNumber st = blockNumber + 1
        then go_bind (verifyViewChangeQC (c_bls c) (c_keccak c) (e_vp e) high) (\<lambda>err.
             if err = None then tryChangeViewByViewChange c high e else Inr e)
        else if v_viewNumber st < viewNumber \<and> v_blockNumber st = blockNumber + 1
        then go_bind (verifyViewChangeQC (c_bls c) (c_keccak c) (e_vp e) high) (\<lambda>err.
             if err = None then go_map (\<lambda>n. emit (Send peer (MGetViewChange \<lparr>gvc_Epoch = v_epoch st, gvc_BlockNumber = v_blockNumber st,
                 gvc_ViewNumber = v_viewNumber st, gvc_ViewChangeBits = NewBitArray (word_of_nat n)\<rparr>)) e) (currentValidatorLen e)
             else Inr e)
        else Inr e))"

definition OnViewChangeQuorumCert :: "env \<Rightarrow> string \<Rightarrow> viewChangeQuorumCertMsg \<Rightarrow> engine \<Rightarrow> (handleErr option \<times> engine) go" where
  "OnViewChangeQuorumCert c peer msg e =
     (let (epoch, viewNumber, _, _, _, blockNumber) = MaxBlock (vqm_ViewChangeQC msg); st = e_state e in
      if v_epoch st = epoch \<and> v_viewNumber st = viewNumber \<and> v_blockNumber st = blockNumber + 1
      then go_bind (verifyViewChangeQC (c_bls c) (c_keccak c) (e_vp e) (vqm_ViewChangeQC msg)) (\<lambda>err.
           if err = None
           then go_bind (tryChangeViewByViewChange c (vqm_ViewChangeQC msg) e) (\<lambda>e.
                go_map (\<lambda>e. (None, e)) (trySyncViewChangeQuorumCert c peer msg e))
           else Inr (Some (AuthFailed ''Verify ViewChangeQC failed''), e))
      else go_map (\<lambda>e. (None, e)) (trySyncViewChangeQuorumCert c peer msg e))"

section \<open>Missing votes\<close>

definition syncVotesInterval :: int where "syncVotesInterval = 3 * 1000000000"

fun ViewNum :: "consensusMsg \<Rightarrow> u64" where
  "ViewNum (CPrepareBlock m) = pb_ViewNumber m"
| "ViewNum (CPrepareVote m) = pv_ViewNumber m"
| "ViewNum (CPreCommit m) = pc_ViewNumber m"
| "ViewNum (CViewChange m) = vc_ViewNumber m"

definition MissingViewChangeNodes :: "env \<Rightarrow> engine \<Rightarrow> getViewChange option go" where
  "MissingViewChangeNodes c e = go_bind (currentValidatorLen e) (\<lambda>n.
     let all = v_viewChanges (e_state e); vbits = NewBitArray (word_of_nat n) in
     if length all \<ge> threshold n \<or> \<not> IsDeadline (c_now c) (e_state e) then Inr None
     else go_map (\<lambda>vbits. Some \<lparr>gvc_Epoch = v_epoch (e_state e), gvc_BlockNumber = v_blockNumber (e_state e),
           gvc_ViewNumber = v_viewNumber (e_state e), gvc_ViewChangeBits = vbits\<rparr>)
         (go_fold (\<lambda>i vbits. if gget all i = None then go_map fst (SetIndex vbits i True) else Inr vbits)
           (range_u32 (Size vbits)) vbits))"

text \<open>The loop of \<open>MissingPrepareVote\<close> and \<open>MissingPreCommit\<close>: a cached vote of this view is queued again, any other
  unknown vote is asked for.\<close>

definition missing_step ::
    "(u32 \<Rightarrow> csMsgPool \<Rightarrow> msgInfo option \<times> csMsgPool) \<Rightarrow> (u32, 'v) gomap \<Rightarrow> u32 \<Rightarrow> bitArray option \<times> engine \<Rightarrow> (bitArray option \<times> engine) go" where
  "missing_step cached known i = (\<lambda>(unKnownSet, e).
     let (m, cs) = cached i (e_cs e); e = e\<lparr>e_cs := cs\<rparr>;
         ask = (if gget known i = None then go_map (\<lambda>(u, _). (u, e)) (SetIndex unKnownSet i True) else Inr (unKnownSet, e))
     in case m of None \<Rightarrow> ask
        | Some vote \<Rightarrow> (case as_ConsensusMsg (mi_Msg vote) of None \<Rightarrow> Inl (Explicit ''interface conversion'')
            | Some cMsg \<Rightarrow> if ViewNum cMsg = v_viewNumber (e_state e) then Inr (unKnownSet, emit (Requeue vote) e) else ask))"

definition missing_set ::
    "env \<Rightarrow> block \<Rightarrow> nat \<Rightarrow> (u32 \<Rightarrow> csMsgPool \<Rightarrow> msgInfo option \<times> csMsgPool) \<Rightarrow> (u32, 'v) gomap \<Rightarrow> engine \<Rightarrow> (bitArray option option \<times> engine) go" where
  "missing_set c base len cached known e = go_bind (currentValidatorLen e) (\<lambda>n.
     if len < threshold n \<and> c_now c - uint (blk_Time base) * 1000000 \<ge> syncVotesInterval
     then (let unKnownSet = NewBitArray (word_of_nat n)
           in go_map (\<lambda>(u, e). (Some u, e)) (go_fold (missing_step cached known) (range_u32 (Size unKnownSet)) (unKnownSet, e)))
     else Inr (None, e))"

definition MissingPrepareVote :: "env \<Rightarrow> engine \<Rightarrow> (getPrepareVote option \<times> engine) go" where
  "MissingPrepareVote c e = go_bind (HighestQCBlock (e_state e)) (\<lambda>base.
     let st = e_state e; index = v_blockNumber st in
     go_map (\<lambda>(u, e). (map_option (\<lambda>u. \<lparr>gpv_Epoch = v_epoch st, gpv_ViewNumber = v_viewNumber st, gpv_BlockNumber = index,
         gpv_BlockIndex = 0, gpv_UnKnownSet = u\<rparr>) u, e))
       (missing_set c base (PrepareVoteLenByNumber index st) (GetPrepareVote_cs (v_epoch st) index 0)
         (AllPrepareVoteByNumber index st) e))"

definition MissingPreCommit :: "env \<Rightarrow> engine \<Rightarrow> (getPreCommit option \<times> engine) go" where
  "MissingPreCommit c e = go_bind (HighestPreCommitQCBlock (e_state e)) (\<lambda>base.
     let st = e_state e; index = v_blockNumber st in
     go_map (\<lambda>(u, e). (map_option (\<lambda>u. \<lparr>gpc_Epoch = v_epoch st, gpc_ViewNumber = v_viewNumber st, gpc_BlockNumber = index,
         gpc_BlockIndex = 0, gpc_UnKnownSet = u\<rparr>) u, e))
       (missing_set c base (PreCommitLenByNumber index st) (GetPreCommit_cs (v_epoch st) index 0)
         (AllPreCommitByNumber index st) e))"

section \<open>Fetched blocks\<close>

text \<open>The executor of a fetch task, run as one step: the blocks are executed on top of each other, their insertion is
  handed to the consensus goroutine, then forked blocks are executed.  \<open>AsyncInsert\<close> is that function on
  \<open>asyncCallCh\<close>, \<open>insert_async\<close> its body.\<close>

fun exec_chain :: "env \<Rightarrow> block list \<Rightarrow> block \<Rightarrow> engine \<Rightarrow> block option \<times> engine" where
  "exec_chain c [] parent e = (Some parent, e)"
| "exec_chain c (b # bs) parent e =
     (if blk_ParentHash b \<noteq> blk_Hash parent then (None, e)
      else (let e = emit (ExecuteNow b parent) e in if c_exec c b parent then exec_chain c bs b e else (None, e)))"

definition filter_forked :: "block list \<Rightarrow> quorumCert list \<Rightarrow> block list \<Rightarrow> block list go" where
  "filter_forked local forkedQC forked = go_fold (\<lambda>(i, fb) bs.
     if \<exists>l\<in>set local. blk_Number fb = blk_Number l \<and> blk_Hash fb \<noteq> blk_Hash l
     then go_map (\<lambda>_. bs @ [fb]) (go_index forkedQC i) else Inr bs) (enumerate 0 forked) []"

fun exec_forked :: "env \<Rightarrow> block list \<Rightarrow> engine \<Rightarrow> engine" where
  "exec_forked c [] e = e"
| "exec_forked c (b # bs) e = (case FindBlockByHash (e_tree e) (blk_ParentHash b) of None \<Rightarrow> e
     | Some parent \<Rightarrow> (let e = emit (ExecuteNow b parent) e in if c_exec c b parent then exec_forked c bs e else e))"

definition fetch_executor :: "env \<Rightarrow> block \<Rightarrow> qcBlockList \<Rightarrow> engine \<Rightarrow> engine go" where
  "fetch_executor c parent msg e = (case exec_chain c (qbl_Blocks msg) parent e of (None, e) \<Rightarrow> Inr e
     | (Some parent, e) \<Rightarrow> (let e = emit (AsyncInsert (qbl_Blocks msg) (qbl_QC msg)) e in
         if qbl_ForkedBlocks msg = [] then Inr e
         else go_map (\<lambda>bs. exec_forked c bs e)
           (filter_forked (fst (FindBlocksAndQCs (e_tree e) (blk_Number parent))) (qbl_ForkedQC msg) (qbl_ForkedBlocks msg))))"

fun verify_all :: "env \<Rightarrow> validatorPool \<Rightarrow> block list \<Rightarrow> quorumCert list \<Rightarrow> bool go" where
  "verify_all c vp [] qcs = Inr True"
| "verify_all c vp (b # bs) [] = Inl IndexOutOfRange"
| "verify_all c vp (b # bs) (qc # qcs) = go_bind (verifyPrepareQC (c_bls c) (c_keccak c) vp (blk_Number b) (blk_Hash b) (Some qc))
     (\<lambda>err. if err \<noteq> None then Inr False else verify_all c vp bs qcs)"

definition insert_async :: "env \<Rightarrow> block list \<Rightarrow> quorumCert list \<Rightarrow> engine \<Rightarrow> engine go" where
  "insert_async c blocks qcs e = go_bind (verify_all c (e_vp e) blocks qcs) (\<lambda>ok.
     if ok then go_map snd (OnInsertQCBlock c blocks qcs e) else Inr e)"

section \<open>Blocks from the chain\<close>

text \<open>\<open>InsertChain\<close> without the wait for its result: \<open>insert_chain_async\<close> is the function it hands to the consensus
  goroutine, here run at once.\<close>

definition insert_chain_async :: "env \<Rightarrow> block \<Rightarrow> quorumCert \<Rightarrow> engine \<Rightarrow> (handleErr option \<times> engine) go" where
  "insert_chain_async c block qc e = go_bind (HasBlock (blk_Hash block) (blk_Number block) e) (\<lambda>known.
     if known then Inr (None, e)
     else go_bind (verifyPrepareQC (c_bls c) (c_keccak c) (e_vp e) (blk_Number block) (blk_Hash block) (Some qc)) (\<lambda>err.
       if err \<noteq> None then Inr (err, e) else OnInsertQCBlock c [block] [qc] e))"

definition InsertChain :: "env \<Rightarrow> block \<Rightarrow> engine \<Rightarrow> (handleErr option \<times> engine) go" where
  "InsertChain c block e = go_bind (HighestCommitBlock (e_state e)) (\<lambda>hc.
     go_bind (if blk_Number block \<le> blk_Number hc then Inr True else HasBlock (blk_Hash block) (blk_Number block) e) (\<lambda>known.
     if known then Inr (None, e)
     else case c_extra c block of None \<Rightarrow> Inr (Some (Failed ''failed to decode block extra data''), e)
     | Some qc \<Rightarrow> (case fst (FindBlockAndQC (e_tree e) (blk_ParentHash block) (blk_Number block - 1)) of
           None \<Rightarrow> Inr (Some (Failed ''orphan block''), e)
         | Some parent \<Rightarrow> (let e = emit (ExecuteNow block parent) e in
             if \<not> c_exec c block parent then Inr (Some (Failed ''failed to executed block''), e)
             else insert_chain_async c block qc e))))"

definition set_all_highest :: "block \<Rightarrow> viewState \<Rightarrow> viewState" where
  "set_all_highest block vs =
     SetHighestCommitBlock block (SetHighestLockBlock block (SetHighestPreCommitQCBlock block (SetHighestQCBlock block vs)))"

definition FastSyncCommitHead :: "env \<Rightarrow> block \<Rightarrow> engine \<Rightarrow> (handleErr option \<times> engine) go" where
  "FastSyncCommitHead c block e = (case c_extra c block of None \<Rightarrow> Inr (Some (Failed ''failed to decode block extra data''), e)
     | Some qc \<Rightarrow> go_bind (Reset_vp (c_agency c) (blk_Number block) (q_Epoch qc) (e_vp e)) (\<lambda>vp.
         go_bind (Block_Tree.Reset block (Some qc) (e_tree e)) (\<lambda>t.
         go_map (\<lambda>e. (None, on_state (set_all_highest block) e))
           (changeView c (q_Epoch qc) (q_ViewNumber qc) (Some block) (Some qc) None (e\<lparr>e_vp := vp, e_tree := t\<rparr>)))))"

end
