(* ===== verification/Dispatch.thy ===== *)
theory Dispatch
  imports Sync
begin

text \<open>
  The engine as a machine (\<open>consensus/pbft/pbft.go\<close>): the start of the engine, the dispatch of messages, the cases
  of \<open>receiveLoop\<close> as events, and the bounded channels in front of it with their message counters.  Reading the
  write-ahead log at the start is left out; an engine without a log (\<open>WalMode\<close> off) starts as modelled.
\<close>

section \<open>Start\<close>

definition init_view :: "env \<Rightarrow> block \<Rightarrow> quorumCert \<Rightarrow> viewState \<Rightarrow> viewState" where
  "init_view c block qc vs = AddPreCommitQC qc (AddQC qc (AddQCBlock block qc
     (SetMaxExecutedBlockNumber (q_BlockNumber qc) (SetExecuting (q_BlockIndex qc) True (AddBlockNumber (unix c) qc vs)))))"

definition syncCacheTimeout :: int where "syncCacheTimeout = 200 * 1000000"

definition Start :: "env \<Rightarrow> u64 \<Rightarrow> evidencePool \<Rightarrow> block \<Rightarrow> (handleErr + engine) go" where
  "Start c period ev block =
     (case (if blk_Number block = 0 then Some None else map_option Some (c_extra c block)) of
        None \<Rightarrow> Inr (Inl (Failed ''start pbft failed''))
      | Some qc \<Rightarrow> go_bind (NewBlockTree block qc) (\<lambda>t.
          let (epoch, viewNumber) = (case qc of None \<Rightarrow> (DefaultEpoch, DefaultViewNumber) | Some q \<Rightarrow> (q_Epoch q, q_ViewNumber q)) in
          go_bind (NewValidatorPool (c_agency c) (blk_Number block) epoch (c_self c)) (\<lambda>vp.
          go_bind (changeView c epoch viewNumber (Some block) qc None
            \<lparr>e_state = set_all_highest block (NewViewState (unix c) period), e_tree = t, e_vp = vp, e_cs = NewCSMsgPool,
             e_sync = NewSyncCache syncCacheTimeout, e_ev = ev, e_tasks = [], e_loading = True, e_syncing = False,
             e_fetching = False, e_out = []\<rparr>) (\<lambda>e.
          go_map (\<lambda>e. Inr (e\<lparr>e_loading := False\<rparr>))
            (tryChangeView c (case qc of None \<Rightarrow> e | Some q \<Rightarrow> on_state (init_view c block q) e))))))"

section \<open>Messages\<close>

definition running :: "engine \<Rightarrow> bool" where
  "running e \<longleftrightarrow> \<not> e_syncing e \<and> \<not> e_fetching e"

definition on_cs :: "(csMsgPool \<Rightarrow> csMsgPool) \<Rightarrow> engine \<Rightarrow> engine" where
  "on_cs f e = e\<lparr>e_cs := f (e_cs e)\<rparr>"

fun handleConsensusMsg :: "env \<Rightarrow> string \<Rightarrow> message \<Rightarrow> engine \<Rightarrow> (handleErr option \<times> engine) go" where
  "handleConsensusMsg c peer msg e =
     (if \<not> running e then Inr (Some (Failed ''consensus message pause, ignore message''), e)
      else case msg of
        MPrepareBlock m \<Rightarrow> OnPrepareBlock c peer m (on_cs (AddPrepareBlock_cs (pb_BlockIndex m) (NewInnerMsgInfo msg peer)) e)
      | MPrepareVote m \<Rightarrow> OnPrepareVote c peer m
          (on_cs (AddPrepareVote_cs (pv_BlockIndex m) (pv_ValidatorIndex m) (NewInnerMsgInfo msg peer)) e)
      | MPreCommit m \<Rightarrow> OnPreCommit c peer m
          (on_cs (AddPreCommit_cs (pc_BlockIndex m) (pc_ValidatorIndex m) (NewInnerMsgInfo msg peer)) e)
      | MViewChange m \<Rightarrow> OnViewChange c peer m e
      | _ \<Rightarrow> Inr (None, e))"

definition consensusMessageHandler :: "env \<Rightarrow> string \<Rightarrow> message \<Rightarrow> engine \<Rightarrow> engine go" where
  "consensusMessageHandler c peer msg e =
     (if c_seen c msg then Inr e
      else go_map (\<lambda>(err, e). case err of None \<Rightarrow> emit (Forwarding peer msg) (emit (MarkHistory msg) e)
          | Some er \<Rightarrow> if authFailed er then emit (Blacklist peer) e else e) (handleConsensusMsg c peer msg e))"

abbreviation no_err :: "engine go \<Rightarrow> (handleErr option \<times> engine) go" where
  "no_err m \<equiv> go_map (\<lambda>e. (None, e)) m"

fun on_sync_msg :: "env \<Rightarrow> string \<Rightarrow> message \<Rightarrow> engine \<Rightarrow> (handleErr option \<times> engine) go" where
  "on_sync_msg c peer (MGetPrepareBlock m) e = Inr (None, OnGetPrepareBlock peer m e)"
| "on_sync_msg c peer (MGetBlockQuorumCert m) e = Inr (None, OnGetBlockQuorumCert peer m e)"
| "on_sync_msg c peer (MBlockQuorumCert m) e = OnBlockQuorumCert c m (on_cs (AddPrepareQC_cs (q_Epoch (bq_BlockQC m))
     (q_BlockNumber (bq_BlockQC m)) (q_BlockIndex (bq_BlockQC m)) (NewInnerMsgInfo (MBlockQuorumCert m) peer)) e)"
| "on_sync_msg c peer (MGetBlockPreCommitQuorumCert m) e = Inr (None, OnGetBlockPreCommitQuorumCert peer m e)"
| "on_sync_msg c peer (MBlockPreCommitQuorumCert m) e = OnBlockPreCommitQuorumCert c m (on_cs (AddPreCommitQC_cs (q_Epoch (bp_BlockQC m))
     (q_BlockNumber (bp_BlockQC m)) (q_BlockIndex (bp_BlockQC m)) (NewInnerMsgInfo (MBlockPreCommitQuorumCert m) peer)) e)"
| "on_sync_msg c peer (MGetPrepareVote m) e = no_err (OnGetPrepareVote peer m e)"
| "on_sync_msg c peer (MGetPreCommit m) e = no_err (OnGetPreCommit peer m e)"
| "on_sync_msg c peer (MPrepareVotes m) e = OnPrepareVotes c peer m e"
| "on_sync_msg c peer (MPreCommits m) e = OnPreCommits c peer m e"
| "on_sync_msg c peer (MGetQCBlockList m) e = OnGetQCBlockList peer m e"
| "on_sync_msg c peer (MGetLatestStatus m) e = OnGetLatestStatus c peer m e"
| "on_sync_msg c peer (MLatestStatus m) e = OnLatestStatus c peer m e"
| "on_sync_msg c peer (MPrepareBlockHash m) e = Inr (None, OnPrepareBlockHash c peer m e)"
| "on_sync_msg c peer (MGetViewChange m) e = OnGetViewChange c peer m e"
| "on_sync_msg c peer (MViewChangeQuorumCert m) e = OnViewChangeQuorumCert c peer m e"
| "on_sync_msg c peer (MViewChanges m) e = OnViewChanges c peer m e"
| "on_sync_msg c peer _ e = Inr (None, e)"

definition handleSyncMsg :: "env \<Rightarrow> string \<Rightarrow> message \<Rightarrow> engine \<Rightarrow> (handleErr option \<times> engine) go" where
  "handleSyncMsg c peer msg e =
     (if e_syncing e then Inr (None, e)
      else case MatchTask peer msg (e_tasks e) of
        (Some parent, tasks) \<Rightarrow> (case msg of MQCBlockList l \<Rightarrow> no_err (fetch_executor c parent l (e\<lparr>e_tasks := tasks\<rparr>))
           | _ \<Rightarrow> Inr (None, e\<lparr>e_tasks := tasks\<rparr>))
      | (None, _) \<Rightarrow> on_sync_msg c peer msg e)"

section \<open>Events\<close>

datatype event =
    EConsensus string message
  | ESync string message
  | EExecuted hash u64 bool
  | EInsertAsync "block list" "quorumCert list"
  | ESeal block
  | EInsertChain block
  | EFastSync block
  | EViewTimeout
  | EMissingPrepareVote
  | EMissingPreCommit
  | EExpire
  | ESyncing bool

fun step :: "env \<Rightarrow> event \<Rightarrow> engine \<Rightarrow> engine go" where
  "step c (EConsensus peer msg) e = consensusMessageHandler c peer msg e"
| "step c (ESync peer msg) e = go_map (\<lambda>(err, e). case err of None \<Rightarrow> e
     | Some er \<Rightarrow> if authFailed er then emit (Blacklist peer) e else e) (handleSyncMsg c peer msg e)"
| "step c (EExecuted h number failed) e = onAsyncExecuteStatus c h number failed e"
| "step c (EInsertAsync blocks qcs) e = insert_async c blocks qcs e"
| "step c (ESeal block) e = OnSeal c block e"
| "step c (EInsertChain block) e = go_map snd (InsertChain c block e)"
| "step c (EFastSync block) e = go_map snd (FastSyncCommitHead c block e)"
| "step c EViewTimeout e = OnViewTimeout c e"
| "step c EMissingPrepareVote e = go_map snd (MissingPrepareVote c e)"
| "step c EMissingPreCommit e = go_map snd (MissingPreCommit c e)"
| "step c EExpire e = (let left = expire_tasks (c_now c) (e_tasks e)
     in Inr (e\<lparr>e_tasks := left, e_fetching := (e_fetching e \<and> left = e_tasks e)\<rparr>))"
| "step c (ESyncing b) e = Inr (e\<lparr>e_syncing := b\<rparr>)"

definition run :: "(env \<times> event) list \<Rightarrow> engine \<Rightarrow> engine go" where
  "run evs e = go_fold (\<lambda>(c, ev) e. step c ev e) evs e"

section \<open>Channels and counters\<close>

record inbox =
  ib_queues :: "(string, int) gomap"
  ib_peer :: "msgInfo list"
  ib_sync :: "msgInfo list"

record limits =
  l_queues :: int
  l_channel :: nat

definition counter :: "inbox \<Rightarrow> string \<Rightarrow> int" where
  "counter ib peer = (case gget (ib_queues ib) peer of None \<Rightarrow> 0 | Some n \<Rightarrow> n)"

definition recordMessage :: "limits \<Rightarrow> string \<Rightarrow> inbox \<Rightarrow> inbox option" where
  "recordMessage l peer ib = (let count = counter ib peer + 1
     in if count > l_queues l then None else Some (ib\<lparr>ib_queues := gset peer count (ib_queues ib)\<rparr>))"

definition forgetMessage :: "string \<Rightarrow> inbox \<Rightarrow> inbox" where
  "forgetMessage peer ib = (let n = counter ib peer - 1
     in ib\<lparr>ib_queues := (if n = 0 then gdel peer (ib_queues ib) else gset peer n (ib_queues ib))\<rparr>)"

text \<open>A send on a channel in a \<open>select\<close> with a default case: a message that does not fit is dropped.\<close>

definition push_chan :: "nat \<Rightarrow> 'a \<Rightarrow> 'a list \<Rightarrow> 'a list" where
  "push_chan cap x xs = (if length xs < cap then xs @ [x] else xs)"

definition invalidMsg :: "engine \<Rightarrow> u64 \<Rightarrow> u64 \<Rightarrow> bool" where
  "invalidMsg e epoch blockNumber \<longleftrightarrow> \<not> (epoch \<ge> v_epoch (e_state e) \<and> blockNumber + 1 \<ge> v_blockNumber (e_state e))"

definition ReceiveMessage :: "env \<Rightarrow> limits \<Rightarrow> engine \<Rightarrow> msgInfo \<Rightarrow> inbox \<Rightarrow> inbox go" where
  "ReceiveMessage c l e msg ib =
     (if \<not> running e then Inr ib
      else case as_ConsensusMsg (mi_Msg msg) of None \<Rightarrow> Inl (Explicit ''interface conversion'')
      | Some m \<Rightarrow> if invalidMsg e (EpochNum m) (BlockNum m) then Inr ib
          else (case recordMessage l (mi_PeerID msg) ib of None \<Rightarrow> Inr ib
            | Some ib \<Rightarrow> if c_seen c (mi_Msg msg) then Inr (forgetMessage (mi_PeerID msg) ib)
                else Inr (ib\<lparr>ib_peer := push_chan (l_channel l) msg (ib_peer ib)\<rparr>)))"

definition ReceiveSyncMsg :: "limits \<Rightarrow> engine \<Rightarrow> msgInfo \<Rightarrow> inbox \<Rightarrow> inbox" where
  "ReceiveSyncMsg l e msg ib =
     (if e_syncing e then ib
      else case recordMessage l (mi_PeerID msg) ib of None \<Rightarrow> ib
        | Some ib \<Rightarrow> ib\<lparr>ib_sync := push_chan (l_channel l) msg (ib_sync ib)\<rparr>)"

text \<open>The two receiving cases of \<open>receiveLoop\<close>: take the first message, handle it, forget it.\<close>

definition take_peer :: "env \<Rightarrow> inbox \<times> engine \<Rightarrow> (inbox \<times> engine) go" where
  "take_peer c = (\<lambda>(ib, e). case ib_peer ib of [] \<Rightarrow> Inr (ib, e)
     | m # ms \<Rightarrow> go_map (\<lambda>e. (forgetMessage (mi_PeerID m) (ib\<lparr>ib_peer := ms\<rparr>), e)) (step c (EConsensus (mi_PeerID m) (mi_Msg m)) e))"

definition take_sync :: "env \<Rightarrow> inbox \<times> engine \<Rightarrow> (inbox \<times> engine) go" where
  "take_sync c = (\<lambda>(ib, e). case ib_sync ib of [] \<Rightarrow> Inr (ib, e)
     | m # ms \<Rightarrow> go_map (\<lambda>e. (forgetMessage (mi_PeerID m) (ib\<lparr>ib_sync := ms\<rparr>), e)) (step c (ESync (mi_PeerID m) (mi_Msg m)) e))"

text \<open>The channels and the engine together: a message arrives, the loop takes one, or any other case of it runs.\<close>

inductive inbox_step :: "limits \<Rightarrow> inbox \<times> engine \<Rightarrow> inbox \<times> engine \<Rightarrow> bool" for l where
  receive: "ReceiveMessage c l e msg ib = Inr ib' \<Longrightarrow> inbox_step l (ib, e) (ib', e)"
| receive_sync: "inbox_step l (ib, e) (ReceiveSyncMsg l e msg ib, e)"
| peer: "take_peer c (ib, e) = Inr s \<Longrightarrow> inbox_step l (ib, e) s"
| sync: "take_sync c (ib, e) = Inr s \<Longrightarrow> inbox_step l (ib, e) s"
| other: "step c ev e = Inr e' \<Longrightarrow> inbox_step l (ib, e) (ib, e')"

inductive_cases inbox_stepE: "inbox_step l (ib, e) s"

definition empty_inbox :: inbox where
  "empty_inbox = \<lparr>ib_queues = [], ib_peer = [], ib_sync = []\<rparr>"

section \<open>What the counters bound\<close>

definition pending :: "inbox \<Rightarrow> string \<Rightarrow> nat" where
  "pending ib peer = length (filter (\<lambda>m. mi_PeerID m = peer) (ib_peer ib @ ib_sync ib))"

text \<open>The counted messages of a peer that are in no channel: counted, then dropped.\<close>

definition debt :: "inbox \<Rightarrow> string \<Rightarrow> int" where
  "debt ib peer = counter ib peer - int (pending ib peer)"

definition inbox_ok :: "limits \<Rightarrow> inbox \<Rightarrow> bool" where
  "inbox_ok l ib \<longleftrightarrow> (\<forall>peer. 0 \<le> debt ib peer \<and> counter ib peer \<le> l_queues l)
     \<and> length (ib_peer ib) \<le> l_channel l \<and> length (ib_sync ib) \<le> l_channel l"

lemma counter_gset: "counter (ib\<lparr>ib_queues := gset p n (ib_queues ib)\<rparr>) q = (if q = p then n else counter ib q)"
  by (simp add: counter_def)

lemma counter_forget: "counter (forgetMessage p ib) q = (if q = p then counter ib p - 1 else counter ib q)"
  by (simp add: counter_def forgetMessage_def Let_def)

lemma counter_channels [simp]: "counter (ib\<lparr>ib_peer := xs\<rparr>) = counter ib" "counter (ib\<lparr>ib_sync := xs\<rparr>) = counter ib"
  by (simp_all add: counter_def fun_eq_iff)

lemma channels_forget [simp]: "ib_peer (forgetMessage p ib) = ib_peer ib" "ib_sync (forgetMessage p ib) = ib_sync ib"
  by (simp_all add: forgetMessage_def Let_def)

lemma recordMessage_Some:
  "recordMessage l p ib = Some ib' \<Longrightarrow> counter ib p + 1 \<le> l_queues l \<and> ib_peer ib' = ib_peer ib \<and> ib_sync ib' = ib_sync ib
     \<and> (\<forall>q. counter ib' q = (if q = p then counter ib p + 1 else counter ib q))"
  by (auto simp: recordMessage_def Let_def counter_gset split: if_splits)

lemma debt_ops:
  "recordMessage l p ib = Some ib' \<Longrightarrow> debt ib' q = debt ib q + (if q = p then 1 else 0)"
  "debt (forgetMessage p ib) q = debt ib q - (if q = p then 1 else 0)"
  "debt (ib\<lparr>ib_peer := push_chan n m (ib_peer ib)\<rparr>) q = debt ib q - (if q = mi_PeerID m \<and> length (ib_peer ib) < n then 1 else 0)"
  "debt (ib\<lparr>ib_sync := push_chan n m (ib_sync ib)\<rparr>) q = debt ib q - (if q = mi_PeerID m \<and> length (ib_sync ib) < n then 1 else 0)"
  "ib_peer ib = m # ms \<Longrightarrow> debt (ib\<lparr>ib_peer := ms\<rparr>) q = debt ib q + (if q = mi_PeerID m then 1 else 0)"
  "ib_sync ib = m # ms \<Longrightarrow> debt (ib\<lparr>ib_sync := ms\<rparr>) q = debt ib q + (if q = mi_PeerID m then 1 else 0)"
  by (auto simp: debt_def pending_def counter_forget push_chan_def dest!: recordMessage_Some)

lemma length_push_chan: "length xs \<le> n \<Longrightarrow> length (push_chan n x xs) \<le> n"
  by (simp add: push_chan_def)

text \<open>One step keeps the bounds and pays no debt back.\<close>

definition inbox_grows :: "limits \<Rightarrow> inbox \<Rightarrow> inbox \<Rightarrow> bool" where
  "inbox_grows l ib ib' \<longleftrightarrow> (inbox_ok l ib \<longrightarrow> inbox_ok l ib' \<and> (\<forall>peer. debt ib peer \<le> debt ib' peer))"

lemma inbox_growsI:
  assumes "\<And>q. debt ib q \<le> debt ib' q" "\<And>q. counter ib q \<le> l_queues l \<Longrightarrow> counter ib' q \<le> l_queues l"
    "length (ib_peer ib) \<le> l_channel l \<Longrightarrow> length (ib_peer ib') \<le> l_channel l"
    "length (ib_sync ib) \<le> l_channel l \<Longrightarrow> length (ib_sync ib') \<le> l_channel l"
  shows "inbox_grows l ib ib'"
  using assms unfolding inbox_grows_def inbox_ok_def by (meson order_trans)

lemma grows_receive: "ReceiveMessage c l e msg ib = Inr ib' \<Longrightarrow> inbox_grows l ib ib'"
  by (rule inbox_growsI)
    (auto simp: ReceiveMessage_def debt_ops counter_forget length_push_chan split: if_splits option.splits dest: recordMessage_Some)

lemma grows_receive_sync: "inbox_grows l ib (ReceiveSyncMsg l e msg ib)"
  by (rule inbox_growsI)
    (auto simp: ReceiveSyncMsg_def debt_ops length_push_chan split: option.splits dest: recordMessage_Some)

lemma grows_take: "take_peer c (ib, e) = Inr (ib', e') \<Longrightarrow> inbox_grows l ib ib'" "take_sync c (ib, e) = Inr (ib', e') \<Longrightarrow> inbox_grows l ib ib'"
  by (rule inbox_growsI; auto simp: take_peer_def take_sync_def debt_ops counter_forget go_map_eq_Inr simp del: step.simps split: list.splits)+

lemma inbox_step_grows: "inbox_step l (ib, e) (ib', e') \<Longrightarrow> inbox_grows l ib ib'"
  by (erule inbox_stepE) (use grows_receive grows_receive_sync grows_take in \<open>auto simp: inbox_grows_def\<close>)

lemma inbox_steps_grow: "(inbox_step l)\<^sup>*\<^sup>* s s' \<Longrightarrow> inbox_grows l (fst s) (fst s')"
proof (induction rule: rtranclp_induct)
  case (step s' s'')
  then have "inbox_grows l (fst s') (fst s'')" by (cases s'; cases s'') (simp add: inbox_step_grows)
  then show ?case using step.IH unfolding inbox_grows_def by (meson order_trans)
qed (simp add: inbox_grows_def)

section \<open>Properties\<close>

text \<open>C22: No peer can fill the queues.  Whatever arrives and is handled, a channel never holds more than its capacity,
  and the messages of one peer in both channels never exceed its counter, which never exceeds \<open>MaxQueuesLimit\<close>.\<close>
theorem queue_bounds:
  assumes "(inbox_step l)\<^sup>*\<^sup>* (empty_inbox, e) (ib, e')" "0 \<le> l_queues l"
  shows "length (ib_peer ib) \<le> l_channel l \<and> length (ib_sync ib) \<le> l_channel l
    \<and> int (pending ib peer) \<le> counter ib peer \<and> counter ib peer \<le> l_queues l"
proof -
  have "inbox_ok l empty_inbox" using assms(2) by (simp add: inbox_ok_def debt_def pending_def counter_def empty_inbox_def gget_def)
  then have "inbox_ok l ib" using inbox_steps_grow [OF assms(1)] by (simp add: inbox_grows_def)
  then show ?thesis by (simp add: inbox_ok_def debt_def)
qed

definition idle_engine :: engine where
  "idle_engine = \<lparr>e_state = NewViewState 0 10000, e_tree = \<lparr>bt_heap = [], bt_root = None, bt_blocks = []\<rparr>, e_vp = cert_pool,
     e_cs = NewCSMsgPool, e_sync = NewSyncCache syncCacheTimeout, e_ev = NewBaseEvidencePool [], e_tasks = [], e_loading = False,
     e_syncing = False, e_fetching = False, e_out = []\<rparr>"

definition ping_info :: msgInfo where
  "ping_info = NewMsgInfo (MPing [1]) ''a''"

theorem queue_bounds_witness:
  "(inbox_step \<lparr>l_queues = 1, l_channel = 1\<rparr>)\<^sup>*\<^sup>* (empty_inbox, idle_engine)
      (\<lparr>ib_queues = [(''a'', 1)], ib_peer = [], ib_sync = [ping_info]\<rparr>, idle_engine)
    \<and> int (pending \<lparr>ib_queues = [(''a'', 1)], ib_peer = [], ib_sync = [ping_info]\<rparr> ''a'') = 1
    \<and> counter \<lparr>ib_queues = [(''a'', 1)], ib_peer = [], ib_sync = [ping_info]\<rparr> ''a'' \<le> 1"
proof -
  let ?l = "\<lparr>l_queues = 1, l_channel = 1\<rparr>" and ?ib = "\<lparr>ib_queues = [(''a'', 1)], ib_peer = [], ib_sync = [ping_info]\<rparr>"
  have "ReceiveSyncMsg ?l idle_engine ping_info empty_inbox = ?ib" by code_simp
  then have "(inbox_step ?l)\<^sup>*\<^sup>* (empty_inbox, idle_engine) (?ib, idle_engine)"
    using inbox_step.receive_sync [of ?l empty_inbox idle_engine ping_info] by auto
  moreover have "int (pending ?ib ''a'') = 1" by code_simp
  ultimately show ?thesis using queue_bounds [of ?l idle_engine ?ib idle_engine "''a''"] by simp
qed



end
