(* ===== verification/Traces.thy ===== *)
theory Traces
  imports Dispatch
begin

text \<open>
  Invariants of the running engine.  Most of a handler neither votes nor commits: \<open>calm\<close> says so of a transition.
  The locale \<open>engine_invariant\<close> asks of a predicate that it survives calm transitions and the three operations that
  vote or commit, and gives it for every event and every run; its interpretations are the invariants of this
  theory.
\<close>

section \<open>Calm transitions\<close>

definition view_core :: "viewState \<Rightarrow> u64 \<times> prepareVote option \<times> u64 \<times> preCommit option \<times> block option" where
  "view_core vs = (v_hadSendVoteNumber vs, v_hadSendVoteLast vs, v_hadSendPreCommitNumber vs, v_hadSendPreCommitLast vs,
     vs_highestCommitBlock vs)"

fun plain :: "effect \<Rightarrow> bool" where
  "plain (Broadcast (MPrepareVote _)) = False"
| "plain (Broadcast (MPreCommit _)) = False"
| "plain (PostResult _ _ _ _ _) = False"
| "plain _ = True"

definition calm :: "engine \<Rightarrow> engine \<Rightarrow> bool" where
  "calm e e' \<longleftrightarrow> view_core (e_state e') = view_core (e_state e) \<and> (\<exists>xs. e_out e' = e_out e @ xs \<and> list_all plain xs)"

lemma calm_refl_out: "view_core (e_state e') = view_core (e_state e) \<Longrightarrow> e_out e' = e_out e \<Longrightarrow> calm e e'"
  by (simp add: calm_def)

lemma calm_emit: "plain x \<Longrightarrow> calm e (emit x e)"
  by (simp add: calm_def emit_def)

lemma view_core_ops [simp]:
  "view_core (AddPrepareBlock pb vs) = view_core vs" "view_core (AddQCBlock b qc vs) = view_core vs"
  "view_core (AddQC qc vs) = view_core vs" "view_core (AddPreCommitQC qc vs) = view_core vs"
  "view_core (AddPrepareVote i p vs) = view_core vs" "view_core (AddPreCommit i pc vs) = view_core vs"
  "view_core (AddViewChange i vc vs) = view_core vs" "view_core (SetExecuting k f vs) = view_core vs"
  "view_core (SetLastViewChangeQC q vs) = view_core vs" "view_core (SetPreCommitQC qc vs) = view_core vs"
  "view_core (SetPrepareVoteQC qc vs) = view_core vs" "view_core (UpdateStep s vs) = view_core vs"
  "view_core (ResetView a n m vs) = view_core vs" "view_core (SetMaxExecutedBlockNumber n vs) = view_core vs"
  "view_core (AddBlockNumber t qc vs) = view_core vs" "view_core (SetHighestQCBlock b vs) = view_core vs"
  "view_core (SetHighestPreCommitQCBlock b vs) = view_core vs" "view_core (SetHighestLockBlock b vs) = view_core vs"
  "view_core (add_qc_block b qc vs) = view_core vs"
  by (simp_all add: view_core_def view_op_defs Let_def SetExecuting_def SetLastViewChangeQC_def SetPreCommitQC_def SetPrepareVoteQC_def
      UpdateStep_def ResetView_def Reset_view_def SetMaxExecutedBlockNumber_def AddBlockNumber_def SetHighestQCBlock_def
      SetHighestPreCommitQCBlock_def SetHighestLockBlock_def add_qc_block_def)

lemma view_core_timer: "setViewTimer c vs = Inr vs' \<Longrightarrow> view_core vs' = view_core vs"
  by (auto simp: setViewTimer_def SetViewTimer_def view_core_def split: option.splits)

section \<open>Invariants of the engine\<close>

lemma go_post_all: "(\<And>x. Q x) \<Longrightarrow> go_post Q m"
  by (simp add: go_postI)

text \<open>The calls that only read.\<close>

lemmas reads = go_post_all [where m = "HighestQCBlock s" for s] go_post_all [where m = "HighestPreCommitQCBlock s" for s]
  go_post_all [where m = "HighestLockBlock s" for s] go_post_all [where m = "HighestCommitBlock s" for s]
  go_post_all [where m = "isCurrentValidator c e" for c e] go_post_all [where m = "currentValidatorLen e" for e]
  go_post_all [where m = "go_deref p" for p] go_post_all [where m = "HasBlock h n e" for h n e]
  go_post_all [where m = "verifyPrepareQC B k vp n h q" for B k vp n h q] go_post_all [where m = "higher_cert t b h" for t b h]
  go_post_all [where m = "is_own c q e" for c q e] go_post_all [where m = "own_index c e" for c e]
  go_post_all [where m = "has_executed c q b e" for c q b e] go_post_all [where m = "verifyConsensusSign B k vp m" for B k vp m]
  go_post_all [where m = "isProposer vs vp a n i" for vs vp a n i] go_post_all [where m = "CalCurrentProposer vs n" for vs n]
  go_post_all [where m = "verifyViewChangeQC B k vp v" for B k vp v] go_post_all [where m = "checkViewChangeQC B k vp m" for B k vp m]

locale calm_closed =
  fixes I :: "engine \<Rightarrow> bool"
  assumes calm: "\<And>e e'. I e \<Longrightarrow> calm e e' \<Longrightarrow> I e'"
begin

lemma I_cong: "view_core (e_state e') = view_core (e_state e) \<Longrightarrow> e_out e' = e_out e \<Longrightarrow> I e' = I e"
  using calm [of e e', OF _ calm_refl_out] calm [of e' e, OF _ calm_refl_out] by auto

lemma I_updates [simp]:
  "I (e\<lparr>e_tree := t\<rparr>) = I e" "I (e\<lparr>e_vp := vp\<rparr>) = I e" "I (e\<lparr>e_cs := cs\<rparr>) = I e" "I (e\<lparr>e_sync := sc\<rparr>) = I e"
  "I (e\<lparr>e_ev := ev\<rparr>) = I e" "I (e\<lparr>e_tasks := ts\<rparr>) = I e" "I (e\<lparr>e_loading := b\<rparr>) = I e" "I (e\<lparr>e_syncing := b\<rparr>) = I e"
  "I (e\<lparr>e_fetching := b\<rparr>) = I e"
  by (rule I_cong; simp)+

lemma I_state [simp]: "view_core st = view_core (e_state e) \<Longrightarrow> I (e\<lparr>e_state := st\<rparr>) = I e"
  by (rule I_cong) simp_all

lemma I_on_state [simp]: "view_core (f (e_state e)) = view_core (e_state e) \<Longrightarrow> I (on_state f e) = I e"
  by (simp add: on_state_def)

lemma I_emit [intro!]: "I e \<Longrightarrow> plain x \<Longrightarrow> I (emit x e)"
  by (auto intro: calm calm_emit)

lemma I_requeue [intro!]: "I e \<Longrightarrow> I (requeue m e)"
  by (auto simp: requeue_def split: option.split)

lemma I_requests [intro!]:
  "I e \<Longrightarrow> I (SyncPrepareBlock c peer a n k v e)" "I e \<Longrightarrow> I (SyncBlockQuorumCert c peer n h k e)"
  "I e \<Longrightarrow> I (SyncBlockPreCommitQuorumCert c peer n h k e)"
  by (auto simp: SyncPrepareBlock_def SyncBlockQuorumCert_def SyncBlockPreCommitQuorumCert_def Let_def split: prod.split)

lemma I_fetchRules [intro!]: "I e \<Longrightarrow> I (prepareVoteFetchRules c peer v e)" "I e \<Longrightarrow> I (preCommitFetchRules c peer p e)"
  by (auto simp: prepareVoteFetchRules_def preCommitFetchRules_def Let_def split: prod.split option.split)

lemma I_fetchBlock: "I e \<Longrightarrow> go_post I (fetchBlock c peer h n qc e)"
  by (auto simp: fetchBlock_def intro!: reads split: option.split)

lemma I_changeView: "I e \<Longrightarrow> go_post I (changeView c a n bp qc vq e)"
  by (auto simp: changeView_def clearInvalidBlocks_def Let_def dest!: view_core_timer intro!: reads go_postI)

lemma I_tryChangeViewByViewChange: "I e \<Longrightarrow> go_post I (tryChangeViewByViewChange c v e)"
  by (auto simp: tryChangeViewByViewChange_def Let_def split: prod.split intro!: reads I_changeView
      go_post_all [where m = "richViewChangeQC a b d" for a b d])

lemma I_update_validators: "I e \<Longrightarrow> go_post I (update_validators c n e)"
  by (auto simp: update_validators_def Let_def split: prod.split intro!: go_post_all)

lemma I_tryChangeView: "I e \<Longrightarrow> go_post I (tryChangeView c e)"
  by (auto simp: tryChangeView_def Let_def split: prod.split
      intro!: reads I_changeView I_tryChangeViewByViewChange I_update_validators [THEN go_post_mono]
        go_post_all [where m = "generateViewChangeQC B vp a v" for B vp a v])

lemma I_TrySet:
  "I e \<Longrightarrow> go_post I (TrySetHighestQCBlock b e)" "I e \<Longrightarrow> go_post I (TrySetHighestPreCommitQCBlock bk e)"
  "I e \<Longrightarrow> go_post I (TrySetHighestLockBlock b e)"
  by (auto simp: TrySetHighestQCBlock_def TrySetHighestPreCommitQCBlock_def TrySetHighestLockBlock_def intro!: reads)

lemma I_tryAddStateBlockNumber [intro!]: "I e \<Longrightarrow> I (tryAddStateBlockNumber c q e)"
  by (simp add: tryAddStateBlockNumber_def)

lemma I_exePrepareBlock [intro!]: "I e \<Longrightarrow> I (exePrepareBlock m e)"
  by (auto simp: exePrepareBlock_def split: option.split)

lemma I_checked: "I e \<Longrightarrow> go_post (\<lambda>r. I (snd r)) (checked c m e)"
  by (auto simp: checked_def split: prod.split intro!: go_post_all)

lemma I_on_rule_error: "I e \<Longrightarrow> go_post (\<lambda>r. I (snd r)) (on_rule_error c peer m err e)"
  by (auto simp: on_rule_error_def new_view_of_def Let_def split: prod.split option.split
      intro!: reads I_changeView I_fetchBlock)

lemma I_OnPrepareBlock: "I e \<Longrightarrow> go_post (\<lambda>r. I (snd r)) (OnPrepareBlock c peer m e)"
  by (auto simp: OnPrepareBlock_def split: prod.split option.split sum.split
      intro!: go_post_all [where m = "PrepareBlockRules a b c d f g" for a b c d f g] I_on_rule_error [THEN go_post_mono]
        I_checked [THEN go_post_mono])

lemma I_vote_rule_error:
  "I e \<Longrightarrow> (\<And>e. I e \<Longrightarrow> I (f e)) \<Longrightarrow> go_post (\<lambda>r. I (snd r)) (vote_rule_error c peer m q f err e)"
  by (auto simp: vote_rule_error_def split: option.split intro!: reads I_fetchBlock)

lemma I_OnViewChange: "I e \<Longrightarrow> go_post (\<lambda>r. I (snd r)) (OnViewChange c peer m e)"
  by (auto simp: OnViewChange_def split: prod.split option.split sum.split
      intro!: go_post_all [where m = "ViewChangeRules a b d" for a b d] I_fetchBlock I_tryChangeView
        I_checked [THEN go_post_mono])

lemma I_OnViewTimeout: "I e \<Longrightarrow> go_post I (OnViewTimeout c e)"
  by (auto simp: OnViewTimeout_def Let_def split: option.split sum.split
      intro!: reads I_tryChangeView go_post_all [where m = "signMsgByBls_vc a b" for a b])

lemma I_OnSeal: "I e \<Longrightarrow> go_post I (OnSeal c b e)"
  by (auto simp: OnSeal_def Let_def split: option.split sum.split
      intro!: reads I_OnPrepareBlock [THEN go_post_mono] go_post_all [where m = "signMsgByBls_pb a b" for a b])

end

locale engine_invariant = calm_closed +
  assumes vote: "\<And>c p e. I e \<Longrightarrow> go_post I (trySendPrepareVote c p e)"
    and precommit: "\<And>c p e. I e \<Longrightarrow> go_post I (trySendPreCommit c p e)"
    and commit: "\<And>l k b e. I e \<Longrightarrow> go_post I (tryCommitNewBlock l k b e)"
begin

lemma I_signBlock: "I e \<Longrightarrow> go_post (\<lambda>r. I (snd r)) (signBlock c h n i e)"
  by (auto simp: signBlock_def split: option.split sum.split
      intro!: reads vote go_post_all [where m = "signMsgByBls_pv a b" for a b])

lemma I_genPreCommit: "I e \<Longrightarrow> go_post I (genPreCommit c q e)"
  by (auto simp: genPreCommit_def Let_def split: option.split sum.split prod.split
      intro!: reads precommit go_post_all [where m = "signMsgByBls_pc a b" for a b])

lemma I_on_prepare_qc: "I e \<Longrightarrow> go_post I (on_prepare_qc c q e)"
  by (auto simp: on_prepare_qc_def intro!: I_genPreCommit)

lemma I_findPreVoteQC: "I e \<Longrightarrow> go_post I (findPreVoteQC c n e)"
  by (auto simp: findPreVoteQC_def split: option.split
      intro!: reads I_on_prepare_qc I_TrySet(1) [THEN go_post_mono] go_post_all [where m = "generatePrepareQC a b d f" for a b d f])

lemma I_insertQCBlock: "I e \<Longrightarrow> go_post I (insertQCBlock c b q e)"
  by (auto simp: insertQCBlock_def Let_def split: prod.split
      intro!: reads commit I_TrySet [THEN go_post_mono] go_post_all [where m = "InsertQCBlock a b d" for a b d])

lemma I_insert_and_change:
  "I e \<Longrightarrow> go_post I (go_bind (insertQCBlock c b q e) (\<lambda>e. tryChangeView c (tryAddStateBlockNumber c q e)))"
  by (auto intro!: I_insertQCBlock [THEN go_post_mono] I_tryChangeView)

lemma I_findPreCommitQC: "I e \<Longrightarrow> go_post I (findPreCommitQC c m e)"
  by (auto simp: findPreCommitQC_def Let_def split: option.split
      intro!: reads I_insertQCBlock [THEN go_post_mono] I_tryChangeView go_post_all [where m = "generatePreCommitQC a b d f" for a b d f])

lemma I_insertPreCommitQC: "I e \<Longrightarrow> go_post I (insertPreCommitQC c q e)"
  by (auto simp: insertPreCommitQC_def split: option.split intro!: reads I_insertQCBlock [THEN go_post_mono] I_tryChangeView)

lemma I_OnPrepareVote: "I e \<Longrightarrow> go_post (\<lambda>r. I (snd r)) (OnPrepareVote c peer m e)"
  by (auto simp: OnPrepareVote_def split: prod.split option.split sum.split
      intro!: go_post_all [where m = "PrepareVoteRules a b d f g" for a b d f g] I_vote_rule_error
        I_checked [THEN go_post_mono] I_findPreVoteQC)

lemma I_OnPreCommit: "I e \<Longrightarrow> go_post (\<lambda>r. I (snd r)) (OnPreCommit c peer m e)"
  by (auto simp: OnPreCommit_def split: prod.split option.split sum.split
      intro!: go_post_all [where m = "PreCommitRules a b d f g" for a b d f g] I_vote_rule_error
        I_checked [THEN go_post_mono] I_findPreCommitQC)

lemma I_insert_one: "I e \<Longrightarrow> go_post (\<lambda>r. I (snd r)) (insert_one c b q e)"
  by (auto simp: insert_one_def split: option.split
      intro!: I_changeView [THEN go_post_mono] I_insertQCBlock [THEN go_post_mono] I_tryChangeView)

lemma I_OnInsertQCBlock: "I e \<Longrightarrow> go_post (\<lambda>r. I (snd r)) (OnInsertQCBlock c bs qs e)"
  by (auto simp: OnInsertQCBlock_def split: prod.split intro!: go_post_fold I_insert_one)

lemma I_onAsyncExecuteStatus: "I e \<Longrightarrow> go_post I (onAsyncExecuteStatus c h n f e)"
  by (auto simp: onAsyncExecuteStatus_def Let_def split: option.split sum.split prod.split
      intro!: reads I_signBlock [THEN go_post_mono] I_findPreVoteQC)

text \<open>Synchronisation.\<close>

lemma I_answers [intro!]:
  "I e \<Longrightarrow> I (OnGetPrepareBlock peer m1 e)" "I e \<Longrightarrow> I (OnGetBlockQuorumCert peer m2 e)"
  "I e \<Longrightarrow> I (OnGetBlockPreCommitQuorumCert peer m3 e)" "I e \<Longrightarrow> I (OnPrepareBlockHash c peer m4 e)"
  by (auto simp: OnGetPrepareBlock_def OnGetBlockQuorumCert_def OnGetBlockPreCommitQuorumCert_def OnPrepareBlockHash_def Let_def
      split: option.split)

lemma I_vote_answers: "I e \<Longrightarrow> go_post I (OnGetPrepareVote peer m e)" "I e \<Longrightarrow> go_post I (OnGetPreCommit peer p e)"
  by (auto simp: OnGetPrepareVote_def OnGetPreCommit_def Let_def split: option.split
      intro!: go_post_all [where m = "missing_votes a b d" for a b d])

lemma I_OnGetQCBlockList: "I e \<Longrightarrow> go_post (\<lambda>r. I (snd r)) (OnGetQCBlockList peer m e)"
  by (auto simp: OnGetQCBlockList_def Let_def split: prod.split intro!: reads)

lemma I_block_certs:
  "I e \<Longrightarrow> go_post (\<lambda>r. I (snd r)) (OnBlockQuorumCert c m1 e)" "I e \<Longrightarrow> go_post (\<lambda>r. I (snd r)) (OnBlockPreCommitQuorumCert c m2 e)"
  by (auto simp: OnBlockQuorumCert_def OnBlockPreCommitQuorumCert_def Let_def split: sum.split
      intro!: reads I_TrySet(1) [THEN go_post_mono] I_on_prepare_qc I_insertPreCommitQC)

lemma I_batch:
  "I e \<Longrightarrow> (\<And>v e. I e \<Longrightarrow> go_post (\<lambda>r. I (snd r)) (h v e)) \<Longrightarrow> go_post (\<lambda>r. I (snd r)) (batch needed h vs e)"
  by (auto simp: batch_def split: prod.split intro!: go_post_fold)

lemma I_batches:
  "I e \<Longrightarrow> go_post (\<lambda>r. I (snd r)) (OnPrepareVotes c peer m1 e)" "I e \<Longrightarrow> go_post (\<lambda>r. I (snd r)) (OnPreCommits c peer m2 e)"
  "I e \<Longrightarrow> go_post (\<lambda>r. I (snd r)) (OnViewChanges c peer m3 e)"
  by (auto simp: OnPrepareVotes_def OnPreCommits_def OnViewChanges_def intro!: I_batch I_OnPrepareVote I_OnPreCommit I_OnViewChange)

lemma I_status:
  "I e \<Longrightarrow> go_post (\<lambda>r. I (snd r)) (OnGetLatestStatus c peer m e)" "I e \<Longrightarrow> go_post (\<lambda>r. I (snd r)) (OnLatestStatus c peer m e)"
  by (auto simp: OnGetLatestStatus_def OnLatestStatus_def peer_fetch_def Let_def split: prod.split bool.split intro!: reads I_fetchBlock)

lemma I_view_certs:
  "I e \<Longrightarrow> go_post (\<lambda>r. I (snd r)) (OnGetViewChange c peer m1 e)" "I e \<Longrightarrow> go_post (\<lambda>r. I (snd r)) (OnViewChangeQuorumCert c peer m2 e)"
  by (auto simp: OnGetViewChange_def OnViewChangeQuorumCert_def trySyncViewChangeQuorumCert_def Let_def split: prod.split option.split
      intro!: reads I_tryChangeViewByViewChange [THEN go_post_mono] go_post_all [where m = "select_votes a b d f" for a b d f])

lemma I_missing_set: "I e \<Longrightarrow> go_post (\<lambda>r. I (snd r)) (missing_set c b n cached known e)"
proof -
  have "go_post (\<lambda>r. I (snd r)) (missing_step cached known i r)" if "I (snd r)" for i r
    using that by (auto simp: missing_step_def Let_def split: prod.split option.split
        intro!: go_post_all [where m = "SetIndex a b True" for a b])
  then have "go_post (\<lambda>r. I (snd r)) (go_fold (missing_step cached known) is (u, e))" if "I e" for "is" u
    using that by (intro go_post_fold) auto
  then show "I e \<Longrightarrow> ?thesis" by (auto simp: missing_set_def Let_def split_def intro!: reads)
qed

lemma I_missing: "I e \<Longrightarrow> go_post (\<lambda>r. I (snd r)) (MissingPrepareVote c e)" "I e \<Longrightarrow> go_post (\<lambda>r. I (snd r)) (MissingPreCommit c e)"
  by (auto simp: MissingPrepareVote_def MissingPreCommit_def Let_def split: prod.split
      intro!: reads I_missing_set [THEN go_post_mono])

lemma I_exec_chain: "I e \<Longrightarrow> exec_chain c bs b e = (r, e') \<Longrightarrow> I e'"
proof (induction bs arbitrary: b e)
  case (Cons a bs)
  then have "I (emit (ExecuteNow a b) e)" by auto
  then show ?case using Cons.prems Cons.IH [of "emit (ExecuteNow a b) e" a] by (simp add: Let_def split: if_splits)
qed simp

lemma I_exec_forked [intro!]: "I e \<Longrightarrow> I (exec_forked c bs e)"
proof (induction bs arbitrary: e)
  case (Cons a bs)
  then have "I (exec_forked c bs (emit (ExecuteNow a p) e))" for p by (intro Cons.IH) auto
  then show ?case using Cons.prems by (auto simp: Let_def split: option.split)
qed simp

lemma I_fetch_executor: "I e \<Longrightarrow> go_post I (fetch_executor c b m e)"
  by (auto simp: fetch_executor_def Let_def split: prod.split option.split dest: I_exec_chain
      intro!: go_post_all [where m = "filter_forked a b d" for a b d])

lemma I_inserts:
  "I e \<Longrightarrow> go_post I (insert_async c bs qs e)" "I e \<Longrightarrow> go_post (\<lambda>r. I (snd r)) (InsertChain c b e)"
  by (auto simp: insert_async_def InsertChain_def insert_chain_async_def Let_def split: option.split
      intro!: reads I_OnInsertQCBlock go_post_all [where m = "verify_all a b d f" for a b d f])

lemma I_on_cs [simp]: "I (on_cs f e) = I e"
  by (simp add: on_cs_def)

lemma I_handleConsensusMsg: "I e \<Longrightarrow> go_post (\<lambda>r. I (snd r)) (handleConsensusMsg c peer m e)"
  by (auto split: message.split intro!: I_OnPrepareBlock I_OnPrepareVote I_OnPreCommit I_OnViewChange)

lemma I_on_sync_msg: "I e \<Longrightarrow> go_post (\<lambda>r. I (snd r)) (on_sync_msg c peer m e)"
  by (cases m) (auto intro!: I_block_certs I_vote_answers I_batches I_OnGetQCBlockList I_status I_view_certs)

lemma I_handleSyncMsg: "I e \<Longrightarrow> go_post (\<lambda>r. I (snd r)) (handleSyncMsg c peer m e)"
  by (auto simp: handleSyncMsg_def split: prod.split option.split message.split intro!: I_fetch_executor I_on_sync_msg)

lemma I_step:
  assumes "I e" "\<And>b. ev = EFastSync b \<Longrightarrow> go_post (\<lambda>r. I (snd r)) (FastSyncCommitHead c b e)"
  shows "go_post I (step c ev e)"
  using assms
  by (cases ev) (auto simp: consensusMessageHandler_def Let_def split: prod.split option.split simp del: handleConsensusMsg.simps
      intro!: I_handleConsensusMsg [THEN go_post_mono] I_handleSyncMsg [THEN go_post_mono] I_onAsyncExecuteStatus I_inserts I_OnSeal
        I_OnViewTimeout I_missing)

lemma I_run:
  assumes "I e" "\<And>c b. (c, EFastSync b) \<notin> set evs"
  shows "go_post I (run evs e)"
  unfolding run_def using assms by (auto intro!: go_post_fold I_step split: prod.split)

end

text \<open>Where the invariant also survives a fast synchronisation, it holds for every run.\<close>

locale engine_invariant_all = engine_invariant +
  assumes fast: "\<And>b e. I e \<Longrightarrow> I (on_state (set_all_highest b) e)"
begin

lemma I_FastSync: "I e \<Longrightarrow> go_post (\<lambda>r. I (snd r)) (FastSyncCommitHead c b e)"
  by (auto simp: FastSyncCommitHead_def split: option.split
      intro!: fast I_changeView [THEN go_post_mono] go_post_all [where m = "Reset_vp a b d f" for a b d f]
        go_post_all [where m = "Block_Tree.Reset a b d" for a b d])

lemma I_run_all: "I e \<Longrightarrow> go_post I (run evs e)"
  unfolding run_def by (auto intro!: go_post_fold I_step I_FastSync split: prod.split)

end

section \<open>Votes and pre-commits are sent once, in order\<close>

fun vote_of :: "effect \<Rightarrow> prepareVote option" where
  "vote_of (Broadcast (MPrepareVote p)) = Some p"
| "vote_of _ = None"

fun precommit_of :: "effect \<Rightarrow> preCommit option" where
  "precommit_of (Broadcast (MPreCommit p)) = Some p"
| "precommit_of _ = None"

fun posted_of :: "effect \<Rightarrow> block option" where
  "posted_of (PostResult b _ _ _ _) = Some b"
| "posted_of _ = None"

definition votes_sent :: "engine \<Rightarrow> prepareVote list" where
  "votes_sent e = List.map_filter vote_of (e_out e)"

definition precommits_sent :: "engine \<Rightarrow> preCommit list" where
  "precommits_sent e = List.map_filter precommit_of (e_out e)"

definition posted :: "engine \<Rightarrow> block list" where
  "posted e = List.map_filter posted_of (e_out e)"

lemmas sent_defs = votes_sent_def precommits_sent_def posted_def

lemma map_filter_append: "List.map_filter f (xs @ ys) = List.map_filter f xs @ List.map_filter f ys"
  by (simp add: List.map_filter_def)

lemma plain_none: "plain x \<Longrightarrow> vote_of x = None \<and> precommit_of x = None \<and> posted_of x = None"
  by (cases x rule: plain.cases) auto

lemma calm_sent: "calm e e' \<Longrightarrow> votes_sent e' = votes_sent e \<and> precommits_sent e' = precommits_sent e \<and> posted e' = posted e"
proof -
  have "List.map_filter vote_of xs = [] \<and> List.map_filter precommit_of xs = [] \<and> List.map_filter posted_of xs = []"
    if "list_all plain xs" for xs
    using that by (induction xs) (auto simp: map_filter_simps dest!: plain_none)
  then show "calm e e' \<Longrightarrow> ?thesis" by (auto simp: calm_def sent_defs map_filter_append)
qed

lemma sent_emit [simp]:
  "votes_sent (emit x e) = votes_sent e @ (case vote_of x of None \<Rightarrow> [] | Some p \<Rightarrow> [p])"
  "precommits_sent (emit x e) = precommits_sent e @ (case precommit_of x of None \<Rightarrow> [] | Some p \<Rightarrow> [p])"
  "posted (emit x e) = posted e @ (case posted_of x of None \<Rightarrow> [] | Some p \<Rightarrow> [p])"
  by (simp_all add: sent_defs emit_def map_filter_append map_filter_simps split: option.split)

lemma emit_state [simp]: "e_state (emit x e) = e_state e" "e_tree (emit x e) = e_tree e" "e_vp (emit x e) = e_vp e"
  by (simp_all add: emit_def)

lemma sent_updates [simp]:
  "votes_sent (e\<lparr>e_state := st\<rparr>) = votes_sent e" "precommits_sent (e\<lparr>e_state := st\<rparr>) = precommits_sent e"
  "posted (e\<lparr>e_state := st\<rparr>) = posted e" "votes_sent (on_state f e) = votes_sent e"
  "precommits_sent (on_state f e) = precommits_sent e" "posted (on_state f e) = posted e"
  "posted (e\<lparr>e_tree := t\<rparr>) = posted e" "votes_sent (e\<lparr>e_tree := t\<rparr>) = votes_sent e" "precommits_sent (e\<lparr>e_tree := t\<rparr>) = precommits_sent e"
  by (simp_all add: sent_defs on_state_def)

definition vote_inv :: "engine \<Rightarrow> bool" where
  "vote_inv e \<longleftrightarrow> last_vote_ok (e_state e) \<and> sorted_wrt (<) (map pv_key (votes_sent e))
     \<and> (\<forall>p\<in>set (votes_sent e). \<exists>l. v_hadSendVoteLast (e_state e) = Some l \<and> pv_key p \<le> pv_key l)"

definition precommit_inv :: "engine \<Rightarrow> bool" where
  "precommit_inv e \<longleftrightarrow> last_precommit_ok (e_state e) \<and> sorted_wrt (<) (map pc_key (precommits_sent e))
     \<and> (\<forall>p\<in>set (precommits_sent e). \<exists>l. v_hadSendPreCommitLast (e_state e) = Some l \<and> pc_key p \<le> pc_key l)"

definition commit_inv :: "block \<Rightarrow> engine \<Rightarrow> bool" where
  "commit_inv b0 e \<longleftrightarrow> vs_highestCommitBlock (e_state e) = Some (last (b0 # posted e))
     \<and> successively (\<lambda>a b. blk_Number b = blk_Number a + 1) (b0 # posted e)"

lemma inv_calm:
  assumes "calm e e'"
  shows "vote_inv e' = vote_inv e" "precommit_inv e' = precommit_inv e" "commit_inv b e' = commit_inv b e"
  using calm_sent [OF assms] assms
  by (simp_all add: vote_inv_def precommit_inv_def commit_inv_def calm_def view_core_def last_vote_ok_def last_precommit_ok_def
      split: option.split)

lemma tryAddHadSendVote_new:
  assumes "last_vote_ok vs" "\<not> HadSendPreVote p vs" "tryAddHadSendVote (pv_BlockNumber p) p vs = Inr vs'"
  shows "vs' = AddHadSendVoteNumber (pv_BlockNumber p) p vs"
  using assms by (auto simp: tryAddHadSendVote_def HadSendPreVote_def last_vote_ok_def go_deref_def split: if_splits option.splits)

lemma tryAddHadSendPreCommit_new:
  assumes "last_precommit_ok vs" "\<not> HadSendPreCommit p vs" "tryAddHadSendPreCommit (pc_BlockNumber p) p vs = Inr vs'"
  shows "vs' = AddHadSendPreCommitNumber (pc_BlockNumber p) p vs"
  using assms by (auto simp: tryAddHadSendPreCommit_def HadSendPreCommit_def last_precommit_ok_def go_deref_def split: if_splits option.splits)

text \<open>What sending a vote or a pre-commit does to the observed parts of the engine.\<close>

definition sends_vote :: "prepareVote \<Rightarrow> engine \<Rightarrow> engine \<Rightarrow> bool" where
  "sends_vote p e e' \<longleftrightarrow> votes_sent e' = votes_sent e @ [p] \<and> precommits_sent e' = precommits_sent e \<and> posted e' = posted e
     \<and> view_core (e_state e') = view_core (AddHadSendVoteNumber (pv_BlockNumber p) p (e_state e))"

definition sends_precommit :: "preCommit \<Rightarrow> engine \<Rightarrow> engine \<Rightarrow> bool" where
  "sends_precommit p e e' \<longleftrightarrow> votes_sent e' = votes_sent e \<and> precommits_sent e' = precommits_sent e @ [p] \<and> posted e' = posted e
     \<and> view_core (e_state e') = view_core (AddHadSendPreCommitNumber (pc_BlockNumber p) p (e_state e))"

lemma trySendPrepareVote_sends:
  assumes "last_vote_ok (e_state e)"
  shows "go_post (\<lambda>e'. e' = e \<or> (\<exists>p. \<not> HadSendPreVote p (e_state e) \<and> sends_vote p e e')) (trySendPrepareVote c msg e)"
proof -
  have same: "HadSendPreVote (msg\<lparr>pv_ParentQC := q\<rparr>) vs = HadSendPreVote msg vs" for q and vs :: viewState
    by (simp add: HadSendPreVote_def split: option.split)
  show ?thesis
    by (auto simp: trySendPrepareVote_def AllowVote_def Let_def sends_vote_def same on_state_def split: option.split prod.split
        dest!: tryAddHadSendVote_new [OF assms, of "msg\<lparr>pv_ParentQC := q\<rparr>" for q, unfolded same, simplified]
        intro!: go_postI exI [of _ "msg\<lparr>pv_ParentQC := q\<rparr>" for q])
qed

lemma trySendPreCommit_sends:
  assumes "last_precommit_ok (e_state e)"
  shows "go_post (\<lambda>e'. e' = e \<or> (\<exists>p. \<not> HadSendPreCommit p (e_state e) \<and> sends_precommit p e e')) (trySendPreCommit c msg e)"
proof -
  have same: "HadSendPreCommit (msg\<lparr>pc_ParentQC := q\<rparr>) vs = HadSendPreCommit msg vs" for q and vs :: viewState
    by (simp add: HadSendPreCommit_def split: option.split)
  show ?thesis
    by (auto simp: trySendPreCommit_def AllowPreCommit_def Let_def sends_precommit_def same on_state_def split: option.split prod.split
        dest!: tryAddHadSendPreCommit_new [OF assms, of "msg\<lparr>pc_ParentQC := q\<rparr>" for q, unfolded same, simplified]
        intro!: go_postI exI [of _ "msg\<lparr>pc_ParentQC := q\<rparr>" for q])
qed

lemma sends_vote_inv:
  assumes "vote_inv e" "\<not> HadSendPreVote p (e_state e)" "sends_vote p e e'"
  shows "vote_inv e'" "precommit_inv e' = precommit_inv e" "commit_inv b e' = commit_inv b e"
proof -
  have new: "pv_key q < pv_key p" if "q \<in> set (votes_sent e)" for q
    using that assms(1,2) HadSendPreVote_key [of "e_state e" p] unfolding vote_inv_def
    by (auto simp: not_le intro: le_less_trans)
  show "vote_inv e'" using assms(1,3) new
    by (auto simp: vote_inv_def sends_vote_def view_core_def AddHadSendVoteNumber_def last_vote_ok_def sorted_wrt_append less_imp_le)
  show "precommit_inv e' = precommit_inv e" "commit_inv b e' = commit_inv b e"
    using assms(3) by (simp_all add: precommit_inv_def commit_inv_def sends_vote_def view_core_def AddHadSendVoteNumber_def
        last_precommit_ok_def split: option.split)
qed

lemma sends_precommit_inv:
  assumes "precommit_inv e" "\<not> HadSendPreCommit p (e_state e)" "sends_precommit p e e'"
  shows "precommit_inv e'" "vote_inv e' = vote_inv e" "commit_inv b e' = commit_inv b e"
proof -
  have new: "pc_key q < pc_key p" if "q \<in> set (precommits_sent e)" for q
    using that assms(1,2) HadSendPreCommit_key [of "e_state e" p] unfolding precommit_inv_def
    by (auto simp: not_le intro: le_less_trans)
  show "precommit_inv e'" using assms(1,3) new
    by (auto simp: precommit_inv_def sends_precommit_def view_core_def AddHadSendPreCommitNumber_def last_precommit_ok_def
        sorted_wrt_append less_imp_le)
  show "vote_inv e' = vote_inv e" "commit_inv b e' = commit_inv b e"
    using assms(3) by (simp_all add: vote_inv_def commit_inv_def sends_precommit_def view_core_def AddHadSendPreCommitNumber_def
        last_vote_ok_def split: option.split)
qed

text \<open>A commit posts one block, the successor of the highest committed one, or nothing.\<close>

definition commits :: "block \<Rightarrow> engine \<Rightarrow> engine \<Rightarrow> bool" where
  "commits b e e' \<longleftrightarrow> posted e' = posted e @ [b] \<and> votes_sent e' = votes_sent e \<and> precommits_sent e' = precommits_sent e
     \<and> (\<exists>old. vs_highestCommitBlock (e_state e) = Some old \<and> blk_Number b = blk_Number old + 1)
     \<and> view_core (e_state e') = view_core (SetHighestCommitBlock b (e_state e))"

lemma tryCommitNewBlock_commits: "go_post (\<lambda>e'. calm e e' \<or> (\<exists>b. commits b e e')) (tryCommitNewBlock lock commit qc e)"
proof -
  have old: "HighestCommitBlock (e_state e) = Inr old \<Longrightarrow> vs_highestCommitBlock (e_state e) = Some old" for old
    by (auto simp: HighestCommitBlock_def load_highest_def split: option.splits)
  show ?thesis
    by (auto simp: tryCommitNewBlock_def commitBlock_def commits_def Let_def EncodeExtra_no_error calm_emit calm_refl_out on_state_def old
        intro!: go_postI split: option.split prod.split sum.split)
qed

lemma commits_inv:
  assumes "commits b e e'"
  shows "vote_inv e' = vote_inv e" "precommit_inv e' = precommit_inv e" "commit_inv b0 e \<Longrightarrow> commit_inv b0 e'"
proof -
  show "vote_inv e' = vote_inv e" "precommit_inv e' = precommit_inv e"
    using assms by (simp_all add: commits_def vote_inv_def precommit_inv_def view_core_def SetHighestCommitBlock_def last_vote_ok_def
        last_precommit_ok_def split: option.split)
  show "commit_inv b0 e \<Longrightarrow> commit_inv b0 e'"
    using assms successively_append_iff [of "\<lambda>a b. blk_Number b = blk_Number a + 1" "b0 # posted e" "[b]"]
    by (auto simp: commits_def commit_inv_def view_core_def SetHighestCommitBlock_def)
qed

text \<open>The three operations on all three invariants.\<close>

lemma vote_keeps:
  assumes "vote_inv e"
  shows "go_post (\<lambda>e'. vote_inv e' \<and> precommit_inv e' = precommit_inv e \<and> commit_inv b e' = commit_inv b e) (trySendPrepareVote c p e)"
proof (rule go_post_mono [OF trySendPrepareVote_sends])
  show "last_vote_ok (e_state e)" using assms by (simp add: vote_inv_def)
next
  fix e' assume "e' = e \<or> (\<exists>p. \<not> HadSendPreVote p (e_state e) \<and> sends_vote p e e')"
  then show "vote_inv e' \<and> precommit_inv e' = precommit_inv e \<and> commit_inv b e' = commit_inv b e"
    using assms sends_vote_inv [OF assms] by blast
qed

lemma precommit_keeps:
  assumes "precommit_inv e"
  shows "go_post (\<lambda>e'. precommit_inv e' \<and> vote_inv e' = vote_inv e \<and> commit_inv b e' = commit_inv b e) (trySendPreCommit c p e)"
proof (rule go_post_mono [OF trySendPreCommit_sends])
  show "last_precommit_ok (e_state e)" using assms by (simp add: precommit_inv_def)
next
  fix e' assume "e' = e \<or> (\<exists>p. \<not> HadSendPreCommit p (e_state e) \<and> sends_precommit p e e')"
  then show "precommit_inv e' \<and> vote_inv e' = vote_inv e \<and> commit_inv b e' = commit_inv b e"
    using assms sends_precommit_inv [OF assms] by blast
qed

lemma commit_keeps:
  "go_post (\<lambda>e'. vote_inv e' = vote_inv e \<and> precommit_inv e' = precommit_inv e \<and> (commit_inv b e \<longrightarrow> commit_inv b e'))
    (tryCommitNewBlock l k q e)"
  by (rule go_post_mono [OF tryCommitNewBlock_commits]) (use commits_inv inv_calm in blast)

definition send_inv :: "engine \<Rightarrow> bool" where
  "send_inv e \<longleftrightarrow> vote_inv e \<and> precommit_inv e"

definition all_inv :: "block \<Rightarrow> engine \<Rightarrow> bool" where
  "all_inv b0 e \<longleftrightarrow> send_inv e \<and> commit_inv b0 e"

lemmas inv_defs = all_inv_def send_inv_def

interpretation sending: engine_invariant_all send_inv
proof unfold_locales
  fix e e' assume "send_inv e" "calm e e'"
  then show "send_inv e'" using inv_calm unfolding inv_defs by blast
next
  fix c p e assume "send_inv e"
  then show "go_post send_inv (trySendPrepareVote c p e)" by (intro go_post_mono [OF vote_keeps]) (auto simp: inv_defs)
next
  fix c p e assume "send_inv e"
  then show "go_post send_inv (trySendPreCommit c p e)" by (intro go_post_mono [OF precommit_keeps]) (auto simp: inv_defs)
next
  fix l k b e assume "send_inv e"
  then show "go_post send_inv (tryCommitNewBlock l k b e)" by (intro go_post_mono [OF commit_keeps]) (auto simp: inv_defs)
next
  fix b e assume "send_inv e"
  then show "send_inv (on_state (set_all_highest b) e)"
    by (simp add: inv_defs vote_inv_def precommit_inv_def last_vote_ok_def last_precommit_ok_def set_all_highest_def on_state_def
        sent_defs SetHighestCommitBlock_def SetHighestLockBlock_def SetHighestPreCommitQCBlock_def SetHighestQCBlock_def
        split: option.splits)
qed

interpretation committing: engine_invariant "all_inv b0" for b0
proof unfold_locales
  fix e e' assume "all_inv b0 e" "calm e e'"
  then show "all_inv b0 e'" using inv_calm unfolding inv_defs by blast
next
  fix c p e assume "all_inv b0 e"
  then show "go_post (all_inv b0) (trySendPrepareVote c p e)"
    by (intro go_post_mono [OF vote_keeps [of e b0]]) (auto simp: inv_defs)
next
  fix c p e assume "all_inv b0 e"
  then show "go_post (all_inv b0) (trySendPreCommit c p e)"
    by (intro go_post_mono [OF precommit_keeps [of e b0]]) (auto simp: inv_defs)
next
  fix l k b e assume "all_inv b0 e"
  then show "go_post (all_inv b0) (tryCommitNewBlock l k b e)"
    by (intro go_post_mono [OF commit_keeps [of e b0]]) (auto simp: inv_defs)
qed

lemma send_inv_sorted:
  assumes "send_inv e"
  shows "sorted_wrt (<) (map pv_key (votes_sent e))" "sorted_wrt (<) (map pc_key (precommits_sent e))"
  using assms by (simp_all add: inv_defs vote_inv_def precommit_inv_def)

text \<open>An engine that has sent nothing and whose record of the last vote agrees: after \<open>Start\<close>, or with the votes of an
  earlier run restored.\<close>

definition fresh :: "engine \<Rightarrow> bool" where
  "fresh e \<longleftrightarrow> last_vote_ok (e_state e) \<and> last_precommit_ok (e_state e) \<and> votes_sent e = [] \<and> precommits_sent e = []"

lemma fresh_send_inv: "fresh e \<Longrightarrow> send_inv e"
  by (simp add: fresh_def inv_defs vote_inv_def precommit_inv_def)

text \<open>What holds right after \<open>Start\<close>.\<close>

definition fresh_at :: "block \<Rightarrow> engine \<Rightarrow> bool" where
  "fresh_at b e \<longleftrightarrow> fresh e \<and> posted e = [] \<and> HighestCommitBlock (e_state e) = Inr b"

lemma HighestCommitBlock_Inr: "HighestCommitBlock vs = Inr b \<longleftrightarrow> vs_highestCommitBlock vs = Some b"
  by (simp add: HighestCommitBlock_def load_highest_def split: option.split)

interpretation starting: calm_closed "fresh_at b" for b
proof unfold_locales
  fix e e' assume "fresh_at b e" "calm e e'"
  then show "fresh_at b e'" using calm_sent [of e e']
    by (simp add: fresh_at_def fresh_def HighestCommitBlock_Inr calm_def view_core_def last_vote_ok_def last_precommit_ok_def
        split: option.splits)
qed

lemma fresh_at_all_inv: "fresh_at b e \<Longrightarrow> all_inv b e"
  by (simp add: fresh_at_def all_inv_def fresh_send_inv commit_inv_def HighestCommitBlock_Inr)

lemma Start_fresh:
  assumes "Start c period ev block = Inr (Inr e)"
  shows "fresh_at block e"
proof -
  have init: "fresh_at block \<lparr>e_state = set_all_highest block (NewViewState t period), e_tree = tr, e_vp = vp, e_cs = cs, e_sync = sc,
      e_ev = ev, e_tasks = ts, e_loading = l, e_syncing = s, e_fetching = f, e_out = []\<rparr>" for t tr vp cs sc ts l s f
    by (simp add: fresh_at_def fresh_def HighestCommitBlock_Inr last_vote_ok_def last_precommit_ok_def set_all_highest_def
        sent_defs SetHighestCommitBlock_def SetHighestLockBlock_def SetHighestPreCommitQCBlock_def SetHighestQCBlock_def
        NewViewState_def newView_def view.defs map_filter_simps)
  have "go_post (\<lambda>r. case r of Inl _ \<Rightarrow> True | Inr e \<Rightarrow> fresh_at block e) (Start c period ev block)"
    by (auto simp: Start_def Let_def init_view_def
        split: option.splits intro!: init go_post_all [where m = "NewBlockTree a b" for a b]
          go_post_all [where m = "NewValidatorPool a b d f" for a b d f]
          starting.I_changeView [THEN go_post_mono] starting.I_tryChangeView [THEN go_post_mono])
  then show ?thesis using assms by simp
qed

section \<open>Pre-commits follow certificates\<close>

definition precommit_for :: "preCommit \<Rightarrow> quorumCert \<Rightarrow> bool" where
  "precommit_for p qc \<longleftrightarrow> pc_Epoch p = q_Epoch qc \<and> pc_ViewNumber p = q_ViewNumber qc \<and> pc_BlockHash p = q_BlockHash qc
     \<and> pc_BlockNumber p = q_BlockNumber qc \<and> pc_BlockIndex p = q_BlockIndex qc"

definition precommits_on :: "(quorumCert \<Rightarrow> bool) \<Rightarrow> engine \<Rightarrow> engine \<Rightarrow> bool" where
  "precommits_on Q e e' \<longleftrightarrow> precommits_sent e' = precommits_sent e
     \<or> (\<exists>p qc. precommits_sent e' = precommits_sent e @ [p] \<and> precommit_for p qc \<and> Q qc)"

interpretation unsent: calm_closed "\<lambda>e. precommits_sent e = ps" for ps
  by unfold_locales (simp add: calm_sent)

lemma trySendPreCommit_on:
  "go_post (\<lambda>e'. precommits_sent e' = precommits_sent e \<or> (\<exists>q. precommits_sent e' = precommits_sent e @ [msg\<lparr>pc_ParentQC := q\<rparr>]))
    (trySendPreCommit c msg e)"
  by (auto simp: trySendPreCommit_def Let_def on_state_def intro!: go_postI split: option.split prod.split)

lemma signMsgByBls_pc_fields: "signMsgByBls_pc c m = Inr (Some m') \<Longrightarrow> \<exists>s. m' = m\<lparr>pc_Signature := s\<rparr>"
  by (cases "CannibalizeBytes_pc (c_keccak c) m")
    (auto simp: signMsgByBls_pc_def signDigest_def SetSign_pc_def split: sum.splits)

lemma genPreCommit_on:
  assumes "Q qc"
  shows "go_post (precommits_on Q e) (genPreCommit c qc e)"
proof -
  have "go_post (precommits_on Q e) (trySendPreCommit c m e)" if "precommit_for m qc" for m
    using that assms by (intro go_post_mono [OF trySendPreCommit_on]) (auto simp: precommits_on_def precommit_for_def)
  then show ?thesis
    by (auto simp: genPreCommit_def Let_def precommits_on_def [of Q e e] precommit_for_def split: option.split sum.split prod.split
        intro!: reads go_postI [where m = "signMsgByBls_pc a b" for a b] dest!: signMsgByBls_pc_fields)
qed

lemma on_prepare_qc_on: "Q qc \<Longrightarrow> precommits_sent e = precommits_sent e0 \<Longrightarrow> go_post (precommits_on Q e0) (on_prepare_qc c qc e)"
  unfolding on_prepare_qc_def
  by (rule go_post_mono [OF genPreCommit_on]) (auto simp: precommits_on_def)

text \<open>A certificate the engine \<open>e\<close> itself built from the votes of a quorum.\<close>

definition own_certificate :: "env \<Rightarrow> engine \<Rightarrow> quorumCert \<Rightarrow> bool" where
  "own_certificate c e qc \<longleftrightarrow> (\<exists>votes n. currentValidatorLen e = Inr n \<and> threshold n \<le> length votes
     \<and> generatePrepareQC (c_bls c) (e_vp e) (v_epoch (e_state e)) votes = Inr (Some qc))"

lemma findPreVoteQC_on:
  assumes "precommits_sent e = precommits_sent e0" "e_vp e = e_vp e0" "v_epoch (e_state e) = v_epoch (e_state e0)"
  shows "go_post (precommits_on (own_certificate c e0) e0) (findPreVoteQC c n e)"
proof -
  have "own_certificate c e0 qc" if "currentValidatorLen e = Inr k" "threshold k \<le> PrepareVoteLenByNumber n (e_state e)"
    "generatePrepareQC (c_bls c) (e_vp e) (v_epoch (e_state e)) (AllPrepareVoteByNumber n (e_state e)) = Inr (Some qc)" for k qc
    using that assms unfolding own_certificate_def currentValidatorLen_def
    by (auto simp: PrepareVoteLenByNumber_def AllPrepareVoteByNumber_def split: option.splits)
  then show ?thesis using assms
    by (auto simp: findPreVoteQC_def precommits_on_def [of _ e0 e] split: option.split
        intro!: go_postI [where m = "currentValidatorLen a" for a] go_postI [where m = "generatePrepareQC a b d f" for a b d f]
          unsent.I_TrySet(1) [THEN go_post_mono] on_prepare_qc_on)
qed
lemma precommits_same: "precommits_sent e' = precommits_sent e \<Longrightarrow> precommits_on Q e e'"
  by (simp add: precommits_on_def)

lemma OnPrepareVote_on: "go_post (\<lambda>(err, e'). precommits_on (own_certificate c e) e e') (OnPrepareVote c peer m e)"
proof -
  have rule: "go_post (\<lambda>(err, e'). precommits_on (own_certificate c e) e e')
      (vote_rule_error c peer (CPrepareVote m) (pv_ParentQC m) (prepareVoteFetchRules c peer m) er e)" for er
    by (rule go_post_mono [OF unsent.I_vote_rule_error [where ps = "precommits_sent e"]])
      (auto intro: precommits_same unsent.I_fetchRules)
  have accept: "go_post (precommits_on (own_certificate c e) e) (findPreVoteQC c n (on_state f (e\<lparr>e_ev := ev\<rparr>)))"
    if "\<And>vs. v_epoch (f vs) = v_epoch vs" for n f ev
    using that by (intro findPreVoteQC_on) (simp_all add: on_state_def precommits_sent_def)
  show ?thesis
    by (auto simp: OnPrepareVote_def checked_def precommits_sent_def UpdateStep_def AddPrepareVote_def intro!: rule accept precommits_same
        go_post_all [where m = "PrepareVoteRules a b d f g" for a b d f g]
        go_post_all [where m = "verifyConsensusMsg a b d f g h i j" for a b d f g h i j]
        split: option.split sum.split prod.split)
qed

lemma OnBlockQuorumCert_on:
  "go_post (\<lambda>(err, e'). precommits_on (\<lambda>qc. qc = bq_BlockQC b
      \<and> verifyPrepareQC (c_bls c) (c_keccak c) (e_vp e) (q_BlockNumber qc) (q_BlockHash qc) (Some qc) = Inr None) e e')
    (OnBlockQuorumCert c b e)"
proof -
  have "n = q_BlockNumber q \<and> h = q_BlockHash q" if "verifyPrepareQC B k vp n h (Some q) = Inr None" for B k vp n h q
    using verifyPrepareQC_sound [OF that] by blast
  then show ?thesis
    by (auto simp: OnBlockQuorumCert_def Let_def intro!: precommits_same go_postI [where m = "verifyPrepareQC a b d f g h" for a b d f g h]
        unsent.I_TrySet(1) [THEN go_post_mono] on_prepare_qc_on split: sum.split)
qed

section \<open>A running engine\<close>

text \<open>Validator \<open>i\<close> of four, at block 7 in view 2 of epoch 1, with block 5 (its hash) known and not yet executed.\<close>

definition ex_block :: block where
  "ex_block = pb_Block (ev_block 5)"

definition ex_parent :: block where
  "ex_parent = \<lparr>blk_Hash = 3, blk_Number = 6, blk_ParentHash = 2, blk_Time = 0, blk_Rlp = [2]\<rparr>"

definition ex_qc :: quorumCert where
  "ex_qc = \<lparr>q_Epoch = 1, q_ViewNumber = 1, q_BlockHash = 3, q_BlockNumber = 6, q_BlockIndex = 0, q_Step = RoundStepPreCommit,
     q_Signature = zero_sig, q_ValidatorSet = None\<rparr>"

definition ex_env :: "u32 \<Rightarrow> env" where
  "ex_env i = \<lparr>c_now = 0, c_keccak = (\<lambda>_. replicate 32 0), c_bls = sum_bls, c_sign = (\<lambda>_. replicate SignatureLength (ucast i)),
     c_self = 10 + ucast i, c_agency = staticAgency cert_validators, c_amount = 10, c_headerOK = (\<lambda>_. True),
     c_faults = no_faults, c_exec = (\<lambda>_ _. True), c_seen = (\<lambda>_. False), c_peerErr = (\<lambda>_. False),
     c_extra = (\<lambda>_. None), c_walViewChangeQC = (\<lambda>_ _ _. None)\<rparr>"

definition ex_state :: viewState where
  "ex_state = AddPrepareBlock (ev_block 5) (set_all_highest ex_parent (ResetView 1 2 7 (NewViewState 0 10000)))"

definition ex_tree :: blockTree where
  "ex_tree = \<lparr>bt_heap = [new_ext ex_parent (Some ex_qc) 1], bt_root = Some 0, bt_blocks = [(6, [(3, 0)])]\<rparr>"

definition ex_engine :: engine where
  "ex_engine = \<lparr>e_state = ex_state, e_tree = ex_tree, e_vp = cert_pool, e_cs = NewCSMsgPool,
     e_sync = NewSyncCache syncCacheTimeout, e_ev = NewBaseEvidencePool [], e_tasks = [], e_loading = False, e_syncing = False,
     e_fetching = False, e_out = []\<rparr>"

definition ex_vote :: "u32 \<Rightarrow> prepareVote" where
  "ex_vote i = (cert_vote i)\<lparr>pv_ParentQC := Some ex_qc\<rparr>"

lemma fresh_ex_engine: "fresh ex_engine"
  by (simp add: fresh_def ex_engine_def ex_state_def sent_defs map_filter_simps last_vote_ok_def last_precommit_ok_def
      AddPrepareBlock_def set_all_highest_def SetHighestCommitBlock_def SetHighestLockBlock_def SetHighestPreCommitQCBlock_def
      SetHighestQCBlock_def ResetView_def Reset_view_def NewViewState_def newView_def view.defs)

text \<open>Executing the block makes the engine vote for it.\<close>

lemma signMsgByBls_pv_eq: "signMsgByBls_pv c p = Inr (Some (SetSign_pv (c_sign c (c_keccak c (preimage_pv p))) p))"
  unfolding signMsgByBls_pv_def signDigest_def CannibalizeBytes_pv_def preimage_pv_def
    cannibalize_digest6 [unfolded digest6_def] by simp

abbreviation ex_state' :: viewState where
  "ex_state' \<equiv> SetMaxExecutedBlockNumber 7 (SetExecuting 0 True ex_state)"

lemma ex_state_facts:
  "ViewBlockByIndex 7 ex_state = Some ex_block" "ViewBlockByIndex 7 ex_state' = Some ex_block"
  "v_epoch ex_state' = 1" "v_viewNumber ex_state' = 2" "v_blockNumber ex_state' = 7" "IsDeadline 0 ex_state' = False"
  "v_hadSendVoteNumber ex_state' = 0" "v_hadSendVoteLast ex_state' = None"
  "FindBlockAndQC ex_tree 3 6 = (Some ex_parent, Some ex_qc)" "Len_vp cert_pool 1 = Inr 4"
  "v_viewVotes ex_state' = []"
  by code_simp+

lemma ex_votes:
  assumes "GetValidatorByNodeID cert_pool 1 (10 + ucast i) = Inr (Inr (cert_node i))"
  shows "\<exists>e. run [(ex_env i, EExecuted 5 7 False)] ex_engine = Inr e \<and> votes_sent e = [ex_vote i] \<and> precommits_sent e = []"
proof -
  have len: "PrepareVoteLenByNumber 7 (AddPrepareVote i p (AddHadSendVoteNumber 7 p ex_state')) = 1" if "pv_BlockNumber p = 7" for p
    using that ex_state_facts(11)
    by (simp add: PrepareVoteLenByNumber_def AddPrepareVote_def AddHadSendVoteNumber_def addVote_def addPrepareVote_def
        ViewCacheLen_def gset_def gget_def Let_def)
  have "v_epoch (AddPrepareVote i p (AddHadSendVoteNumber 7 p ex_state')) = 1" "v_epoch (AddHadSendVoteNumber 7 p ex_state') = 1" for i p
    using ex_state_facts(3) by (simp_all add: AddPrepareVote_def AddHadSendVoteNumber_def)
  then show ?thesis
    using assms ex_state_facts len
    by (simp add: run_def onAsyncExecuteStatus_def ex_engine_def ex_env_def isCurrentValidator_def signBlock_def signMsgByBls_pv_eq
        on_state_def trySendPrepareVote_def AllowVote_def HadSendPreVote_def SetSign_pv_def ex_block_def ev_block_def Let_def
        tryAddHadSendVote_def own_index_def ptr_of_def findPreVoteQC_def currentValidatorLen_def threshold_def cert_node_def
        ex_vote_def cert_vote_def ev_vote_def SetBytes_def go_copy_def votes_sent_def precommits_sent_def emit_def map_filter_simps)
qed

lemma ex_validators:
  "GetValidatorByNodeID cert_pool 1 (10 + ucast (0 :: u32)) = Inr (Inr (cert_node 0))"
  "GetValidatorByNodeID cert_pool 1 (10 + ucast (2 :: u32)) = Inr (Inr (cert_node 2))"
  "GetValidatorByNodeID cert_pool 1 (10 + ucast (3 :: u32)) = Inr (Inr (cert_node 3))"
  by code_simp+

section \<open>Properties\<close>

text \<open>C2: An engine never votes twice.  Whatever messages, timeouts, execution results, sealed blocks, insertions and
  fast synchronisations a fresh engine handles, the votes it broadcasts are strictly increasing in (block number,
  epoch, view), and so are its pre-commits; it has at most one of each per number, epoch and view.\<close>
theorem engine_votes_once:
  assumes "fresh e0" "run evs e0 = Inr e"
  shows "sorted_wrt (<) (map pv_key (votes_sent e)) \<and> sorted_wrt (<) (map pc_key (precommits_sent e))"
  using go_postD [OF sending.I_run_all [OF fresh_send_inv [OF assms(1)]] assms(2)] send_inv_sorted by blast

theorem engine_votes_once_witness:
  "\<exists>e. run [(ex_env 0, EExecuted 5 7 False)] ex_engine = Inr e \<and> votes_sent e = [ex_vote 0]
    \<and> sorted_wrt (<) (map pv_key (votes_sent e)) \<and> sorted_wrt (<) (map pc_key (precommits_sent e))"
  using ex_votes [OF ex_validators(1)] engine_votes_once [OF fresh_ex_engine] by blast

text \<open>C3: Blocks are committed in order and without gaps.  After any events but a fast synchronisation, the blocks the
  engine has posted to the chain continue the block it started from, each with the number after its predecessor,
  and the last of them is the highest committed block.\<close>
theorem commits_in_order:
  assumes "fresh_at b0 e0" "run evs e0 = Inr e" "\<forall>c b. (c, EFastSync b) \<notin> set evs"
  shows "successively (\<lambda>a b. blk_Number b = blk_Number a + 1) (b0 # posted e)
    \<and> HighestCommitBlock (e_state e) = Inr (last (b0 # posted e))"
  using go_postD [OF committing.I_run [OF fresh_at_all_inv [OF assms(1)]] assms(2)] assms(3)
  by (auto simp: all_inv_def commit_inv_def HighestCommitBlock_Inr)

lemma fresh_at_ex_engine: "fresh_at ex_parent ex_engine"
proof -
  have "HighestCommitBlock ex_state = Inr ex_parent" by code_simp
  then show ?thesis using fresh_ex_engine by (simp add: fresh_at_def posted_def ex_engine_def map_filter_simps)
qed

theorem commits_in_order_witness:
  "\<exists>e. run [(ex_env 0, EExecuted 5 7 False)] ex_engine = Inr e \<and> HighestCommitBlock (e_state e) = Inr (last (ex_parent # posted e))"
  using ex_votes [OF ex_validators(1)] commits_in_order [OF fresh_at_ex_engine, of "[(ex_env 0, EExecuted 5 7 False)]"] by auto


definition ex_genesis :: block where
  "ex_genesis = \<lparr>blk_Hash = 9, blk_Number = 0, blk_ParentHash = 0, blk_Time = 0, blk_Rlp = [9]\<rparr>"



end
