(* ===== verification/Hex_Keys.thy ===== *)
theory Hex_Keys
  imports Prelude
begin

text \<open>
  The three encodings of trie keys (\<open>ethereum/trie/encoding.go\<close>): key bytes, hex (one nibble per byte, the
  terminator 16 at the end of a full key) and the compact form stored in the database.  The compact form and
  the hex form determine each other.
\<close>

section \<open>Model\<close>

fun prefixLen :: "bytes \<Rightarrow> bytes \<Rightarrow> nat" where
  "prefixLen (a # as) (b # bs) = (if a = b then Suc (prefixLen as bs) else 0)"
| "prefixLen _ _ = 0"

definition hasTerm :: "bytes \<Rightarrow> bool" where
  "hasTerm s \<longleftrightarrow> length s > 0 \<and> last s = 16"

definition keybytesToHex :: "bytes \<Rightarrow> bytes" where
  "keybytesToHex str = concat (map (\<lambda>b. [b div 16, b mod 16]) str) @ [16]"

fun decodeNibbles :: "bytes \<Rightarrow> bytes \<Rightarrow> bytes go" where
  "decodeNibbles [] bs = Inr bs"
| "decodeNibbles (x # y # ns) (b # bs) = go_map ((#) (push_bit 4 x OR y)) (decodeNibbles ns bs)"
| "decodeNibbles _ _ = Inl IndexOutOfRange"

definition hexToCompact :: "bytes \<Rightarrow> bytes go" where
  "hexToCompact hex =
     (let (terminator, hex) = (if hasTerm hex then (1, butlast hex) else (0, hex));
          buf = replicate (length hex div 2 + 1) 0;
          flag = push_bit 5 terminator
      in if odd (length hex)
         then go_map ((#) (flag OR push_bit 4 1 OR hd hex)) (decodeNibbles (tl hex) (tl buf))
         else go_map ((#) flag) (decodeNibbles hex (tl buf)))"

definition compactToHex :: "bytes \<Rightarrow> bytes" where
  "compactToHex compact =
     (if length compact = 0 then compact
      else let base = keybytesToHex compact;
               base = (if base ! 0 < 2 then butlast base else base);
               chop = 2 - (base ! 0 AND 1)
           in drop (unat chop) base)"

definition hexToKeybytes :: "bytes \<Rightarrow> bytes go" where
  "hexToKeybytes hex =
     (let hex = (if hasTerm hex then butlast hex else hex)
      in if odd (length hex) then Inl (Explicit ''can't convert hex key of odd length'')
         else decodeNibbles hex (replicate (length hex div 2) 0))"

section \<open>Nibbles\<close>

abbreviation nibbles :: "bytes \<Rightarrow> bool" where
  "nibbles ns \<equiv> \<forall>n\<in>set ns. n < 16"

text \<open>A hex key: nibbles, with or without the terminator.\<close>

definition hex_key :: "bytes \<Rightarrow> bool" where
  "hex_key h \<longleftrightarrow> nibbles h \<or> (\<exists>ns. nibbles ns \<and> h = ns @ [16])"

lemma nibble_mem: "x < (16 :: u8) \<Longrightarrow> x \<in> set (map word_of_nat [0..<16])"
  unfolding set_map by (rule image_eqI [of _ _ "unat x"]) (simp_all add: word_less_nat_alt)

lemma nibble_pair:
  fixes x y :: u8
  assumes "x < 16" "y < 16"
  shows "(push_bit 4 x OR y) div 16 = x" "(push_bit 4 x OR y) mod 16 = y"
proof -
  have "\<forall>x\<in>set (map word_of_nat [0..<16]). \<forall>y\<in>set (map word_of_nat [0..<16]).
      (push_bit 4 x OR y :: u8) div 16 = x \<and> (push_bit 4 x OR y) mod 16 = y" by code_simp
  then show "(push_bit 4 x OR y) div 16 = x" "(push_bit 4 x OR y) mod 16 = y"
    using nibble_mem [OF assms(1)] nibble_mem [OF assms(2)] by blast+
qed

lemma byte_nibbles: "push_bit 4 (b div 16) OR (b mod 16) = (b :: u8)" "b div 16 < 16" "b mod 16 < 16"
proof -
  have "b \<in> set (map word_of_nat [0..<256])"
    unfolding set_map by (rule image_eqI [of _ _ "unat b"]) (use unsigned_less [of b, where 'a = nat] in simp_all)
  moreover have "\<forall>b\<in>set (map word_of_nat [0..<256]). push_bit 4 (b div 16) OR (b mod 16) = (b :: u8) \<and> b div 16 < 16 \<and> b mod 16 < 16"
    by code_simp
  ultimately show "push_bit 4 (b div 16) OR (b mod 16) = b" "b div 16 < 16" "b mod 16 < 16" by blast+
qed

lemma nibbles_keybytesToHex: "nibbles (butlast (keybytesToHex k))"
  by (auto simp: keybytesToHex_def byte_nibbles)

lemma keybytesToHex_hex: obtains ns where "keybytesToHex k = ns @ [16]" "nibbles ns"
  using nibbles_keybytesToHex [of k] by (simp add: keybytesToHex_def)

section \<open>Round trips\<close>

text \<open>An even number of nibbles, read back from the bytes they fill.\<close>

lemma decodeNibbles_even:
  assumes "nibbles ns" "even (length ns)"
  shows "\<exists>bs. decodeNibbles ns (replicate (length ns div 2) 0) = Inr bs \<and> concat (map (\<lambda>b. [b div 16, b mod 16]) bs) = ns"
  using assms
proof (induction ns rule: induct_list012)
  case (3 x y ns)
  then obtain bs where "decodeNibbles ns (replicate (length ns div 2) 0) = Inr bs"
    "concat (map (\<lambda>b. [b div 16, b mod 16]) bs) = ns" by auto
  then show ?case using 3(3) by (auto simp: nibble_pair)
qed simp_all

lemma flag_nibbles:
  fixes x :: u8
  assumes "x < 16" "t = 0 \<or> t = 1"
  shows "(push_bit 5 t OR push_bit 4 1 OR x) div 16 = 2 * t + 1" "(push_bit 5 t OR push_bit 4 1 OR x) mod 16 = x"
proof -
  have "\<forall>x\<in>set (map word_of_nat [0..<16]). \<forall>t\<in>set [0, 1]. (push_bit 5 t OR push_bit 4 1 OR x :: u8) div 16 = 2 * t + 1
      \<and> (push_bit 5 t OR push_bit 4 1 OR x) mod 16 = x" by code_simp
  then show "(push_bit 5 t OR push_bit 4 1 OR x) div 16 = 2 * t + 1" "(push_bit 5 t OR push_bit 4 1 OR x) mod 16 = x"
    using nibble_mem [OF assms(1)] assms(2) by auto
qed

lemma compact_body:
  assumes "nibbles ns" "t = 0 \<or> t = 1"
  shows "\<exists>c. (if odd (length ns) then go_map ((#) (push_bit 5 t OR push_bit 4 1 OR hd ns)) (decodeNibbles (tl ns) (tl (replicate (length ns div 2 + 1) 0)))
      else go_map ((#) (push_bit 5 t)) (decodeNibbles ns (tl (replicate (length ns div 2 + 1) 0)))) = Inr c
    \<and> compactToHex c = ns @ (if t = 1 then [16] else [])"
proof (cases "odd (length ns)")
  case True
  then obtain x ns' where ns: "ns = x # ns'" "even (length ns')" by (cases ns) auto
  then obtain bs where "decodeNibbles ns' (replicate (length ns' div 2) 0) = Inr bs"
    "concat (map (\<lambda>b. [b div 16, b mod 16]) bs) = ns'" using decodeNibbles_even [of ns'] assms(1) by auto
  then show ?thesis using True ns assms flag_nibbles [of x t]
    by (auto simp: compactToHex_def keybytesToHex_def Let_def)
next
  case False
  then obtain bs where "decodeNibbles ns (replicate (length ns div 2) 0) = Inr bs"
    "concat (map (\<lambda>b. [b div 16, b mod 16]) bs) = ns" using decodeNibbles_even [of ns] assms(1) by auto
  moreover have "(push_bit 5 1 :: u8) div 16 = 2" "(push_bit 5 1 :: u8) mod 16 = 0" by code_simp+
  ultimately show ?thesis using False assms(2) by (auto simp: compactToHex_def keybytesToHex_def Let_def)
qed

lemma hasTerm_simps [simp]: "hasTerm (ns @ [16])" "nibbles ns \<Longrightarrow> \<not> hasTerm ns"
  by (simp_all add: hasTerm_def) (metis last_in_set less_irrefl)

lemma compact_roundtrip:
  assumes "hex_key h"
  obtains c where "hexToCompact h = Inr c" "compactToHex c = h"
proof -
  consider "nibbles h" | ns where "nibbles ns" "h = ns @ [16]" using assms unfolding hex_key_def by blast
  then show thesis
  proof cases
    case 1
    then obtain c where "hexToCompact h = Inr c" "compactToHex c = h"
      using compact_body [of h 0] unfolding hexToCompact_def Let_def by (auto simp del: replicate.simps split del: if_split)
    then show thesis by (rule that)
  next
    case (2 ns)
    then obtain c where "hexToCompact h = Inr c" "compactToHex c = h"
      using compact_body [of ns 1] unfolding hexToCompact_def Let_def by (auto simp del: replicate.simps split del: if_split)
    then show thesis by (rule that)
  qed
qed

lemma hexToCompact_inj:
  assumes "hex_key a" "hex_key b" "hexToCompact a = hexToCompact b"
  shows "a = b"
proof -
  obtain c where "hexToCompact a = Inr c" "compactToHex c = a" using compact_roundtrip [OF assms(1)] .
  moreover obtain d where "hexToCompact b = Inr d" "compactToHex d = b" using compact_roundtrip [OF assms(2)] .
  ultimately show ?thesis using assms(3) by simp
qed

lemma decodeNibbles_keybytes:
  "decodeNibbles (concat (map (\<lambda>b. [b div 16, b mod 16]) k)) (replicate (length k) 0) = Inr k"
  by (induction k) (simp_all add: byte_nibbles)

lemma keybytes_roundtrip: "hexToKeybytes (keybytesToHex k) = Inr k"
proof -
  have len: "length (concat (map (\<lambda>b. [b div 16, b mod 16]) k)) = 2 * length k" by (induction k) simp_all
  show ?thesis using decodeNibbles_keybytes [of k] by (simp add: hexToKeybytes_def keybytesToHex_def Let_def len)
qed

lemma keybytesToHex_inj: "keybytesToHex a = keybytesToHex b \<Longrightarrow> a = b"
  by (metis keybytes_roundtrip sum.inject(2))

section \<open>Common prefixes\<close>

lemma prefixLen_le: "prefixLen a b \<le> length a" "prefixLen a b \<le> length b"
  by (induction a b rule: prefixLen.induct) simp_all

lemma prefixLen_append [simp]: "prefixLen (p @ a) (p @ b) = length p + prefixLen a b"
  by (induction p) simp_all

lemma prefixLen_left [simp]: "prefixLen (p @ a) p = length p"
  by (induction p) simp_all

lemma prefixLen_same [simp]: "prefixLen p p = length p"
  by (induction p) simp_all

lemma prefixLen_take: "take (prefixLen a b) a = take (prefixLen a b) b"
  by (induction a b rule: prefixLen.induct) simp_all

lemma prefixLen_differs:
  "prefixLen a b < length a \<Longrightarrow> prefixLen a b < length b \<Longrightarrow> a ! prefixLen a b \<noteq> b ! prefixLen a b"
  by (induction a b rule: prefixLen.induct) auto

lemma prefixLen_full: "prefixLen a b = length b \<longleftrightarrow> take (length b) a = b"
proof
  show "prefixLen a b = length b \<Longrightarrow> take (length b) a = b" using prefixLen_take [of a b] by simp
  show "take (length b) a = b \<Longrightarrow> prefixLen a b = length b"
    by (induction a b rule: prefixLen.induct) auto
qed

end
