(* ===== verification/Patricia_Trie.thy ===== *)
theory Patricia_Trie
  imports Hex_Keys
begin

text \<open>
  The Merkle Patricia trie that holds accounts, storage, transactions and receipts
  (\<open>ethereum/trie/trie.go\<close>, node types of \<open>node.go\<close>).  A subtrie may be given by its hash only; it is
  then loaded from the database when an operation reaches it, so every operation may fail with a missing
  node.  The database is the parameter \<open>load\<close> (\<open>Database.node\<close>).  An operation on a damaged database need not
  return: the recursive functions are partial, \<open>None\<close> is not returning.  The parallel hasher \<open>dag\<close> is
  never created by the code (its constructor calls are commented out) and is left out.

  \<open>trie\<close> is a trie with everything loaded, \<open>rep\<close> says which trie a node stands for, \<open>content\<close> the map from hex keys to
  values, \<open>canon\<close> the shape the code keeps: no empty branches, no chains of short nodes.  A trie in this shape is
  determined by its content.
\<close>

section \<open>Model\<close>

record nodeFlag =
  nf_hash :: bytes
  nf_dirty :: bool

datatype node = NilNode | ValueNode bytes | ShortNode bytes node nodeFlag | FullNode "node list" nodeFlag | is_HashNode: HashNode bytes

datatype trieErr = MissingNodeError bytes bytes | TriePanic go_panic

type_synonym 'a tr = "(trieErr + 'a) option"
type_synonym loader = "bytes \<Rightarrow> node option tr"

definition tbind :: "('e + 'a) option \<Rightarrow> ('a \<Rightarrow> ('e + 'b) option) \<Rightarrow> ('e + 'b) option" where
  "tbind m f = Option.bind m (\<lambda>r. case r of Inl e \<Rightarrow> Some (Inl e) | Inr x \<Rightarrow> f x)"

definition tret :: "'a \<Rightarrow> ('e + 'a) option" where "tret x = Some (Inr x)"

definition tlift :: "'a go \<Rightarrow> 'a tr" where "tlift m = Some (map_sum TriePanic id m)"

lemma tbind_mono [partial_function_mono]:
  assumes m: "mono_option m" and g: "\<And>y. mono_option (\<lambda>f. g f y)"
  shows "mono_option (\<lambda>f. tbind (m f) (\<lambda>y. g f y))"
  unfolding tbind_def
proof (rule bind_mono [OF m])
  show "mono_option (\<lambda>f. case y of Inl e \<Rightarrow> Some (Inl e) | Inr x \<Rightarrow> g f x)" for y
    by (cases y) (simp_all add: g option.const_mono)
qed

definition newFlag :: nodeFlag where
  "newFlag = \<lparr>nf_hash = [], nf_dirty = True\<rparr>"

definition resolveHash :: "loader \<Rightarrow> bytes \<Rightarrow> bytes \<Rightarrow> node tr" where
  "resolveHash load n prefix =
     (let hash = BytesToHash n
      in tbind (load hash) (\<lambda>r. case r of Some node \<Rightarrow> tret node | None \<Rightarrow> Some (Inl (MissingNodeError hash prefix))))"

definition resolve :: "loader \<Rightarrow> node \<Rightarrow> bytes \<Rightarrow> node tr" where
  "resolve load n prefix = (case n of HashNode h \<Rightarrow> resolveHash load h prefix | _ \<Rightarrow> tret n)"

partial_function (option) tryGet :: "loader \<Rightarrow> node \<Rightarrow> bytes \<Rightarrow> nat \<Rightarrow> (bytes option \<times> node \<times> bool) tr" where
  "tryGet load origNode key pos =
     (case origNode of
        NilNode \<Rightarrow> tret (None, NilNode, False)
      | ValueNode v \<Rightarrow> tret (Some v, origNode, False)
      | ShortNode k val flags \<Rightarrow>
          if length key - pos < length k \<or> k \<noteq> take (length k) (drop pos key) then tret (None, origNode, False)
          else tbind (tryGet load val key (pos + length k)) (\<lambda>(value, newnode, didResolve).
            tret (value, if didResolve then ShortNode k newnode flags else origNode, didResolve))
      | FullNode children flags \<Rightarrow> tbind (tlift (go_index key pos)) (\<lambda>x. tbind (tlift (go_index children (unat x))) (\<lambda>child.
          tbind (tryGet load child key (pos + 1)) (\<lambda>(value, newnode, didResolve).
            tret (value, if didResolve then FullNode (children[unat x := newnode]) flags else origNode, didResolve))))
      | HashNode h \<Rightarrow> tbind (resolveHash load h (take pos key)) (\<lambda>child.
          tbind (tryGet load child key pos) (\<lambda>(value, newnode, _). tret (value, newnode, True))))"

definition set_child :: "node list \<Rightarrow> u8 \<Rightarrow> node \<Rightarrow> node list tr" where
  "set_child children x n = (if unat x < length children then tret (children[unat x := n]) else Some (Inl (TriePanic IndexOutOfRange)))"

partial_function (option) insert_node :: "loader \<Rightarrow> node \<Rightarrow> bytes \<Rightarrow> bytes \<Rightarrow> node \<Rightarrow> (bool \<times> node) tr" where
  "insert_node load n prefix key value =
     (if length key = 0
      then (case n of ValueNode v \<Rightarrow> (case value of ValueNode w \<Rightarrow> tret (v \<noteq> w, value)
                | _ \<Rightarrow> Some (Inl (TriePanic (Explicit ''interface conversion''))))
            | _ \<Rightarrow> tret (True, value))
      else case n of
        ShortNode k val flags \<Rightarrow>
          (let matchlen = prefixLen key k
           in if matchlen = length k
              then tbind (insert_node load val (prefix @ take matchlen key) (drop matchlen key) value) (\<lambda>(dirty, nn).
                tret (if dirty then (True, ShortNode k nn newFlag) else (False, n)))
              else tbind (insert_node load NilNode (prefix @ take (matchlen + 1) k) (drop (matchlen + 1) k) val) (\<lambda>(_, old).
                tbind (set_child (replicate 17 NilNode) (k ! matchlen) old) (\<lambda>children.
                tbind (tlift (go_index key matchlen)) (\<lambda>x.
                tbind (insert_node load NilNode (prefix @ take (matchlen + 1) key) (drop (matchlen + 1) key) value) (\<lambda>(_, new).
                tbind (set_child children x new) (\<lambda>children.
                let branch = FullNode children newFlag
                in tret (True, if matchlen = 0 then branch else ShortNode (take matchlen key) branch newFlag)))))))
      | FullNode children flags \<Rightarrow> tbind (tlift (go_index children (unat (hd key)))) (\<lambda>child.
          tbind (insert_node load child (prefix @ [hd key]) (tl key) value) (\<lambda>(dirty, nn).
            tret (if dirty then (True, FullNode (children[unat (hd key) := nn]) newFlag) else (False, n))))
      | NilNode \<Rightarrow> tret (True, ShortNode key value newFlag)
      | HashNode h \<Rightarrow> tbind (resolveHash load h prefix) (\<lambda>rn.
          tbind (insert_node load rn prefix key value) (\<lambda>(dirty, nn). tret (if dirty then (True, nn) else (False, rn))))
      | ValueNode _ \<Rightarrow> Some (Inl (TriePanic (Explicit ''invalid node''))))"

text \<open>The loop of \<open>delete\<close> that looks for the single child that is left.\<close>

definition only_child :: "node list \<Rightarrow> nat option" where
  "only_child children = (case filter (\<lambda>i. children ! i \<noteq> NilNode) [0..<length children] of [i] \<Rightarrow> Some i | _ \<Rightarrow> None)"

definition reduce_full :: "loader \<Rightarrow> bytes \<Rightarrow> node list \<Rightarrow> node tr" where
  "reduce_full load prefix children = (case only_child children of
     None \<Rightarrow> tret (FullNode children newFlag)
   | Some pos \<Rightarrow> if pos \<noteq> 16
       then tbind (resolve load (children ! pos) prefix) (\<lambda>cnode. tret (case cnode of
           ShortNode k val _ \<Rightarrow> ShortNode (word_of_nat pos # k) val newFlag
         | _ \<Rightarrow> ShortNode [word_of_nat pos] (children ! pos) newFlag))
       else tret (ShortNode [word_of_nat pos] (children ! pos) newFlag))"

partial_function (option) delete_node :: "loader \<Rightarrow> node \<Rightarrow> bytes \<Rightarrow> bytes \<Rightarrow> (bool \<times> node) tr" where
  "delete_node load n prefix key =
     (case n of
        ShortNode k val flags \<Rightarrow>
          (let matchlen = prefixLen key k
           in if matchlen < length k then tret (False, n)
              else if matchlen = length key then tret (True, NilNode)
              else tbind (delete_node load val (prefix @ take (length k) key) (drop (length k) key)) (\<lambda>(dirty, child).
                tret (if \<not> dirty then (False, n)
                  else (True, case child of ShortNode ck cval _ \<Rightarrow> ShortNode (k @ ck) cval newFlag
                    | _ \<Rightarrow> ShortNode k child newFlag))))
      | FullNode children flags \<Rightarrow> tbind (tlift (go_index key 0)) (\<lambda>x. tbind (tlift (go_index children (unat x))) (\<lambda>child.
          tbind (delete_node load child (prefix @ [x]) (tl key)) (\<lambda>(dirty, nn).
            if \<not> dirty then tret (False, n)
            else tbind (reduce_full load prefix (children[unat x := nn])) (\<lambda>n'. tret (True, n')))))
      | ValueNode _ \<Rightarrow> tret (True, NilNode)
      | NilNode \<Rightarrow> tret (False, NilNode)
      | HashNode h \<Rightarrow> tbind (resolveHash load h prefix) (\<lambda>rn.
          tbind (delete_node load rn prefix key) (\<lambda>(dirty, nn). tret (if dirty then (True, nn) else (False, rn)))))"

text \<open>The operations on a trie, here its root node.  An operation that fails leaves the root as it was.\<close>

definition TryGet :: "loader \<Rightarrow> bytes \<Rightarrow> node \<Rightarrow> (bytes option \<times> node) tr" where
  "TryGet load key root = tbind (tryGet load root (keybytesToHex key) 0) (\<lambda>(value, newroot, didResolve).
     tret (value, if didResolve then newroot else root))"

definition TryUpdate :: "loader \<Rightarrow> bytes \<Rightarrow> bytes \<Rightarrow> node \<Rightarrow> node tr" where
  "TryUpdate load key value root =
     (let k = keybytesToHex key
      in if length value \<noteq> 0 then tbind (insert_node load root [] k (ValueNode value)) (\<lambda>(_, n). tret n)
         else tbind (delete_node load root [] k) (\<lambda>(_, n). tret n))"

definition TryDelete :: "loader \<Rightarrow> bytes \<Rightarrow> node \<Rightarrow> node tr" where
  "TryDelete load key root = tbind (delete_node load root [] (keybytesToHex key)) (\<lambda>(_, n). tret n)"

section \<open>Tries, contents and the canonical shape\<close>

datatype trie = TNil | TVal bytes | TShort bytes trie | is_TFull: TFull "trie list"

lemma size_nth [termination_simp]: "i < length ts \<Longrightarrow> size (ts ! i) < Suc (size_list size ts)"
  by (simp add: less_Suc_eq_le size_list_estimation' [OF nth_mem order_refl])

fun content :: "trie \<Rightarrow> bytes \<Rightarrow> bytes option" where
  "content TNil key = None"
| "content (TVal v) key = (if key = [] then Some v else None)"
| "content (TShort k t) key = (if take (length k) key = k then content t (drop (length k) key) else None)"
| "content (TFull ts) [] = None"
| "content (TFull ts) (x # key) = (if unat x < length ts then content (ts ! unat x) key else None)"

definition term_key :: "bytes \<Rightarrow> bool" where
  "term_key k \<longleftrightarrow> (\<exists>ns. nibbles ns \<and> k = ns @ [16])"

inductive canon :: "trie \<Rightarrow> bool" where
  leaf: "term_key k \<Longrightarrow> v \<noteq> [] \<Longrightarrow> canon (TShort k (TVal v))"
| ext: "k \<noteq> [] \<Longrightarrow> nibbles k \<Longrightarrow> canon (TFull ts) \<Longrightarrow> canon (TShort k (TFull ts))"
| full: "length ts = 17 \<Longrightarrow> (\<And>i. i < 16 \<Longrightarrow> ts ! i = TNil \<or> canon (ts ! i)) \<Longrightarrow> ts ! 16 = TNil \<or> (\<exists>v. v \<noteq> [] \<and> ts ! 16 = TVal v)
    \<Longrightarrow> i < 17 \<Longrightarrow> j < 17 \<Longrightarrow> i \<noteq> j \<Longrightarrow> ts ! i \<noteq> TNil \<Longrightarrow> ts ! j \<noteq> TNil \<Longrightarrow> canon (TFull ts)"

inductive_simps canon_simps [simp]: "canon TNil" "canon (TVal v)"
inductive_simps canon_Short: "canon (TShort k t)"
inductive_cases canon_FullE: "canon (TFull ts)"

text \<open>What may stand where the key \<open>key\<close> remains to be read: a value at its end, else nothing or a canonical trie.\<close>

definition slot_ok :: "bytes \<Rightarrow> trie \<Rightarrow> bool" where
  "slot_ok key t \<longleftrightarrow> t = TNil \<or> (if key = [] then \<exists>v. v \<noteq> [] \<and> t = TVal v else canon t)"

section \<open>The trie a node stands for\<close>

text \<open>\<open>hash_of t h\<close> is the assumption on hashes: \<open>h\<close> is the hash under which \<open>t\<close> is stored.  The hash cached in a node is
  either empty or this one; a node that is not dirty is in the database under its hash, or has none.\<close>

definition present :: "loader \<Rightarrow> bytes \<Rightarrow> bool" where
  "present load h \<longleftrightarrow> (\<exists>n. load (BytesToHash h) = tret (Some n))"

definition flag_ok :: "loader \<Rightarrow> (trie \<Rightarrow> bytes \<Rightarrow> bool) \<Rightarrow> trie \<Rightarrow> nodeFlag \<Rightarrow> bool" where
  "flag_ok load hash_of t f \<longleftrightarrow> (if nf_hash f = [] then nf_dirty f \<or> (\<forall>h. \<not> hash_of t h)
     else hash_of t (nf_hash f) \<and> (nf_dirty f \<or> present load (nf_hash f)))"

inductive rep :: "loader \<Rightarrow> (trie \<Rightarrow> bytes \<Rightarrow> bool) \<Rightarrow> node \<Rightarrow> trie \<Rightarrow> bool" for load hash_of where
  rep_nil: "rep load hash_of NilNode TNil"
| rep_value: "rep load hash_of (ValueNode v) (TVal v)"
| rep_short: "rep load hash_of n t \<Longrightarrow> flag_ok load hash_of (TShort k t) f \<Longrightarrow> rep load hash_of (ShortNode k n f) (TShort k t)"
| rep_full: "list_all2 (rep load hash_of) ns ts \<Longrightarrow> flag_ok load hash_of (TFull ts) f \<Longrightarrow> rep load hash_of (FullNode ns f) (TFull ts)"
| rep_hash: "load (BytesToHash h) = tret (Some n) \<Longrightarrow> \<not> is_HashNode n \<Longrightarrow> rep load hash_of n t \<Longrightarrow> hash_of t h \<Longrightarrow> t \<noteq> TNil \<Longrightarrow> rep load hash_of (HashNode h) t"

inductive_simps rep_simps [simp]: "rep load hash_of NilNode t" "rep load hash_of (ValueNode v) t"
  "rep load hash_of (ShortNode k n f) t" "rep load hash_of (FullNode ns f) t"

lemma flag_ok_new [simp]: "flag_ok load hash_of t newFlag"
  by (simp_all add: newFlag_def flag_ok_def)

lemma tr_simps [simp]: "tbind (tret x) f = f x" "tlift (Inr x) = tret x" "tret x = tret y \<longleftrightarrow> x = y"
  by (simp_all add: tbind_def tret_def tlift_def)

section \<open>Keys\<close>

lemma unat_inject [simp]: "unat x = unat y \<longleftrightarrow> x = (y :: 'a::len word)"
  by (simp add: word_unat_eq_iff)

lemma unat_nibble: "x < (16 :: u8) \<Longrightarrow> unat x < 16"
  by (simp add: word_less_nat_alt)

lemma term_key_Cons: "term_key (x # k) \<longleftrightarrow> x = 16 \<and> k = [] \<or> x < 16 \<and> term_key k"
  by (force simp: term_key_def Cons_eq_append_conv)

lemma term_key_nonempty [simp]: "\<not> term_key []"
  by (simp add: term_key_def)

lemma term_key_append: "nibbles ns \<Longrightarrow> term_key (ns @ k) \<longleftrightarrow> term_key k"
  by (induction ns) (auto simp: term_key_Cons)

text \<open>The remaining key: at its end, or terminated.\<close>

definition rest_key :: "bytes \<Rightarrow> bool" where
  "rest_key k \<longleftrightarrow> k = [] \<or> term_key k"

lemma rest_key_Cons: "rest_key (x # k) \<Longrightarrow> unat x < 17 \<and> rest_key k \<and> (k = [] \<longleftrightarrow> unat x = 16)"
  by (auto simp: rest_key_def term_key_Cons word_less_nat_alt)

lemma canon_children:
  assumes "canon (TFull ts)" "rest_key (x # key)"
  shows "length ts = 17" "slot_ok key (ts ! unat x)"
proof -
  note x = rest_key_Cons [OF assms(2)]
  show "length ts = 17" using assms(1) by (auto elim: canon_FullE)
  show "slot_ok key (ts ! unat x)"
  proof (cases "key = []")
    case True
    then show ?thesis using assms(1) x by (auto simp: slot_ok_def elim!: canon_FullE)
  next
    case False
    then have "unat x < 16" using x by auto
    then show ?thesis using assms(1) False by (auto simp: slot_ok_def elim!: canon_FullE)
  qed
qed

lemma canon_short:
  assumes "canon (TShort k t)" "rest_key (k @ key)"
  shows "rest_key key" "slot_ok key t" "t \<noteq> TNil"
proof -
  consider v where "t = TVal v" "v \<noteq> []" "term_key k" | ts where "t = TFull ts" "canon t" "nibbles k"
    using assms(1) unfolding canon_Short by blast
  then have "rest_key key \<and> slot_ok key t \<and> t \<noteq> TNil"
  proof cases
    case 1
    then obtain ns where ns: "nibbles ns" "k = ns @ [16]" by (auto simp: term_key_def)
    then have "term_key (16 # key)" using assms(2) by (simp add: rest_key_def term_key_append)
    then show ?thesis using 1 by (simp add: term_key_Cons rest_key_def slot_ok_def)
  next
    case 2
    then have "term_key key" using assms(1,2) by (simp add: rest_key_def term_key_append canon_Short)
    then show ?thesis using 2 by (auto simp: rest_key_def slot_ok_def)
  qed
  then show "rest_key key" "slot_ok key t" "t \<noteq> TNil" by simp_all
qed

section \<open>Lookup\<close>

lemma list_all2_set: "list_all2 P xs ys \<Longrightarrow> P x (ys ! i) \<Longrightarrow> list_all2 P (xs[i := x]) ys"
  by (cases "i < length ys") (auto simp: list_all2_conv_all_nth nth_list_update)

lemma tryGet_rep:
  assumes "rep load hash_of n t" "slot_ok (drop pos key) t" "rest_key (drop pos key)" "pos \<le> length key"
  shows "\<exists>n' r. tryGet load n key pos = tret (content t (drop pos key), n', r) \<and> rep load hash_of n' t"
  using assms
proof (induction arbitrary: pos rule: rep.induct)
  case (rep_short n t k f)
  show ?case
  proof (cases "take (length k) (drop pos key) = k")
    case True
    then have split: "drop pos key = k @ drop (pos + length k) key" by (metis append_take_drop_id drop_drop add.commute)
    have canon: "canon (TShort k t)" using rep_short(4) by (auto simp: slot_ok_def split: if_splits)
    have rest: "rest_key (k @ drop (pos + length k) key)" using rep_short(5) split by simp
    have "length k \<le> length key - pos" using arg_cong [OF True, of length] by simp
    then have "pos + length k \<le> length key" using rep_short(6) by simp
    then obtain n' r where "tryGet load n key (pos + length k) = tret (content t (drop (pos + length k) key), n', r)" "rep load hash_of n' t"
      using rep_short(3) [OF canon_short(2) [OF canon rest] canon_short(1) [OF canon rest]] by blast
    then show ?thesis using True rep_short(1,2) \<open>length k \<le> length key - pos\<close>
      by (subst tryGet.simps) (auto simp: add.commute)
  next
    case False
    then show ?thesis using rep_short(1,2) by (subst tryGet.simps) auto
  qed
next
  case (rep_full ns ts f)
  then have canon: "canon (TFull ts)" "drop pos key \<noteq> []" by (auto simp: slot_ok_def split: if_splits)
  then obtain x rest where x: "drop pos key = x # rest" by (cases "drop pos key") auto
  then have key: "go_index key pos = Inr x" "drop (Suc pos) key = rest" "pos < length key"
    by (metis canon(2) drop_eq_Nil go_index_in hd_drop_conv_nth linorder_not_le list.sel(1))
      (metis x drop_Suc list.sel(3) tl_drop, metis canon(2) drop_eq_Nil linorder_not_le)
  note child = canon_children [OF canon(1), of x rest] rest_key_Cons [of x rest]
  have i: "unat x < length ts" "length ns = length ts" using child(1,3) rep_full(1,4) x by (auto dest: list_all2_lengthD)
  then have "rep load hash_of (ns ! unat x) (ts ! unat x) \<and> (\<forall>pos. slot_ok (drop pos key) (ts ! unat x) \<longrightarrow> rest_key (drop pos key) \<longrightarrow> pos \<le> length key \<longrightarrow>
      (\<exists>n' r. tryGet load (ns ! unat x) key pos = tret (content (ts ! unat x) (drop pos key), n', r) \<and> rep load hash_of n' (ts ! unat x)))"
    using list_all2_nthD2 [OF rep_full(1)] by blast
  then obtain n' r where "tryGet load (ns ! unat x) key (Suc pos) = tret (content (ts ! unat x) rest, n', r)" "rep load hash_of n' (ts ! unat x)"
    using key child(2,3) rep_full(4) x by (metis Suc_leI)
  moreover have "list_all2 (rep load hash_of) ns ts" using rep_full(1) by (rule list_all2_mono) blast
  ultimately show ?case using x key i rep_full(2) by (subst tryGet.simps) (auto intro: list_all2_set)
next
  case (rep_hash h n t)
  then obtain n' r where "tryGet load n key pos = tret (content t (drop pos key), n', r)" "rep load hash_of n' t" by blast
  then show ?case by (subst tryGet.simps) (auto simp: resolveHash_def rep_hash(1))
qed (subst tryGet.simps, auto simp: slot_ok_def split: if_splits)+

section \<open>Insertion\<close>

lemma content_short_upd:
  assumes "content t' = (content t)(key := w)"
  shows "content (TShort k t') = (content (TShort k t))(k @ key := w)"
proof
  fix key'
  show "content (TShort k t') key' = ((content (TShort k t))(k @ key := w)) key'"
    using assms by (auto simp: append_eq_conv_conj eq_commute [of key' "k @ key"])
qed

lemma content_full_upd:
  assumes "unat x < length ts" "content t' = (content (ts ! unat x))(key := w)"
  shows "content (TFull (ts[unat x := t'])) = (content (TFull ts))(x # key := w)"
proof
  fix key'
  show "content (TFull (ts[unat x := t'])) key' = ((content (TFull ts))(x # key := w)) key'"
    using assms by (cases key') (auto simp: nth_list_update)
qed

lemma canon_full_upd:
  assumes "canon (TFull ts)" "rest_key (x # key)" "slot_ok key t'" "t' \<noteq> TNil"
  shows "canon (TFull (ts[unat x := t']))"
proof -
  obtain i j where ts: "length ts = 17" "\<And>i. i < 16 \<Longrightarrow> ts ! i = TNil \<or> canon (ts ! i)" "ts ! 16 = TNil \<or> (\<exists>v. v \<noteq> [] \<and> ts ! 16 = TVal v)"
    "i < 17" "j < 17" "i \<noteq> j" "ts ! i \<noteq> TNil" "ts ! j \<noteq> TNil" using assms(1) by (auto elim!: canon_FullE)
  note x = rest_key_Cons [OF assms(2)]
  show ?thesis
  proof (rule canon.full [of _ i j])
    show "ts[unat x := t'] ! l = TNil \<or> canon (ts[unat x := t'] ! l)" if "l < 16" for l
      using that ts(1,2) x assms(3) by (cases "l = unat x") (auto simp: slot_ok_def)
    show "ts[unat x := t'] ! 16 = TNil \<or> (\<exists>v. v \<noteq> [] \<and> ts[unat x := t'] ! 16 = TVal v)"
      using ts(1,3) x assms(3) by (cases "unat x = 16") (auto simp: slot_ok_def)
    show "ts[unat x := t'] ! i \<noteq> TNil" "ts[unat x := t'] ! j \<noteq> TNil"
      using ts(1,4,5,7,8) assms(4) x by (auto simp: nth_list_update)
  qed (use ts in simp_all)
qed

text \<open>A leaf: what \<open>insert\<close> makes of an empty place.\<close>

definition leaf_at :: "bytes \<Rightarrow> trie \<Rightarrow> trie" where
  "leaf_at key t = (if key = [] then t else TShort key t)"

lemma insert_nil: "insert_node load NilNode p key value = tret (True, if key = [] then value else ShortNode key value newFlag)"
  by (subst insert_node.simps) simp

lemma content_leaf_at: "content (leaf_at key t) = (\<lambda>k. if take (length key) k = key then content t (drop (length key) k) else None)"
  by (auto simp: leaf_at_def)

text \<open>Two subtries that part at a nibble.\<close>

definition branch_at :: "u8 \<Rightarrow> trie \<Rightarrow> u8 \<Rightarrow> trie \<Rightarrow> trie" where
  "branch_at x t y t' = TFull ((replicate 17 TNil)[unat x := t, unat y := t'])"

lemma canon_branch_at:
  assumes "rest_key (x # kx)" "rest_key (y # ky)" "x \<noteq> y" "slot_ok kx t" "slot_ok ky t'" "t \<noteq> TNil" "t' \<noteq> TNil"
  shows "canon (branch_at x t y t')"
proof -
  note x = rest_key_Cons [OF assms(1)] and y = rest_key_Cons [OF assms(2)]
  have ne: "unat x \<noteq> unat y" using assms(3) by simp
  show ?thesis unfolding branch_at_def
  proof (rule canon.full [of _ "unat x" "unat y"])
    show "(replicate 17 TNil)[unat x := t, unat y := t'] ! l = TNil \<or> canon ((replicate 17 TNil)[unat x := t, unat y := t'] ! l)" if "l < 16" for l
      using that x y assms(4,5) by (auto simp: nth_list_update slot_ok_def)
    show "(replicate 17 TNil)[unat x := t, unat y := t'] ! 16 = TNil \<or> (\<exists>v. v \<noteq> [] \<and> (replicate 17 TNil)[unat x := t, unat y := t'] ! 16 = TVal v)"
      using x y assms(4,5) by (auto simp: nth_list_update slot_ok_def)
  qed (use x y ne assms in \<open>auto simp: nth_list_update\<close>)
qed

lemma content_branch_at:
  assumes "unat x < 17" "unat y < 17" "x \<noteq> y"
  shows "content (branch_at x t y t') = (\<lambda>k. case k of [] \<Rightarrow> None | z # k \<Rightarrow> if z = x then content t k else if z = y then content t' k else None)"
  using assms by (auto simp: branch_at_def fun_eq_iff nth_list_update split: list.split)

lemma content_short_append: "content (TShort (p @ q) t) = content (TShort p (TShort q t))"
proof
  fix key
  show "content (TShort (p @ q) t) key = content (TShort p (TShort q t)) key"
  proof (cases "\<exists>r. key = p @ r")
    case True
    then show ?thesis by auto
  next
    case False
    then have "take (length (p @ q)) key \<noteq> p @ q" "take (length p) key \<noteq> p"
      by (metis append_take_drop_id append_assoc)+
    then show ?thesis by simp
  qed
qed

lemma content_short_Cons:
  "content (TShort (x # k) t) = (\<lambda>key. case key of [] \<Rightarrow> None | z # key \<Rightarrow> if z = x then content (leaf_at k t) key else None)"
  by (auto simp: fun_eq_iff leaf_at_def split: list.split)

lemma content_leaf_value: "content (leaf_at key (TVal v)) = [key \<mapsto> v]"
  by (auto simp: fun_eq_iff leaf_at_def append_eq_conv_conj [symmetric])

lemma content_leaf_short: "content (leaf_at p t) = content (TShort p t)"
  by (auto simp: leaf_at_def fun_eq_iff)

lemma term_key_prefix: "term_key (p @ y # l) \<Longrightarrow> nibbles p"
  by (induction p) (auto simp: term_key_Cons)

lemma leaf_value:
  assumes "term_key (y # l)" "v \<noteq> []"
  shows "slot_ok l (leaf_at l (TVal v))" "leaf_at l (TVal v) \<noteq> TNil"
  using assms by (auto simp: slot_ok_def leaf_at_def term_key_Cons intro: canon.leaf)

lemma leaf_suffix:
  assumes "canon (TShort (p @ x # k) t)" "nibbles p"
  obtains r where "rest_key (x # r)" "slot_ok r (leaf_at k t)" "leaf_at k t \<noteq> TNil"
proof -
  consider v where "t = TVal v" "v \<noteq> []" "term_key (x # k)" | ts where "t = TFull ts" "canon t" "nibbles (x # k)"
    using assms unfolding canon_Short by (auto simp: term_key_append)
  then show thesis
  proof cases
    case 1
    then show thesis using that [of k] leaf_value by (simp add: rest_key_def)
  next
    case 2
    then have "term_key (x # k @ [16])" using term_key_append [of "x # k" "[16]"] by (simp add: term_key_Cons)
    moreover have "canon (leaf_at k t)" using 2 by (auto simp: leaf_at_def intro: canon.ext)
    moreover have "leaf_at k t \<noteq> TNil" using 2 by (simp add: leaf_at_def)
    ultimately show thesis using that [of "k @ [16]"] by (simp add: rest_key_def slot_ok_def)
  qed
qed

lemma insert_branch:
  assumes "canon (TShort (p @ x # k) t)" "term_key (p @ y # l)" "x \<noteq> y" "v \<noteq> []"
  defines "t' \<equiv> leaf_at p (branch_at x (leaf_at k t) y (leaf_at l (TVal v)))"
  shows "canon t'" "content t' = (content (TShort (p @ x # k) t))(p @ y # l \<mapsto> v)"
proof -
  have p: "nibbles p" by (rule term_key_prefix [OF assms(2)])
  then have l: "rest_key (y # l)" "term_key (y # l)" using assms(2) by (simp_all add: rest_key_def term_key_append)
  obtain r where r: "rest_key (x # r)" "slot_ok r (leaf_at k t)" "leaf_at k t \<noteq> TNil" using leaf_suffix [OF assms(1) p] .
  note leaf = leaf_value [OF l(2) assms(4)]
  have branch: "canon (branch_at x (leaf_at k t) y (leaf_at l (TVal v)))"
    by (rule canon_branch_at [OF r(1) l(1) assms(3) r(2) leaf(1) r(3) leaf(2)])
  then show "canon t'" using p unfolding t'_def leaf_at_def branch_at_def by (auto intro: canon.ext)
  have "content (branch_at x (leaf_at k t) y (leaf_at l (TVal v))) = (content (TShort (x # k) t))(y # l \<mapsto> v)"
    using rest_key_Cons [OF r(1)] rest_key_Cons [OF l(1)] assms(3)
    by (auto simp: content_branch_at content_short_Cons content_leaf_value fun_eq_iff split: list.split)
  then show "content t' = (content (TShort (p @ x # k) t))(p @ y # l \<mapsto> v)"
    unfolding t'_def content_leaf_short content_short_append by (rule content_short_upd)
qed

text \<open>Insertion: the result stands for a canonical trie with the key set, whether or not something changed.\<close>

definition inserts :: "loader \<Rightarrow> (trie \<Rightarrow> bytes \<Rightarrow> bool) \<Rightarrow> trie \<Rightarrow> bytes \<Rightarrow> bytes \<Rightarrow> node \<Rightarrow> bool" where
  "inserts load hash_of t key v n' \<longleftrightarrow>
     (\<exists>t'. rep load hash_of n' t' \<and> slot_ok key t' \<and> t' \<noteq> TNil \<and> content t' = (content t)(key \<mapsto> v)
       \<and> (is_TFull t \<longrightarrow> is_TFull t'))"

lemma insertsI: "rep load hash_of n' t' \<Longrightarrow> slot_ok key t' \<Longrightarrow> t' \<noteq> TNil \<Longrightarrow> content t' = (content t)(key \<mapsto> v)
    \<Longrightarrow> (is_TFull t \<Longrightarrow> is_TFull t') \<Longrightarrow> inserts load hash_of t key v n'"
  unfolding inserts_def by blast

lemma inserts_same:
  assumes "rep load hash_of n t" "slot_ok key t" "content t key = Some v"
  shows "inserts load hash_of t key v n"
  using assms by (intro insertsI [where t' = t]) (auto simp: fun_upd_idem)

text \<open>A short node whose key is a part of the inserted key, and a short node that has to be split.\<close>

lemma rep_leaf: "rep load hash_of n t \<Longrightarrow> rep load hash_of (if key = [] then n else ShortNode key n newFlag) (leaf_at key t)"
  by (simp add: leaf_at_def)

lemma rep_branch:
  assumes "rep load hash_of n t" "rep load hash_of n' t'"
  shows "rep load hash_of (FullNode ((replicate 17 NilNode)[i := n, j := n']) newFlag) (TFull ((replicate 17 TNil)[i := t, j := t']))"
proof -
  have "list_all2 (rep load hash_of) (replicate 17 NilNode) (replicate 17 TNil)" by (simp add: list_all2_conv_all_nth)
  then show ?thesis by (simp add: list_all2_update_cong assms)
qed

lemma split_at_prefixLen:
  assumes "prefixLen key k < length k" "term_key key" "nibbles k \<or> term_key k"
  obtains p x k' y l where "k = p @ x # k'" "key = p @ y # l" "x \<noteq> y" "length p = prefixLen key k"
proof -
  let ?m = "prefixLen key k"
  have m: "?m < length key"
  proof (rule ccontr)
    assume "\<not> ?m < length key"
    then have len: "?m = length key" using prefixLen_le(1) [of key k] by simp
    then have "take (length key) k = key" using prefixLen_take [of key k] by simp
    then obtain r where r: "k = key @ r" by (metis append_take_drop_id)
    then have "r \<noteq> []" using assms(1) len by auto
    moreover obtain ns where "key = ns @ [16]" using assms(2) by (auto simp: term_key_def)
    ultimately show False using assms(3) term_key_prefix [of "ns @ [16]" "hd r" "tl r"] r by (cases r) auto
  qed
  show thesis
  proof (rule that)
    show "k = take ?m key @ k ! ?m # drop (Suc ?m) k" using assms(1) prefixLen_take [of key k] by (simp add: id_take_nth_drop [symmetric])
    show "key = take ?m key @ key ! ?m # drop (Suc ?m) key" using m by (rule id_take_nth_drop)
    show "k ! ?m \<noteq> key ! ?m" using prefixLen_differs [of key k] assms(1) m by metis
  qed (use m in simp)
qed

lemma insert_split:
  assumes "rep load hash_of n t" "canon (TShort k t)" "prefixLen key k < length k" "term_key key" "v \<noteq> []"
  shows "\<exists>n'. insert_node load (ShortNode k n f) pre key (ValueNode v) = tret (True, n') \<and> inserts load hash_of (TShort k t) key v n'"
proof -
  have "nibbles k \<or> term_key k" using assms(2) by (auto simp: canon_Short)
  with assms(3,4) obtain p x k' y l where eq: "k = p @ x # k'" "key = p @ y # l" "x \<noteq> y" "length p = prefixLen key k"
    by (rule split_at_prefixLen)
  have ne: "p @ x # k' \<noteq> []" "p @ y # l \<noteq> []" by simp_all
  note t' = insert_branch [OF assms(2) [unfolded eq(1)] assms(4) [unfolded eq(2)] eq(3) assms(5)]
  let ?br = "FullNode ((replicate 17 NilNode)[unat x := if k' = [] then n else ShortNode k' n newFlag,
      unat y := if l = [] then ValueNode v else ShortNode l (ValueNode v) newFlag]) newFlag"
  have "rep load hash_of ?br (branch_at x (leaf_at k' t) y (leaf_at l (TVal v)))"
    unfolding branch_at_def by (intro rep_branch rep_leaf assms(1)) simp
  then have rep: "rep load hash_of (if p = [] then ?br else ShortNode p ?br newFlag) (leaf_at p (branch_at x (leaf_at k' t) y (leaf_at l (TVal v))))"
    by (rule rep_leaf)
  have p: "nibbles p" using term_key_prefix assms(4) eq(2) by blast
  have "term_key (y # l)" using assms(4) p by (simp add: eq(2) term_key_append)
  moreover obtain r where "rest_key (x # r)" using leaf_suffix [OF assms(2) [unfolded eq(1)] p] .
  ultimately have bounds: "unat x < 17" "unat y < 17" using rest_key_Cons [of y l] rest_key_Cons [of x r] by (simp_all add: rest_key_def)
  have "insert_node load (ShortNode k n f) pre key (ValueNode v) = tret (True, if p = [] then ?br else ShortNode p ?br newFlag)"
    using eq(3) bounds by (subst insert_node.simps) (simp add: eq(1,2) Let_def insert_nil set_child_def nth_append)
  moreover have "inserts load hash_of (TShort k t) key v (if p = [] then ?br else ShortNode p ?br newFlag)"
  proof (rule insertsI [OF rep])
    show "leaf_at p (branch_at x (leaf_at k' t) y (leaf_at l (TVal v))) \<noteq> TNil" using t'(1) by (rule contrapos_pn) simp
  qed (use t' eq(2) in \<open>simp_all add: slot_ok_def eq(1)\<close>)
  ultimately show ?thesis by blast
qed

lemma rest_key_nonempty: "rest_key (x # key) = term_key (x # key)"
  by (simp add: rest_key_def)

lemma canon_short_upd:
  assumes "canon (TShort k t)" "rest_key (k @ key)" "slot_ok key t'" "t' \<noteq> TNil" "is_TFull t \<Longrightarrow> is_TFull t'"
  shows "canon (TShort k t')"
proof -
  consider v where "t = TVal v" "term_key k" | ts where "t = TFull ts" "k \<noteq> []" "nibbles k" using assms(1) unfolding canon_Short by blast
  then show ?thesis
  proof cases
    case 1
    then have "key = []" using canon_short [OF assms(1,2)] by (auto simp: slot_ok_def split: if_splits)
    then show ?thesis using 1 assms(3,4) by (auto simp: slot_ok_def intro: canon.leaf)
  next
    case 2
    then obtain ts' where t': "t' = TFull ts'" using assms(5) by (cases t') auto
    moreover have "canon t'" using assms(3) t' by (auto simp: slot_ok_def split: if_splits)
    ultimately show ?thesis using 2 by (auto intro: canon.ext)
  qed
qed

lemma insert_rep:
  assumes "rep load hash_of n t" "slot_ok key t" "rest_key key" "v \<noteq> []"
  shows "\<exists>d n'. insert_node load n pre key (ValueNode v) = tret (d, n') \<and> inserts load hash_of t key v n' \<and> (d \<or> content t key = Some v)"
  using assms
proof (induction arbitrary: key pre rule: rep.induct)
  case rep_nil
  have "inserts load hash_of TNil key v (if key = [] then ValueNode v else ShortNode key (ValueNode v) newFlag)"
  proof (rule insertsI)
    show "slot_ok key (leaf_at key (TVal v))" using rep_nil by (auto simp: slot_ok_def leaf_at_def rest_key_def intro: canon.leaf)
  qed (auto simp: content_leaf_value leaf_at_def)
  then show ?case by (auto simp: insert_nil)
next
  case (rep_value w)
  then have "key = []" by (auto simp: slot_ok_def split: if_splits)
  moreover have "inserts load hash_of (TVal w) [] v (ValueNode v)"
    using rep_value(3) by (intro insertsI [where t' = "TVal v"]) (auto simp: slot_ok_def)
  ultimately show ?case by (subst insert_node.simps) simp
next
  case (rep_short n t k f)
  then have key: "key \<noteq> []" "canon (TShort k t)" "term_key key" by (auto simp: slot_ok_def rest_key_def split: if_splits)
  show ?case
  proof (cases "prefixLen key k = length k")
    case False
    then have "prefixLen key k < length k" using prefixLen_le(2) [of key k] by simp
    then show ?thesis using insert_split [OF rep_short(1) key(2) _ key(3) rep_short(6)] by blast
  next
    case True
    then have "take (length k) key = k" by (simp add: prefixLen_full)
    then obtain rest where rest: "key = k @ rest" by (metis append_take_drop_id)
    note c = canon_short [OF key(2), of rest] and rk = rep_short(5) [unfolded rest]
    obtain d n' where ins: "insert_node load n (pre @ k) rest (ValueNode v) = tret (d, n')" "inserts load hash_of t rest v n'"
      "d \<or> content t rest = Some v" using rep_short(3) [OF c(2,1) rep_short(6), of "pre @ k"] rk by blast
    then obtain t' where t': "rep load hash_of n' t'" "slot_ok rest t'" "t' \<noteq> TNil" "content t' = (content t)(rest \<mapsto> v)"
      "is_TFull t \<longrightarrow> is_TFull t'" unfolding inserts_def by blast
    have "inserts load hash_of (TShort k t) key v (ShortNode k n' newFlag)"
      using t' canon_short_upd [OF key(2) rk t'(2,3)] content_short_upd [OF t'(4), of k] key(1)
      by (intro insertsI [where t' = "TShort k t'"]) (auto simp: slot_ok_def rest)
    moreover have "inserts load hash_of (TShort k t) key v (ShortNode k n f)" if "\<not> d"
      using ins(3) that rep_short(1,2,4) by (intro inserts_same) (auto simp: rest)
    moreover have "insert_node load (ShortNode k n f) pre key (ValueNode v) = tret (if d then (True, ShortNode k n' newFlag) else (False, ShortNode k n f))"
      using key(1) ins(1) by (subst insert_node.simps) (simp add: rest Let_def)
    ultimately show ?thesis using ins(3) by (auto simp: rest)
  qed
next
  case (rep_full ns ts f)
  then have canon: "canon (TFull ts)" "key \<noteq> []" by (auto simp: slot_ok_def split: if_splits)
  then obtain x rest where x: "key = x # rest" by (cases key) auto
  note child = canon_children [OF canon(1) rep_full(4) [unfolded x]] rest_key_Cons [OF rep_full(4) [unfolded x]]
  have i: "unat x < length ts" "length ns = length ts" using child(1,3) rep_full(1) by (auto dest: list_all2_lengthD)
  obtain d n' where ins: "insert_node load (ns ! unat x) (pre @ [x]) rest (ValueNode v) = tret (d, n')"
    "inserts load hash_of (ts ! unat x) rest v n'" "d \<or> content (ts ! unat x) rest = Some v"
    using list_all2_nthD2 [OF rep_full(1) i(1)] child(2,3) rep_full(5) by blast
  then obtain t' where t': "rep load hash_of n' t'" "slot_ok rest t'" "t' \<noteq> TNil" "content t' = (content (ts ! unat x))(rest \<mapsto> v)"
    unfolding inserts_def by blast
  have all: "list_all2 (rep load hash_of) ns ts" using rep_full(1) by (rule list_all2_mono) blast
  have "inserts load hash_of (TFull ts) key v (FullNode (ns[unat x := n']) newFlag)"
    using all t' canon_full_upd [OF canon(1) rep_full(4) [unfolded x] t'(2,3)] content_full_upd [OF i(1) t'(4)] canon(2)
    by (intro insertsI [where t' = "TFull (ts[unat x := t'])"]) (auto simp: slot_ok_def x list_all2_update_cong)
  moreover have "inserts load hash_of (TFull ts) key v (FullNode ns f)" if "\<not> d"
    using ins(3) that all rep_full(2,3) i(1) by (intro inserts_same) (auto simp: x)
  moreover have "insert_node load (FullNode ns f) pre key (ValueNode v) = tret (if d then (True, FullNode (ns[unat x := n']) newFlag) else (False, FullNode ns f))"
    using ins(1) i by (subst insert_node.simps) (simp add: x)
  ultimately show ?case using ins(3) i(1) by (auto simp: x)
next
  case (rep_hash h n t)
  obtain d n' where ins: "insert_node load n pre key (ValueNode v) = tret (d, n')" "inserts load hash_of t key v n'" "d \<or> content t key = Some v"
    using rep_hash.IH [OF rep_hash.prems] by blast
  have "key \<noteq> [] \<Longrightarrow> insert_node load (HashNode h) pre key (ValueNode v) = tret (if d then (True, n') else (False, n))"
    using ins(1) rep_hash(1) by (subst insert_node.simps) (simp add: resolveHash_def)
  moreover have "inserts load hash_of t key v n" if "\<not> d" using inserts_same [OF rep_hash(3) rep_hash.prems(1)] ins(3) that by blast
  moreover have "key = [] \<Longrightarrow> insert_node load (HashNode h) pre key (ValueNode v) = tret (True, ValueNode v)"
    by (subst insert_node.simps) simp
  moreover have "key = [] \<Longrightarrow> inserts load hash_of t key v (ValueNode v)"
    using rep_hash(5) rep_hash.prems by (intro insertsI [where t' = "TVal v"]) (auto simp: slot_ok_def)
  ultimately show ?case using ins(2,3) by (cases "key = []") auto
qed

section \<open>Deletion\<close>

lemma rep_nil_iff: "rep load hash_of n t \<Longrightarrow> n = NilNode \<longleftrightarrow> t = TNil"
  by (erule rep.cases) auto

lemma u8_of_nat [simp]: "n < 256 \<Longrightarrow> unat (word_of_nat n :: u8) = n"
  by (simp add: unat_of_nat)

lemma content_only_child:
  assumes "length ts = 17" "pos < 17" "\<And>i. i < 17 \<Longrightarrow> i \<noteq> pos \<Longrightarrow> ts ! i = TNil"
  shows "content (TFull ts) = content (TShort [word_of_nat pos] (ts ! pos))"
proof
  fix key
  show "content (TFull ts) key = content (TShort [word_of_nat pos] (ts ! pos)) key"
  proof (cases key)
    case (Cons x rest)
    have "x = word_of_nat pos \<longleftrightarrow> unat x = pos" using assms(2) by (simp add: word_unat_eq_iff del: unat_inject)
    then show ?thesis using Cons assms by (cases "unat x = pos") auto
  qed simp
qed

lemma canon_Cons: "canon (TShort k t) \<Longrightarrow> x < 16 \<Longrightarrow> canon (TShort (x # k) t)"
  by (auto simp: canon_Short term_key_Cons)

lemma canon_append: "canon (TShort k t) \<Longrightarrow> nibbles p \<Longrightarrow> canon (TShort (p @ k) t)"
  by (auto simp: canon_Short term_key_append)

text \<open>The children of a full node, of which some may have become empty.\<close>

definition children_ok :: "trie list \<Rightarrow> bool" where
  "children_ok ts \<longleftrightarrow> length ts = 17 \<and> (\<forall>i<16. ts ! i = TNil \<or> canon (ts ! i)) \<and> (ts ! 16 = TNil \<or> (\<exists>v. v \<noteq> [] \<and> ts ! 16 = TVal v))"

lemma only_child_cases:
  assumes "list_all2 (rep load hash_of) ns ts"
  shows "only_child ns = (case filter (\<lambda>i. ts ! i \<noteq> TNil) [0..<length ts] of [i] \<Rightarrow> Some i | _ \<Rightarrow> None)"
proof -
  have "ns ! i \<noteq> NilNode \<longleftrightarrow> ts ! i \<noteq> TNil" if "i < length ts" for i
    using rep_nil_iff [OF list_all2_nthD2 [OF assms that]] by simp
  then have "filter (\<lambda>i. ns ! i \<noteq> NilNode) [0..<length ns] = filter (\<lambda>i. ts ! i \<noteq> TNil) [0..<length ts]"
    using list_all2_lengthD [OF assms] by (intro filter_cong) auto
  then show ?thesis by (simp add: only_child_def)
qed

lemma filter_upt_cases:
  assumes "j < n" "P j"
  obtains (one) i where "filter P [0..<n] = [i]" "i < n" "P i" "\<And>l. l < n \<Longrightarrow> l \<noteq> i \<Longrightarrow> \<not> P l"
  | (more) i i' where "i < n" "i' < n" "i \<noteq> i'" "P i" "P i'" "\<And>z. filter P [0..<n] \<noteq> [z]"
proof -
  have mem: "l \<in> set (filter P [0..<n]) \<longleftrightarrow> l < n \<and> P l" for l by auto
  have "distinct (filter P [0..<n])" by simp
  then show thesis
  proof (cases "filter P [0..<n]" rule: remdups_adj.cases)
    case 1
    then show thesis using mem [of j] assms by simp
  next
    case (2 i)
    then show thesis using mem by (intro one [of i]) auto
  next
    case (3 i i' l)
    then show thesis using mem [of i] mem [of i'] \<open>distinct (filter P [0..<n])\<close> by (intro more [of i i']) auto
  qed
qed

lemma reduce_full_rep:
  assumes "list_all2 (rep load hash_of) ns ts" "children_ok ts" "j < 17" "ts ! j \<noteq> TNil"
  shows "\<exists>n' t'. reduce_full load pre ns = tret n' \<and> rep load hash_of n' t' \<and> canon t' \<and> content t' = content (TFull ts) \<and> \<not> is_HashNode n'"
proof -
  have len: "length ts = 17" using assms(2) by (simp add: children_ok_def)
  note oc = only_child_cases [OF assms(1), unfolded len]
  from assms(3,4) show ?thesis
  proof (cases rule: filter_upt_cases [of j 17 "\<lambda>i. ts ! i \<noteq> TNil"])
    case (more i i')
    then have "only_child ns = None" unfolding oc by (auto split: list.split)
    moreover have "canon (TFull ts)" using more assms(2) len by (intro canon.full [of _ i i']) (auto simp: children_ok_def)
    ultimately show ?thesis using assms(1) by (intro exI [of _ "FullNode ns newFlag"] exI [of _ "TFull ts"]) (simp add: reduce_full_def)
  next
    case (one pos)
    then have oc: "only_child ns = Some pos" unfolding oc by simp
    have c: "content (TFull ts) = content (TShort [word_of_nat pos] (ts ! pos))" using content_only_child len one by blast
    have r: "rep load hash_of (ns ! pos) (ts ! pos)" using list_all2_nthD2 [OF assms(1)] len one(2) by simp
    show ?thesis
    proof (cases "pos = 16")
      case True
      then obtain v where "ts ! 16 = TVal v" "v \<noteq> []" using assms(2) one(3) by (auto simp: children_ok_def)
      then show ?thesis using oc c r True
        by (intro exI [of _ "ShortNode [16] (ns ! 16) newFlag"] exI [of _ "TShort [16] (TVal v)"])
          (auto simp: reduce_full_def term_key_def intro!: canon.leaf)
    next
      case False
      then have "pos < 16" using one(2) by simp
      then have pos: "pos < 16" "canon (ts ! pos)" using assms(2) one(3) by (auto simp: children_ok_def)
      obtain n where n: "resolve load (ns ! pos) pre = tret n" "rep load hash_of n (ts ! pos)" "\<not> is_HashNode n"
        using r by (cases rule: rep.cases) (auto simp: resolve_def resolveHash_def)
      have nib: "(word_of_nat pos :: u8) < 16" using pos(1) by (simp add: word_less_nat_alt)
      from n(2,3) pos(2) show ?thesis
      proof (cases rule: rep.cases)
        case (rep_short n' t' k f)
        then show ?thesis using oc c n(1) False pos nib content_short_append [of "[word_of_nat pos]" k t']
          by (intro exI [of _ "ShortNode (word_of_nat pos # k) n' newFlag"] exI [of _ "TShort (word_of_nat pos # k) t'"])
            (auto simp: reduce_full_def intro!: canon_Cons)
      next
        case (rep_full ns' ts' f)
        then show ?thesis using oc c n(1) r False pos nib
          by (intro exI [of _ "ShortNode [word_of_nat pos] (ns ! pos) newFlag"] exI [of _ "TShort [word_of_nat pos] (TFull ts')"])
            (auto simp: reduce_full_def intro!: canon.ext)
      qed auto
    qed
  qed
qed

text \<open>Deletion: the result stands for a canonical trie without the key.\<close>

definition deletes :: "loader \<Rightarrow> (trie \<Rightarrow> bytes \<Rightarrow> bool) \<Rightarrow> trie \<Rightarrow> bytes \<Rightarrow> node \<Rightarrow> bool" where
  "deletes load hash_of t key n' \<longleftrightarrow> (\<exists>t'. rep load hash_of n' t' \<and> slot_ok key t' \<and> content t' = (content t)(key := None))"

lemma deletesI: "rep load hash_of n' t' \<Longrightarrow> slot_ok key t' \<Longrightarrow> content t' = (content t)(key := None) \<Longrightarrow> deletes load hash_of t key n'"
  unfolding deletes_def by blast

lemma deletes_same: "rep load hash_of n t \<Longrightarrow> slot_ok key t \<Longrightarrow> content t key = None \<Longrightarrow> deletes load hash_of t key n"
  by (rule deletesI [where t' = t]) (simp_all add: fun_upd_idem)

lemma deletes_nil: "(\<And>k. k \<noteq> key \<Longrightarrow> content t k = None) \<Longrightarrow> deletes load hash_of t key NilNode"
  by (rule deletesI [where t' = TNil]) (auto simp: slot_ok_def fun_eq_iff)

text \<open>A canonical trie is not empty, and a full node holds keys with different first nibbles.\<close>

lemma canon_nonempty:
  assumes "canon t"
  shows "\<exists>k v. term_key k \<and> content t k = Some v"
  using assms
proof induction
  case (leaf k v)
  then have "content (TShort k (TVal v)) k = Some v" by simp
  then show ?case using leaf(1) by blast
next
  case (ext k ts)
  then obtain key v where "term_key key" "content (TFull ts) key = Some v" by blast
  then have "term_key (k @ key)" "content (TShort k (TFull ts)) (k @ key) = Some v" using ext(2) by (simp_all add: term_key_append)
  then show ?case by blast
next
  case (full ts i j)
  show ?case
  proof (cases "i < 16")
    case True
    then obtain k v where "term_key k" "content (ts ! i) k = Some v" using full by blast
    then have "term_key (word_of_nat i # k)" "content (TFull ts) (word_of_nat i # k) = Some v"
      using True full(1) by (simp_all add: term_key_Cons word_less_nat_alt)
    then show ?thesis by blast
  next
    case False
    then have "i = 16" using full by simp
    then obtain v where "ts ! 16 = TVal v" using full by blast
    then have "term_key [16]" "content (TFull ts) [16] = Some v" using full(1) by (simp_all add: term_key_Cons)
    then show ?thesis by blast
  qed
qed

lemma slot_nonempty:
  assumes "canon (TFull ts)" "i < 17" "ts ! i \<noteq> TNil"
  shows "\<exists>k v. content (TFull ts) (word_of_nat i # k) = Some v"
proof (cases "i < 16")
  case True
  then have "canon (ts ! i)" "length ts = 17" using assms by (auto elim!: canon_FullE)
  then show ?thesis using canon_nonempty [of "ts ! i"] True by auto
next
  case False
  then have "i = 16" using assms(2) by simp
  moreover obtain v where "ts ! 16 = TVal v" "length ts = 17" using assms \<open>i = 16\<close> by (auto elim!: canon_FullE)
  ultimately have "content (TFull ts) [word_of_nat i] = Some v" by simp
  then show ?thesis by blast
qed

lemma full_two_keys:
  assumes "canon (TFull ts)"
  obtains x k v y l w where "x \<noteq> y" "content (TFull ts) (x # k) = Some v" "content (TFull ts) (y # l) = Some w"
proof -
  obtain i j where ij: "i < 17" "j < 17" "i \<noteq> j" "ts ! i \<noteq> TNil" "ts ! j \<noteq> TNil" using assms by (auto elim!: canon_FullE)
  moreover have "(word_of_nat i :: u8) \<noteq> word_of_nat j" using ij by (simp add: word_unat_eq_iff del: unat_inject)
  ultimately show thesis using slot_nonempty [OF assms ij(1,4)] slot_nonempty [OF assms ij(2,5)] that by blast
qed

text \<open>What is left of a short node over a full node, after a deletion below.\<close>

lemma shrink_short:
  assumes "canon (TShort k (TFull ts))" "rest_key (k @ key)" "rep load hash_of n' t'" "slot_ok key t'" "\<not> is_HashNode n'"
    and "content t' = (content (TFull ts))(key := None)"
  defines "m \<equiv> (case n' of ShortNode ck cval _ \<Rightarrow> ShortNode (k @ ck) cval newFlag | _ \<Rightarrow> ShortNode k n' newFlag)"
  shows "deletes load hash_of (TShort k (TFull ts)) (k @ key) m"
proof -
  have k: "k \<noteq> []" "nibbles k" "canon (TFull ts)" using assms(1) by (auto simp: canon_Short)
  obtain x r v y l w where two: "x \<noteq> y" "content (TFull ts) (x # r) = Some v" "content (TFull ts) (y # l) = Some w"
    using full_two_keys [OF k(3)] .
  then have "content t' (x # r) = Some v \<or> content t' (y # l) = Some w" using assms(6) by auto
  then have ne: "t' \<noteq> TNil" by auto
  have "key \<noteq> []" using canon_short(2) [OF assms(1,2)] by (auto simp: slot_ok_def split: if_splits)
  then have canon: "canon t'" using assms(4) ne by (simp add: slot_ok_def)
  have c: "content (TShort k t') = (content (TShort k (TFull ts)))(k @ key := None)" using content_short_upd [OF assms(6)] .
  from assms(3,5) canon show ?thesis
  proof (cases rule: rep.cases)
    case (rep_short n t ck f)
    then show ?thesis using canon k(1,2) c
      by (intro deletesI [where t' = "TShort (k @ ck) t"]) (auto simp: m_def slot_ok_def content_short_append intro!: canon_append)
  next
    case (rep_full ns ts' f)
    then show ?thesis using canon k(1,2) c
      by (intro deletesI [where t' = "TShort k (TFull ts')"]) (auto simp: m_def slot_ok_def intro!: canon.ext)
  qed auto
qed

lemma delete_rep:
  assumes "rep load hash_of n t" "slot_ok key t" "rest_key key"
  shows "\<exists>d n'. delete_node load n pre key = tret (d, n') \<and> deletes load hash_of t key n'
    \<and> (d \<longrightarrow> \<not> is_HashNode n') \<and> (d \<or> content t key = None)"
  using assms
proof (induction arbitrary: key pre rule: rep.induct)
  case rep_nil
  then show ?case by (subst delete_node.simps) (auto intro!: deletes_same rep.rep_nil)
next
  case (rep_value w)
  then have "key = []" by (auto simp: slot_ok_def split: if_splits)
  moreover have "deletes load hash_of (TVal w) [] NilNode" by (rule deletes_nil) simp
  ultimately show ?case by (subst delete_node.simps) auto
next
  case (rep_short n t k f)
  then have key: "key \<noteq> []" "canon (TShort k t)" "term_key key" by (auto simp: slot_ok_def rest_key_def split: if_splits)
  show ?case
  proof (cases "prefixLen key k < length k")
    case True
    then have "content (TShort k t) key = None" using prefixLen_full [of key k] by simp
    then show ?thesis using True rep_short(1,2,4) by (subst delete_node.simps) (auto simp: Let_def intro!: deletes_same)
  next
    case False
    then have "prefixLen key k = length k" using prefixLen_le(2) [of key k] by simp
    then have "take (length k) key = k" by (simp add: prefixLen_full)
    then obtain rest where rest: "key = k @ rest" by (metis append_take_drop_id)
    note c = canon_short [OF key(2), of rest] and rk = rep_short(5) [unfolded rest]
    consider v where "t = TVal v" | ts where "t = TFull ts" using key(2) by (auto simp: canon_Short)
    then show ?thesis
    proof cases
      case 1
      then have "rest = []" using c rk by (auto simp: slot_ok_def split: if_splits)
      moreover have "deletes load hash_of (TShort k (TVal v)) k NilNode"
        by (rule deletes_nil) (auto simp: append_eq_conv_conj [symmetric])
      ultimately show ?thesis using 1 rest by (subst delete_node.simps) (auto simp: Let_def)
    next
      case 2
      then have "rest \<noteq> []" using c rk by (auto simp: slot_ok_def split: if_splits)
      obtain d n' where del: "delete_node load n (pre @ k) rest = tret (d, n')" "deletes load hash_of t rest n'"
        "d \<longrightarrow> \<not> is_HashNode n'" "d \<or> content t rest = None" using rep_short(3) [OF c(2,1), of "pre @ k"] rk by blast
      then obtain t' where t': "rep load hash_of n' t'" "slot_ok rest t'" "content t' = (content t)(rest := None)"
        unfolding deletes_def by blast
      let ?m = "case n' of ShortNode ck cval _ \<Rightarrow> ShortNode (k @ ck) cval newFlag | _ \<Rightarrow> ShortNode k n' newFlag"
      have "delete_node load (ShortNode k n f) pre key = tret (if d then (True, ?m) else (False, ShortNode k n f))"
        using del(1) \<open>rest \<noteq> []\<close> by (subst delete_node.simps) (simp add: rest Let_def)
      moreover have "d \<Longrightarrow> deletes load hash_of (TShort k t) key ?m"
        unfolding 2 rest using key(2) rk del(3) t'(3) 2 by (intro shrink_short [OF _ _ t'(1,2)]) simp_all
      moreover have "\<not> d \<Longrightarrow> deletes load hash_of (TShort k t) key (ShortNode k n f)"
        using del(4) rep_short(1,2,4) by (intro deletes_same) (auto simp: rest)
      moreover have "\<not> is_HashNode ?m" by (simp split: node.split)
      ultimately show ?thesis using del(4) by (auto simp: rest)
    qed
  qed
next
  case (rep_full ns ts f)
  then have canon: "canon (TFull ts)" "key \<noteq> []" by (auto simp: slot_ok_def split: if_splits)
  then obtain x rest where x: "key = x # rest" by (cases key) auto
  note child = canon_children [OF canon(1) rep_full(4) [unfolded x]] rest_key_Cons [OF rep_full(4) [unfolded x]]
  have i: "unat x < length ts" "length ns = length ts" using child(1,3) rep_full(1) by (auto dest: list_all2_lengthD)
  obtain d n' where del: "delete_node load (ns ! unat x) (pre @ [x]) rest = tret (d, n')"
    "deletes load hash_of (ts ! unat x) rest n'" "d \<or> content (ts ! unat x) rest = None"
    using list_all2_nthD2 [OF rep_full(1) i(1)] child(2,3) by blast
  then obtain t' where t': "rep load hash_of n' t'" "slot_ok rest t'" "content t' = (content (ts ! unat x))(rest := None)"
    unfolding deletes_def by blast
  have all: "list_all2 (rep load hash_of) ns ts" using rep_full(1) by (rule list_all2_mono) blast
  then have all': "list_all2 (rep load hash_of) (ns[unat x := n']) (ts[unat x := t'])" using t'(1) by (simp add: list_all2_update_cong)
  have ok: "children_ok (ts[unat x := t'])"
    using canon(1) t'(2) child(1,3) by (auto simp: children_ok_def slot_ok_def nth_list_update elim!: canon_FullE)
  obtain j where j: "j < 17" "ts[unat x := t'] ! j \<noteq> TNil"
  proof -
    obtain a b where "a < 17" "b < 17" "a \<noteq> b" "ts ! a \<noteq> TNil" "ts ! b \<noteq> TNil" using canon(1) by (auto elim!: canon_FullE)
    then show thesis by (cases "a = unat x") (auto intro: that [of a] that [of b])
  qed
  obtain m tm where m: "reduce_full load pre (ns[unat x := n']) = tret m" "rep load hash_of m tm" "canon tm"
    "content tm = content (TFull (ts[unat x := t']))" "\<not> is_HashNode m" using reduce_full_rep [OF all' ok j] by blast
  have "deletes load hash_of (TFull ts) key m"
    using m(2,3,4) content_full_upd [OF i(1) t'(3)] by (intro deletesI [where t' = tm]) (auto simp: slot_ok_def x)
  moreover have "\<not> d \<Longrightarrow> deletes load hash_of (TFull ts) key (FullNode ns f)"
    using del(3) all rep_full(2,3) i(1) by (intro deletes_same) (auto simp: x)
  moreover have "delete_node load (FullNode ns f) pre key = tret (if d then (True, m) else (False, FullNode ns f))"
    using del(1) i m(1) by (subst delete_node.simps) (simp add: x)
  ultimately show ?case using del(3) m(5) i(1) by (auto simp: x)
next
  case (rep_hash h n t)
  obtain d n' where del: "delete_node load n pre key = tret (d, n')" "deletes load hash_of t key n'"
    "d \<longrightarrow> \<not> is_HashNode n'" "d \<or> content t key = None" using rep_hash.IH [OF rep_hash.prems] by blast
  moreover have "delete_node load (HashNode h) pre key = tret (if d then (True, n') else (False, n))"
    using del(1) rep_hash(1) by (subst delete_node.simps) (simp add: resolveHash_def)
  moreover have "\<not> d \<Longrightarrow> deletes load hash_of t key n" using deletes_same [OF rep_hash(3) rep_hash.prems(1)] del(4) by auto
  ultimately show ?case by auto
qed

section \<open>A canonical trie is determined by its content\<close>

lemma content_shortD: "content (TShort k t) key = Some v \<Longrightarrow> \<exists>r. key = k @ r \<and> content t r = Some v"
  by (auto split: if_splits) (metis append_take_drop_id)

lemma content_short_same: "content (TShort k t) = content (TShort k t') \<Longrightarrow> content t = content t'"
proof
  fix key
  assume "content (TShort k t) = content (TShort k t')"
  then have "content (TShort k t) (k @ key) = content (TShort k t') (k @ key)" by simp
  then show "content t key = content t' key" by simp
qed

lemma common_prefix: "k' @ a = k @ x # r \<Longrightarrow> k' @ b = k @ y # l \<Longrightarrow> x \<noteq> y \<Longrightarrow> \<exists>z. k = k' @ z"
proof (induction k' arbitrary: k)
  case (Cons c k')
  then show ?case by (cases k) auto
qed simp

lemma ext_prefix:
  assumes "canon (TFull ts)" "content (TShort k (TFull ts)) = content (TShort k' t')"
  shows "\<exists>z. k = k' @ z"
proof -
  obtain x r v y l w where two: "x \<noteq> y" "content (TFull ts) (x # r) = Some v" "content (TFull ts) (y # l) = Some w"
    using full_two_keys [OF assms(1)] .
  then have "content (TShort k (TFull ts)) (k @ x # r) = Some v" "content (TShort k (TFull ts)) (k @ y # l) = Some w" by simp_all
  then obtain a b where "k @ x # r = k' @ a" "k @ y # l = k' @ b" unfolding assms(2) by (blast dest: content_shortD)
  then show ?thesis using common_prefix two(1) by metis
qed

lemma full_not_short:
  assumes "canon (TFull ts)" "k \<noteq> []"
  shows "content (TFull ts) \<noteq> content (TShort k t)"
proof
  assume eq: "content (TFull ts) = content (TShort k t)"
  obtain x r v y l w where two: "x \<noteq> y" "content (TFull ts) (x # r) = Some v" "content (TFull ts) (y # l) = Some w"
    using full_two_keys [OF assms(1)] .
  then obtain a b where "x # r = k @ a" "y # l = k @ b" unfolding eq by (blast dest: content_shortD)
  then show False using two(1) assms(2) by (cases k) auto
qed

lemma ext_not_leaf:
  assumes "canon (TFull ts)"
  shows "content (TShort k (TFull ts)) \<noteq> content (TShort k' (TVal v'))"
proof
  assume eq: "content (TShort k (TFull ts)) = content (TShort k' (TVal v'))"
  obtain x r v y l w where two: "x \<noteq> y" "content (TFull ts) (x # r) = Some v" "content (TFull ts) (y # l) = Some w"
    using full_two_keys [OF assms(1)] .
  then have "content (TShort k (TFull ts)) (k @ x # r) = Some v" "content (TShort k (TFull ts)) (k @ y # l) = Some w" by simp_all
  then have "k @ x # r = k'" "k @ y # l = k'" unfolding eq by (auto dest!: content_shortD split: if_splits)
  then show False using two(1) by auto
qed

lemma content_full_child: "length ts = 17 \<Longrightarrow> i < 17 \<Longrightarrow> content (ts ! i) = (\<lambda>k. content (TFull ts) (word_of_nat i # k))"
  by (simp add: fun_eq_iff)

lemma canon_unique:
  assumes "canon t" "canon t'" "content t = content t'"
  shows "t = t'"
  using assms
proof (induction arbitrary: t')
  case (leaf k v)
  from leaf(3) show ?case
  proof cases
    case (leaf k' v')
    have "content (TShort k (TVal v)) k = Some v" by simp
    then show ?thesis using leaf(1) \<open>content (TShort k (TVal v)) = content t'\<close> by (auto split: if_splits dest!: content_shortD)
  next
    case (ext k' ts)
    then show ?thesis using ext_not_leaf [OF ext(4)] leaf(4) by metis
  next
    case (full ts i j)
    then show ?thesis using full_not_short [of ts k "TVal v"] leaf by (metis term_key_nonempty)
  qed
next
  case (ext k ts)
  from ext(5) show ?case
  proof cases
    case (leaf k' v')
    then show ?thesis using ext_not_leaf [OF ext(3)] ext(6) by metis
  next
    case e: (ext k' ts')
    obtain z where "k = k' @ z" using ext_prefix [OF ext(3)] ext(6) e(1) by blast
    moreover obtain z' where "k' = k @ z'" using ext_prefix [OF e(4)] ext(6) e(1) by metis
    ultimately have "k = k'" by simp
    then show ?thesis using ext(4) [of "TFull ts'"] e content_short_same ext(6) by blast
  next
    case (full ts' i j)
    then show ?thesis using full_not_short [of ts' k "TFull ts"] ext by metis
  qed
next
  case (full ts i j)
  then have canon: "canon (TFull ts)" by (intro canon.full [of ts i j]) auto
  from full.prems(1) show ?case
  proof cases
    case (leaf k v)
    then show ?thesis using full_not_short [OF canon] full.prems(2) by (metis term_key_nonempty)
  next
    case (ext k ts')
    then show ?thesis using full_not_short [OF canon] full.prems(2) by metis
  next
    case f: (full ts' i' j')
    have c: "content (ts ! l) = content (ts' ! l)" if "l < 17" for l
      using content_full_child [OF full(1) that] content_full_child [OF f(2) that] full.prems(2) f(1) by simp
    have "ts ! l = ts' ! l" if "l < 17" for l
    proof (cases "l = 16")
      case True
      have "content (ts ! 16) [] = content (ts' ! 16) []" using c [of 16] by simp
      then show ?thesis using True full.hyps(2) f(4) by auto
    next
      case False
      then have l: "l < 16" using that by simp
      show ?thesis
      proof (cases "ts ! l = TNil \<or> ts' ! l = TNil")
        case True
        then show ?thesis using c [OF that] full.IH [OF l] f(3) [OF l] canon_nonempty by (metis content.simps(1) option.distinct(1))
      next
        case False
        then show ?thesis using c [OF that] full.IH [OF l] f(3) [OF l] by blast
      qed
    qed
    then show ?thesis using full(1) f(1,2) by (simp add: list_eq_iff_nth_eq)
  qed
qed

section \<open>The trie as a map\<close>

text \<open>The map on hex keys that a map on keys gives, and the maps a root node stands for.\<close>

definition hex_map :: "(bytes \<Rightarrow> bytes option) \<Rightarrow> bytes \<Rightarrow> bytes option" where
  "hex_map m k = (case hexToKeybytes k of Inr key \<Rightarrow> if keybytesToHex key = k then m key else None | Inl _ \<Rightarrow> None)"

lemma hex_map_key [simp]: "hex_map m (keybytesToHex key) = m key"
  by (simp add: hex_map_def keybytes_roundtrip)

lemma hex_map_upd: "hex_map (m(key := v)) = (hex_map m)(keybytesToHex key := v)"
proof
  fix k
  show "hex_map (m(key := v)) k = ((hex_map m)(keybytesToHex key := v)) k"
  proof (cases "k = keybytesToHex key")
    case False
    then show ?thesis by (auto simp: hex_map_def split: sum.split)
  qed simp
qed

lemma hex_map_inj: "hex_map m = hex_map m' \<Longrightarrow> m = m'"
proof
  fix key
  assume "hex_map m = hex_map m'"
  then have "hex_map m (keybytesToHex key) = hex_map m' (keybytesToHex key)" by simp
  then show "m key = m' key" by simp
qed

definition wf_trie :: "trie \<Rightarrow> bool" where
  "wf_trie t \<longleftrightarrow> t = TNil \<or> canon t"

lemma keybytesToHex_rest [simp]: "rest_key (keybytesToHex k)" "keybytesToHex k \<noteq> []"
  using nibbles_keybytesToHex [of k] by (auto simp: rest_key_def term_key_def keybytesToHex_def)

lemma slot_ok_root: "slot_ok (keybytesToHex k) t = wf_trie t"
  by (simp add: slot_ok_def wf_trie_def)

text \<open>The root node is hashed even when its encoding is short, so its hash is of another kind than those of the
  nodes below it: \<open>hash_of True\<close> for the root only, \<open>hash_of False\<close> for every node.\<close>

abbreviation any_hash :: "(bool \<Rightarrow> trie \<Rightarrow> bytes \<Rightarrow> bool) \<Rightarrow> trie \<Rightarrow> bytes \<Rightarrow> bool" where
  "any_hash hash_of t h \<equiv> \<exists>force. hash_of force t h"

inductive root_rep :: "loader \<Rightarrow> (bool \<Rightarrow> trie \<Rightarrow> bytes \<Rightarrow> bool) \<Rightarrow> node \<Rightarrow> trie \<Rightarrow> bool" for load hash_of where
  root_nil: "root_rep load hash_of NilNode TNil"
| root_short: "rep load (hash_of False) n t \<Longrightarrow> flag_ok load (any_hash hash_of) (TShort k t) f
    \<Longrightarrow> root_rep load hash_of (ShortNode k n f) (TShort k t)"
| root_full: "list_all2 (rep load (hash_of False)) ns ts \<Longrightarrow> flag_ok load (any_hash hash_of) (TFull ts) f
    \<Longrightarrow> root_rep load hash_of (FullNode ns f) (TFull ts)"
| root_hash: "load (BytesToHash h) = tret (Some n) \<Longrightarrow> \<not> is_HashNode n \<Longrightarrow> root_rep load hash_of n t \<Longrightarrow> any_hash hash_of t h \<Longrightarrow> t \<noteq> TNil
    \<Longrightarrow> root_rep load hash_of (HashNode h) t"

inductive_simps root_rep_simps [simp]: "root_rep load hash_of NilNode t" "root_rep load hash_of (ValueNode v) t"
  "root_rep load hash_of (ShortNode k n f) t" "root_rep load hash_of (FullNode ns f) t"

text \<open>A node that an operation has changed is dirty and has no hash, so it may become the root.\<close>

fun changed :: "node \<Rightarrow> bool" where
  "changed (ShortNode _ _ f) \<longleftrightarrow> f = newFlag"
| "changed (FullNode _ f) \<longleftrightarrow> f = newFlag"
| "changed (HashNode _) \<longleftrightarrow> False"
| "changed _ \<longleftrightarrow> True"

lemma rep_root: "rep load (hash_of False) n t \<Longrightarrow> changed n \<Longrightarrow> wf_trie t \<Longrightarrow> root_rep load hash_of n t"
  by (cases n) (auto simp: wf_trie_def)

lemma tbind_tret: "tbind m f = tret y \<longleftrightarrow> (\<exists>x. m = tret x \<and> f x = tret y)"
  by (cases m) (auto simp: tbind_def tret_def split: sum.splits)

text \<open>The root flag has no influence on the operations below it.\<close>

lemma tryGet_flag:
  "tryGet load (ShortNode k n f) key pos = tret (v, n', r) \<Longrightarrow>
     \<exists>n''. tryGet load (ShortNode k n g) key pos = tret (v, n'', r) \<and> (if r then \<exists>m. n' = ShortNode k m f \<and> n'' = ShortNode k m g else n'' = ShortNode k n g)"
  "tryGet load (FullNode ns f) key pos = tret (v, n', r) \<Longrightarrow>
     \<exists>n''. tryGet load (FullNode ns g) key pos = tret (v, n'', r) \<and> (if r then \<exists>ms. n' = FullNode ms f \<and> n'' = FullNode ms g else n'' = FullNode ns g)"
  unfolding tryGet.simps [of load "ShortNode _ _ _"] tryGet.simps [of load "FullNode _ _"]
  by (auto simp: tbind_tret split: if_splits)

lemma insert_flag:
  "insert_node load (ShortNode k n f) pre key v = tret (d, n') \<Longrightarrow> key \<noteq> [] \<Longrightarrow>
     insert_node load (ShortNode k n g) pre key v = tret (d, if d then n' else ShortNode k n g)"
  "insert_node load (FullNode ns f) pre key v = tret (d, n') \<Longrightarrow> key \<noteq> [] \<Longrightarrow>
     insert_node load (FullNode ns g) pre key v = tret (d, if d then n' else FullNode ns g)"
  unfolding insert_node.simps [of load "ShortNode _ _ _"] insert_node.simps [of load "FullNode _ _"]
  by (auto simp: tbind_tret Let_def split: if_splits)

lemma delete_flag:
  "delete_node load (ShortNode k n f) pre key = tret (d, n') \<Longrightarrow>
     delete_node load (ShortNode k n g) pre key = tret (d, if d then n' else ShortNode k n g)"
  "delete_node load (FullNode ns f) pre key = tret (d, n') \<Longrightarrow>
     delete_node load (FullNode ns g) pre key = tret (d, if d then n' else FullNode ns g)"
  unfolding delete_node.simps [of load "ShortNode _ _ _"] delete_node.simps [of load "FullNode _ _"]
  by (auto simp: tbind_tret Let_def split: if_splits)

lemma insert_changed:
  "insert_node load (ShortNode k n f) pre key v = tret (True, n') \<Longrightarrow> key \<noteq> [] \<Longrightarrow> changed n'"
  "insert_node load (FullNode ns f) pre key v = tret (True, n') \<Longrightarrow> key \<noteq> [] \<Longrightarrow> changed n'"
  unfolding insert_node.simps [of load "ShortNode _ _ _"] insert_node.simps [of load "FullNode _ _"]
  by (auto simp: tbind_tret Let_def split: if_splits)

lemma reduce_changed: "reduce_full load pre ns = tret n' \<Longrightarrow> changed n'"
  by (auto simp: reduce_full_def tbind_tret split: option.splits if_splits) (auto split: node.split)

lemma delete_changed:
  "delete_node load (ShortNode k n f) pre key = tret (True, n') \<Longrightarrow> changed n'"
  "delete_node load (FullNode ns f) pre key = tret (True, n') \<Longrightarrow> changed n'"
  unfolding delete_node.simps [of load "ShortNode _ _ _"] delete_node.simps [of load "FullNode _ _"]
  by (auto simp: tbind_tret Let_def split: if_splits intro: reduce_changed) (auto split: node.split)

lemma tryGet_root:
  assumes "root_rep load hash_of n t" "slot_ok key t" "term_key key"
  shows "\<exists>n' r. tryGet load n key 0 = tret (content t key, n', r) \<and> root_rep load hash_of n' t"
  using assms
proof (induction rule: root_rep.induct)
  case root_nil
  show ?case by (subst tryGet.simps) (auto intro: root_rep.root_nil)
next
  case (root_short n t k f)
  then obtain n' r where "tryGet load (ShortNode k n newFlag) key 0 = tret (content (TShort k t) key, n', r)" "rep load (hash_of False) n' (TShort k t)"
    using tryGet_rep [of load "hash_of False" "ShortNode k n newFlag" "TShort k t" 0 key] by (auto simp: rest_key_def)
  then show ?case using tryGet_flag(1) [of load k n newFlag key 0 _ n' r f] root_short(1,2) by (auto split: if_splits)
next
  case (root_full ns ts f)
  then obtain n' r where "tryGet load (FullNode ns newFlag) key 0 = tret (content (TFull ts) key, n', r)" "rep load (hash_of False) n' (TFull ts)"
    using tryGet_rep [of load "hash_of False" "FullNode ns newFlag" "TFull ts" 0 key] by (auto simp: rest_key_def)
  then show ?case using tryGet_flag(2) [of load ns newFlag key 0 _ n' r f] root_full(1,2) by (auto split: if_splits)
next
  case (root_hash h n t)
  then obtain n' r where "tryGet load n key 0 = tret (content t key, n', r)" "root_rep load hash_of n' t" by blast
  then show ?case by (subst tryGet.simps) (auto simp: resolveHash_def root_hash(1))
qed

definition root_inserts :: "loader \<Rightarrow> (bool \<Rightarrow> trie \<Rightarrow> bytes \<Rightarrow> bool) \<Rightarrow> trie \<Rightarrow> bytes \<Rightarrow> bytes option \<Rightarrow> node \<Rightarrow> bool" where
  "root_inserts load hash_of t key w n' \<longleftrightarrow> (\<exists>t'. root_rep load hash_of n' t' \<and> wf_trie t' \<and> content t' = (content t)(key := w))"

lemma root_inserts_same:
  "root_rep load hash_of n t \<Longrightarrow> wf_trie t \<Longrightarrow> content t key = w \<Longrightarrow> root_inserts load hash_of t key w n"
  unfolding root_inserts_def by (intro exI [of _ t]) (auto simp: fun_upd_idem)

lemma slot_ok_term: "term_key key \<Longrightarrow> slot_ok key t = wf_trie t"
  by (auto simp: slot_ok_def wf_trie_def)

lemma root_inserts_rep:
  "inserts load (hash_of False) t key v n' \<Longrightarrow> term_key key \<Longrightarrow> changed n' \<Longrightarrow> root_inserts load hash_of t key (Some v) n'"
  "deletes load (hash_of False) t key n' \<Longrightarrow> term_key key \<Longrightarrow> changed n' \<Longrightarrow> root_inserts load hash_of t key None n'"
  unfolding inserts_def deletes_def root_inserts_def by (auto simp: slot_ok_term intro: rep_root)

lemma insert_root:
  assumes "root_rep load hash_of n t" "wf_trie t" "term_key key" "v \<noteq> []"
  shows "\<exists>d n'. insert_node load n pre key (ValueNode v) = tret (d, n') \<and> root_inserts load hash_of t key (Some v) n' \<and> (d \<or> content t key = Some v)"
  using assms
proof (induction rule: root_rep.induct)
  case root_nil
  have "rep load (hash_of False) NilNode TNil" by simp
  then obtain d n' where ins: "insert_node load NilNode pre key (ValueNode v) = tret (d, n')" "inserts load (hash_of False) TNil key v n'" d
    using insert_rep [of load "hash_of False" NilNode TNil key v pre] root_nil by (auto simp: slot_ok_term rest_key_def)
  moreover have "key \<noteq> []" using root_nil(2) by auto
  ultimately have "changed n'" by (auto simp: insert_nil)
  then show ?case using ins root_inserts_rep(1) [of load hash_of, OF ins(2) root_nil(2)] by blast
next
  case (root_short n t k f)
  then have key: "key \<noteq> []" by auto
  obtain d n' where ins: "insert_node load (ShortNode k n newFlag) pre key (ValueNode v) = tret (d, n')"
    "inserts load (hash_of False) (TShort k t) key v n'" "d \<or> content (TShort k t) key = Some v"
    using insert_rep [of load "hash_of False" "ShortNode k n newFlag" "TShort k t" key v pre] root_short
    by (auto simp: slot_ok_term rest_key_def)
  have "root_inserts load hash_of (TShort k t) key (Some v) (if d then n' else ShortNode k n f)"
    using root_inserts_rep(1) [of load hash_of, OF ins(2) root_short(4)] ins(3) root_short insert_changed(1) [of load k n newFlag pre key "ValueNode v" n'] ins(1) key
    by (auto intro: root_inserts_same)
  then show ?case using insert_flag(1) [OF ins(1) key] ins(3) by blast
next
  case (root_full ns ts f)
  then have key: "key \<noteq> []" by auto
  obtain d n' where ins: "insert_node load (FullNode ns newFlag) pre key (ValueNode v) = tret (d, n')"
    "inserts load (hash_of False) (TFull ts) key v n'" "d \<or> content (TFull ts) key = Some v"
    using insert_rep [of load "hash_of False" "FullNode ns newFlag" "TFull ts" key v pre] root_full
    by (auto simp: slot_ok_term rest_key_def)
  have "root_inserts load hash_of (TFull ts) key (Some v) (if d then n' else FullNode ns f)"
    using root_inserts_rep(1) [of load hash_of, OF ins(2) root_full(4)] ins(3) root_full insert_changed(2) [of load ns newFlag pre key "ValueNode v" n'] ins(1) key
    by (auto intro: root_inserts_same)
  then show ?case using insert_flag(2) [OF ins(1) key] ins(3) by blast
next
  case (root_hash h n t)
  then have key: "key \<noteq> []" by auto
  obtain d n' where ins: "insert_node load n pre key (ValueNode v) = tret (d, n')" "root_inserts load hash_of t key (Some v) n'"
    "d \<or> content t key = Some v" using root_hash by blast
  have "insert_node load (HashNode h) pre key (ValueNode v) = tret (if d then (True, n') else (False, n))"
    using ins(1) root_hash(1) key by (subst insert_node.simps) (simp add: resolveHash_def)
  moreover have "root_inserts load hash_of t key (Some v) n" if "\<not> d" using ins(3) that root_hash by (auto intro: root_inserts_same)
  ultimately show ?case using ins(2,3) by auto
qed

lemma delete_root:
  assumes "root_rep load hash_of n t" "wf_trie t" "term_key key"
  shows "\<exists>d n'. delete_node load n pre key = tret (d, n') \<and> root_inserts load hash_of t key None n' \<and> (d \<or> content t key = None)"
  using assms
proof (induction rule: root_rep.induct)
  case root_nil
  show ?case by (subst delete_node.simps) (auto intro!: root_inserts_same simp: root_nil)
next
  case (root_short n t k f)
  obtain d n' where del: "delete_node load (ShortNode k n newFlag) pre key = tret (d, n')"
    "deletes load (hash_of False) (TShort k t) key n'" "d \<or> content (TShort k t) key = None"
    using delete_rep [of load "hash_of False" "ShortNode k n newFlag" "TShort k t" key pre] root_short
    by (auto simp: slot_ok_term rest_key_def)
  have "root_inserts load hash_of (TShort k t) key None (if d then n' else ShortNode k n f)"
    using root_inserts_rep(2) [of load hash_of, OF del(2) root_short(4)] del(3) root_short delete_changed(1) [of load k n newFlag pre key n'] del(1)
    by (auto intro: root_inserts_same)
  then show ?case using delete_flag(1) [OF del(1)] del(3) by blast
next
  case (root_full ns ts f)
  obtain d n' where del: "delete_node load (FullNode ns newFlag) pre key = tret (d, n')"
    "deletes load (hash_of False) (TFull ts) key n'" "d \<or> content (TFull ts) key = None"
    using delete_rep [of load "hash_of False" "FullNode ns newFlag" "TFull ts" key pre] root_full
    by (auto simp: slot_ok_term rest_key_def)
  have "root_inserts load hash_of (TFull ts) key None (if d then n' else FullNode ns f)"
    using root_inserts_rep(2) [of load hash_of, OF del(2) root_full(4)] del(3) root_full delete_changed(2) [of load ns newFlag pre key n'] del(1)
    by (auto intro: root_inserts_same)
  then show ?case using delete_flag(2) [OF del(1)] del(3) by blast
next
  case (root_hash h n t)
  obtain d n' where del: "delete_node load n pre key = tret (d, n')" "root_inserts load hash_of t key None n'"
    "d \<or> content t key = None" using root_hash by blast
  have "delete_node load (HashNode h) pre key = tret (if d then (True, n') else (False, n))"
    using del(1) root_hash(1) by (subst delete_node.simps) (simp add: resolveHash_def)
  moreover have "root_inserts load hash_of t key None n" if "\<not> d" using del(3) that root_hash by (auto intro: root_inserts_same)
  ultimately show ?case using del(2,3) by auto
qed

section \<open>The operations on maps\<close>

definition holds :: "loader \<Rightarrow> (bool \<Rightarrow> trie \<Rightarrow> bytes \<Rightarrow> bool) \<Rightarrow> node \<Rightarrow> (bytes \<Rightarrow> bytes option) \<Rightarrow> bool" where
  "holds load hash_of root m \<longleftrightarrow> (\<exists>t. root_rep load hash_of root t \<and> wf_trie t \<and> content t = hex_map m)"

lemma term_key_hex [simp]: "term_key (keybytesToHex k)"
  using keybytesToHex_rest [of k] by (simp add: rest_key_def)

lemma holds_empty: "holds load hash_of NilNode (\<lambda>_. None)"
  unfolding holds_def by (intro exI [of _ TNil]) (simp add: wf_trie_def hex_map_def fun_eq_iff split: sum.split)

lemma TryGet_holds:
  assumes "holds load hash_of root m"
  shows "\<exists>root'. TryGet load key root = tret (m key, root') \<and> holds load hash_of root' m"
proof -
  obtain t where t: "root_rep load hash_of root t" "wf_trie t" "content t = hex_map m" using assms by (auto simp: holds_def)
  obtain n' r where "tryGet load root (keybytesToHex key) 0 = tret (m key, n', r)" "root_rep load hash_of n' t"
    using tryGet_root [OF t(1), of "keybytesToHex key"] t(2,3) by (auto simp: slot_ok_term)
  then show ?thesis using t by (auto simp: TryGet_def holds_def)
qed

lemma TryDelete_holds:
  assumes "holds load hash_of root m"
  shows "\<exists>root'. TryDelete load key root = tret root' \<and> holds load hash_of root' (m(key := None))"
proof -
  obtain t where t: "root_rep load hash_of root t" "wf_trie t" "content t = hex_map m" using assms by (auto simp: holds_def)
  obtain d n' where "delete_node load root [] (keybytesToHex key) = tret (d, n')" "root_inserts load hash_of t (keybytesToHex key) None n'"
    using delete_root [OF t(1), of "keybytesToHex key" "[]"] t(2) by auto
  then show ?thesis using t(3) by (auto simp: TryDelete_def root_inserts_def holds_def hex_map_upd)
qed

lemma TryUpdate_holds:
  assumes "holds load hash_of root m"
  shows "\<exists>root'. TryUpdate load key value root = tret root' \<and> holds load hash_of root' (m(key := if value = [] then None else Some value))"
proof (cases "value = []")
  case True
  then show ?thesis using TryDelete_holds [OF assms, of key] by (simp add: TryUpdate_def TryDelete_def)
next
  case False
  obtain t where t: "root_rep load hash_of root t" "wf_trie t" "content t = hex_map m" using assms by (auto simp: holds_def)
  obtain d n' where ins: "insert_node load root [] (keybytesToHex key) (ValueNode value) = tret (d, n')"
    "root_inserts load hash_of t (keybytesToHex key) (Some value) n'" using insert_root [OF t(1,2) term_key_hex False] by blast
  then show ?thesis using t(3) False by (auto simp: TryUpdate_def root_inserts_def holds_def hex_map_upd)
qed

end
