(* ===== verification/Trie_Node.thy ===== *)
theory Trie_Node
  imports Patricia_Trie Rlp
begin

text \<open>
  The encoding of trie nodes (\<open>ethereum/trie/node.go\<close>): what \<open>rlp\<close> writes for a node and the decoder.  A node is
  encoded with its children replaced by references: their hash, or the node itself when its encoding
  is shorter than 32 bytes.  Decoder errors keep their kind, not the path that \<open>wrapError\<close> adds.  The functions that
  decode references and nodes call each other; here the called one is a parameter, and \<open>decodeNode\<close> ties the knot with
  fuel, one unit per nested node; the length of the input is enough.

  \<open>node_item\<close> is the reference: the RLP item of a whole trie as a function of the trie and the hash function.
\<close>

section \<open>Encoding\<close>

text \<open>The writer that \<open>rlp\<close> selects for a node; a missing child of a full node is written as the empty string.\<close>

fun rval_node :: "node \<Rightarrow> rval" where
  "rval_node NilNode = RNilInterface"
| "rval_node (ValueNode v) = RBytes v"
| "rval_node (HashNode h) = RBytes h"
| "rval_node (ShortNode k val _) = RList [RBytes k, rval_node val]"
| "rval_node (FullNode children _) = RList (map (\<lambda>c. if c = NilNode then RBytes [] else rval_node c) children)"

section \<open>Decoding\<close>

datatype decodeErr = RlpError rlp_err | InvalidCount nat | OversizedNode nat | InvalidSize nat | DecodePanic go_panic

type_synonym 'a dr = "(decodeErr + 'a) option"

definition rlift :: "(rlp_err + 'a) go \<Rightarrow> 'a dr" where
  "rlift m = (case m of Inl p \<Rightarrow> Some (Inl (DecodePanic p)) | Inr (Inl e) \<Rightarrow> Some (Inl (RlpError e)) | Inr (Inr x) \<Rightarrow> tret x)"

text \<open>\<open>c, _ := rlp.CountValues(elems)\<close>: the count is 0 when it fails.\<close>

definition count_values :: "bytes \<Rightarrow> nat dr" where
  "count_values elems = (case CountValues elems of None \<Rightarrow> None | Some (Inl p) \<Rightarrow> Some (Inl (DecodePanic p))
     | Some (Inr (Inl _)) \<Rightarrow> tret 0 | Some (Inr (Inr c)) \<Rightarrow> tret c)"

definition hashLen :: nat where "hashLen = 32"

definition decodeRef :: "(bytes \<Rightarrow> bytes \<Rightarrow> node dr) \<Rightarrow> bytes \<Rightarrow> (node \<times> bytes) dr" where
  "decodeRef dec buf = tbind (rlift (Split buf)) (\<lambda>(kind, val, rest).
     if kind = List then
       (let sz = length buf - length rest
        in if sz > hashLen then Some (Inl (OversizedNode sz)) else tbind (dec [] buf) (\<lambda>n. tret (n, rest)))
     else if kind = String \<and> length val = 0 then tret (NilNode, rest)
     else if kind = String \<and> length val = 32 then tret (HashNode val, rest)
     else Some (Inl (InvalidSize (length val))))"

definition decodeShort :: "(bytes \<Rightarrow> bytes \<Rightarrow> node dr) \<Rightarrow> bytes \<Rightarrow> bytes \<Rightarrow> node dr" where
  "decodeShort dec hash elems = tbind (rlift (SplitString elems)) (\<lambda>(kbuf, rest).
     let flag = \<lparr>nf_hash = hash, nf_dirty = False\<rparr>; key = compactToHex kbuf
     in if hasTerm key then tbind (rlift (SplitString rest)) (\<lambda>(val, _). tret (ShortNode key (ValueNode val) flag))
        else tbind (decodeRef dec rest) (\<lambda>(r, _). tret (ShortNode key r flag)))"

primrec decode_children :: "(bytes \<Rightarrow> bytes \<Rightarrow> node dr) \<Rightarrow> nat \<Rightarrow> bytes \<Rightarrow> (node list \<times> bytes) dr" where
  "decode_children dec 0 elems = tret ([], elems)"
| "decode_children dec (Suc i) elems = tbind (decodeRef dec elems) (\<lambda>(cld, rest).
     tbind (decode_children dec i rest) (\<lambda>(clds, rest). tret (cld # clds, rest)))"

definition decodeFull :: "(bytes \<Rightarrow> bytes \<Rightarrow> node dr) \<Rightarrow> bytes \<Rightarrow> bytes \<Rightarrow> node dr" where
  "decodeFull dec hash elems = tbind (decode_children dec 16 elems) (\<lambda>(clds, elems).
     tbind (rlift (SplitString elems)) (\<lambda>(val, _).
       tret (FullNode (clds @ [if length val > 0 then ValueNode val else NilNode]) \<lparr>nf_hash = hash, nf_dirty = False\<rparr>)))"

primrec decodeNode_fuel :: "nat \<Rightarrow> bytes \<Rightarrow> bytes \<Rightarrow> node dr" where
  "decodeNode_fuel 0 hash buf = None"
| "decodeNode_fuel (Suc fuel) hash buf =
     (if length buf = 0 then Some (Inl (RlpError ErrUnexpectedEOF))
      else tbind (rlift (SplitList buf)) (\<lambda>(elems, _). tbind (count_values elems) (\<lambda>c.
        if c = 2 then decodeShort (decodeNode_fuel fuel) hash elems
        else if c = 17 then decodeFull (decodeNode_fuel fuel) hash elems
        else Some (Inl (InvalidCount c)))))"

definition decodeNode :: "bytes \<Rightarrow> bytes \<Rightarrow> node dr" where
  "decodeNode hash buf = decodeNode_fuel (Suc (length buf)) hash buf"

definition mustDecodeNode :: "bytes \<Rightarrow> bytes \<Rightarrow> node tr" where
  "mustDecodeNode hash buf = map_option (map_sum (\<lambda>e. TriePanic (case e of DecodePanic p \<Rightarrow> p | _ \<Rightarrow> Explicit ''node decode error'')) id)
     (decodeNode hash buf)"

section \<open>The Merkle encoding of a trie\<close>

declare enc_item.simps [simp del]

definition hash32 :: "(bytes \<Rightarrow> bytes) \<Rightarrow> bool" where
  "hash32 keccak \<longleftrightarrow> (\<forall>b. length (keccak b) = 32)"

lemma hash32_simps [simp]: "hash32 keccak \<Longrightarrow> length (keccak b) = 32" "hash32 keccak \<Longrightarrow> keccak b \<noteq> []" "hash32 keccak \<Longrightarrow> BytesToHash (keccak b) = keccak b"
  unfolding hash32_def by (metis BytesToHash_32 length_0_conv zero_neq_numeral)+

text \<open>A subtrie is referred to by its hash when its encoding has at least 32 bytes.\<close>

definition ref_item :: "(bytes \<Rightarrow> bytes) \<Rightarrow> trie \<Rightarrow> item \<Rightarrow> item" where
  "ref_item keccak t x = (case t of TNil \<Rightarrow> x | TVal _ \<Rightarrow> x
     | _ \<Rightarrow> if length (enc_item x) < 32 then x else Str (keccak (enc_item x)))"

definition compact :: "bytes \<Rightarrow> bytes" where
  "compact k = (case hexToCompact k of Inr c \<Rightarrow> c | Inl _ \<Rightarrow> [])"

fun node_item :: "(bytes \<Rightarrow> bytes) \<Rightarrow> trie \<Rightarrow> item" where
  "node_item keccak TNil = Str []"
| "node_item keccak (TVal v) = Str v"
| "node_item keccak (TShort k t) = Lst [Str (compact k), ref_item keccak t (node_item keccak t)]"
| "node_item keccak (TFull ts) = Lst (map (\<lambda>t. ref_item keccak t (node_item keccak t)) ts)"

definition enc_trie :: "(bytes \<Rightarrow> bytes) \<Rightarrow> trie \<Rightarrow> bytes" where
  "enc_trie keccak t = enc_item (node_item keccak t)"

abbreviation ref_of :: "(bytes \<Rightarrow> bytes) \<Rightarrow> trie \<Rightarrow> item" where
  "ref_of keccak t \<equiv> ref_item keccak t (node_item keccak t)"

definition embedded :: "(bytes \<Rightarrow> bytes) \<Rightarrow> trie \<Rightarrow> bool" where
  "embedded keccak t \<longleftrightarrow> t = TNil \<or> (\<exists>v. t = TVal v) \<or> length (enc_trie keccak t) < 32"

lemma ref_item_eq: "ref_item keccak t x = (if t = TNil \<or> (\<exists>v. t = TVal v) \<or> length (enc_item x) < 32 then x else Str (keccak (enc_item x)))"
  by (simp add: ref_item_def split: trie.split)

lemma ref_item_leaf [simp]: "ref_item keccak TNil x = x" "ref_item keccak (TVal v) x = x"
  by (simp_all add: ref_item_def)

lemma ref_item_simps:
  "ref_of keccak TNil = Str []" "ref_of keccak (TVal v) = Str v"
  "embedded keccak t \<Longrightarrow> ref_of keccak t = node_item keccak t"
  "\<not> embedded keccak t \<Longrightarrow> ref_of keccak t = Str (keccak (enc_trie keccak t))"
  unfolding ref_item_eq embedded_def enc_trie_def by simp_all

text \<open>The hash of a subtrie that is referred to by its hash, and the hash of a root.  \<open>T\<close> is the set of tries that are
  hashed at all; no two of them may have the same hash.\<close>

definition trie_hash :: "(bytes \<Rightarrow> bytes) \<Rightarrow> trie set \<Rightarrow> bool \<Rightarrow> trie \<Rightarrow> bytes \<Rightarrow> bool" where
  "trie_hash keccak T force t h \<longleftrightarrow> t \<in> T \<and> (force \<or> \<not> embedded keccak t) \<and> h = keccak (enc_trie keccak t)"

text \<open>Hashes of nodes below the root: an embedded node has none.\<close>

definition inner_hash :: "(bytes \<Rightarrow> bytes) \<Rightarrow> (trie \<Rightarrow> bytes \<Rightarrow> bool) \<Rightarrow> bool" where
  "inner_hash keccak hash_of \<longleftrightarrow> (\<forall>t h. hash_of t h \<longrightarrow> \<not> embedded keccak t)"

lemma inner_trie_hash [simp]: "inner_hash keccak (trie_hash keccak T False)"
  by (simp add: inner_hash_def trie_hash_def)

text \<open>Keys and values far below the limits of 64-bit sizes.\<close>

fun sized :: "trie \<Rightarrow> bool" where
  "sized TNil \<longleftrightarrow> True"
| "sized (TVal v) \<longleftrightarrow> length v < 2 ^ 32"
| "sized (TShort k t) \<longleftrightarrow> length k < 2 ^ 32 \<and> sized t"
| "sized (TFull ts) \<longleftrightarrow> list_all sized ts"

lemma length_enc_str: "length (enc_str b) \<le> length b + 9"
  using intsize_bounds(2) [of "word_of_nat (length b)"] by (simp add: enc_str_def length_puthead headsize_def)

lemma chop_le: "unat (2 - (x AND 1) :: u8) \<le> 2"
  by (simp only: and_one_eq mod2_eq_if split: if_split) simp

lemma length_compactToHex: "2 * length c \<le> length (compactToHex c) + 2"
proof (cases "c = []")
  case False
  have len: "length (keybytesToHex c) = 2 * length c + 1" by (induction c) (simp_all add: keybytesToHex_def)
  define base where "base = (if keybytesToHex c ! 0 < 2 then butlast (keybytesToHex c) else keybytesToHex c)"
  have "2 * length c \<le> length base" using len by (simp add: base_def)
  moreover have "compactToHex c = drop (unat (2 - (base ! 0 AND 1))) base"
    unfolding compactToHex_def Let_def base_def [symmetric] using False by (simp only: length_0_conv if_False)
  then have "length (compactToHex c) = length base - unat (2 - (base ! 0 AND 1))" by (simp only: length_drop)
  ultimately show ?thesis using chop_le [of "base ! 0"] by linarith
qed simp

lemma compact_simps:
  assumes "hex_key k"
  shows "hexToCompact k = Inr (compact k)" "compactToHex (compact k) = k" "length (compact k) \<le> length k + 1"
proof -
  obtain c where c: "hexToCompact k = Inr c" "compactToHex c = k" using compact_roundtrip [OF assms] .
  then show 1: "hexToCompact k = Inr (compact k)" "compactToHex (compact k) = k" by (simp_all add: compact_def)
  show "length (compact k) \<le> length k + 1" using length_compactToHex [of "compact k"] by (simp add: 1(2))
qed

lemma length_enc_Lst: "length (enc_item (Lst xs)) \<le> length (concat (map enc_item xs)) + 9"
  using intsize_bounds(2) [of "word_of_nat (length (concat (map enc_item xs)))"]
  by (simp add: enc_item.simps length_puthead headsize_def Let_def del: length_concat)

lemma enc_Str: "enc_item (Str b) = enc_str b"
  by (simp add: enc_item.simps)

lemma length_ref:
  assumes "hash32 keccak" "sized t"
  shows "length (enc_item (ref_of keccak t)) \<le> 2 ^ 32 + 9"
proof -
  consider "t = TNil" | v where "t = TVal v" | "embedded keccak t" "length (enc_trie keccak t) < 32" | "\<not> embedded keccak t"
    unfolding embedded_def by blast
  then show ?thesis
  proof cases
    case 1 then show ?thesis by (simp add: ref_item_simps enc_Str enc_str_simps)
  next
    case (2 v) then show ?thesis using length_enc_str [of v] assms(2) by (simp add: ref_item_simps enc_Str)
  next
    case 3 then show ?thesis by (simp add: ref_item_simps(3) enc_trie_def)
  next
    case 4 then show ?thesis using length_enc_str [of "keccak (enc_trie keccak t)"] assms(1) by (simp add: ref_item_simps(4) enc_Str)
  qed
qed

lemma sum_list_bound: "(\<And>x. x \<in> set xs \<Longrightarrow> f x \<le> (c :: nat)) \<Longrightarrow> sum_list (map f xs) \<le> c * length xs"
  by (induction xs) (auto intro: add_mono)

lemma length_enc_trie:
  assumes "hash32 keccak" "sized t" "canon t"
  shows "length (enc_trie keccak t) < 2 ^ 40"
proof (cases t)
  case (TShort k t')
  then have k: "hex_key k" "length k < 2 ^ 32" "sized t'" using assms(2,3) by (auto simp: canon_Short hex_key_def term_key_def)
  have "length (enc_item (Str (compact k))) \<le> 2 ^ 32 + 10"
    using length_enc_str [of "compact k"] compact_simps(3) [OF k(1)] k(2) by (simp add: enc_Str)
  then show ?thesis
    using length_ref [of keccak t', OF assms(1) k(3)] length_enc_Lst [of "[Str (compact k), ref_of keccak t']"] by (simp add: TShort enc_trie_def)
next
  case (TFull ts)
  then have ts: "length ts = 17" "\<And>t. t \<in> set ts \<Longrightarrow> sized t" using assms(2,3) by (auto elim: canon_FullE simp: list_all_iff)
  have "length (concat (map enc_item (map (ref_of keccak) ts))) \<le> (2 ^ 32 + 9) * length ts"
    unfolding length_concat map_map using length_ref [of keccak, OF assms(1) ts(2)] by (intro sum_list_bound) simp
  then show ?thesis using length_enc_Lst [of "map (ref_of keccak) ts"] ts(1) by (simp add: TFull enc_trie_def)
qed (use assms(3) in simp_all)

section \<open>Decoding gives back the trie\<close>

text \<open>Every subtrie of \<open>t\<close> that is referred to by its hash satisfies \<open>R\<close>.\<close>

fun linked :: "(trie \<Rightarrow> bool) \<Rightarrow> (bytes \<Rightarrow> bytes) \<Rightarrow> trie \<Rightarrow> bool" where
  "linked R keccak (TShort k t) \<longleftrightarrow> (if embedded keccak t then linked R keccak t else R t)"
| "linked R keccak (TFull ts) \<longleftrightarrow> list_all (\<lambda>t. if embedded keccak t then linked R keccak t else R t) ts"
| "linked R keccak _ \<longleftrightarrow> True"

text \<open>The node \<open>n\<close> with flags \<open>f\<close> stands for \<open>t\<close>, the flags aside.\<close>

inductive expands :: "loader \<Rightarrow> (trie \<Rightarrow> bytes \<Rightarrow> bool) \<Rightarrow> nodeFlag \<Rightarrow> node \<Rightarrow> trie \<Rightarrow> bool" for load hash_of f where
  "rep load hash_of n t \<Longrightarrow> expands load hash_of f (ShortNode k n f) (TShort k t)"
| "list_all2 (rep load hash_of) ns ts \<Longrightarrow> expands load hash_of f (FullNode ns f) (TFull ts)"

lemma expands_rep: "expands load hash_of f n t \<Longrightarrow> flag_ok load hash_of t f \<Longrightarrow> rep load hash_of n t"
  by (cases rule: expands.cases) auto

lemma expands_root: "expands load (hash_of False) f n t \<Longrightarrow> flag_ok load (any_hash hash_of) t f \<Longrightarrow> root_rep load hash_of n t"
  by (cases rule: expands.cases) auto

abbreviation loaded_flag :: "bytes \<Rightarrow> nodeFlag" where
  "loaded_flag h \<equiv> \<lparr>nf_hash = h, nf_dirty = False\<rparr>"

lemma rlift_simps [simp]: "rlift (Inr (Inr x)) = tret x"
  by (simp add: rlift_def)

lemma canon_item: "canon t \<Longrightarrow> \<exists>xs. node_item keccak t = Lst xs"
  by (cases t) auto

lemma decodeRef_item:
  assumes k: "hash32 keccak" and t: "t = TNil \<or> canon t" and len: "length (enc_item (ref_of keccak t) @ r) < 2 ^ 64"
    and dec: "\<And>r. embedded keccak t \<Longrightarrow> canon t \<Longrightarrow> length (enc_trie keccak t @ r) < 2 ^ 64
      \<Longrightarrow> \<exists>n. dec [] (enc_trie keccak t @ r) = tret n \<and> expands load hash_of (loaded_flag []) n t"
    and link: "\<not> embedded keccak t \<Longrightarrow> rep load hash_of (HashNode (keccak (enc_trie keccak t))) t"
    and emb: "inner_hash keccak hash_of"
  shows "\<exists>n. decodeRef dec (enc_item (ref_of keccak t) @ r) = tret (n, r) \<and> rep load hash_of n t"
proof -
  consider "t = TNil" | "embedded keccak t" "canon t" | "\<not> embedded keccak t" using t by blast
  then show ?thesis
  proof cases
    case 1
    then have "Split (enc_item (Str []) @ r) = Inr (Inr (String, [], r))" using len by (intro Split_String) (auto simp: ref_item_simps)
    then show ?thesis using 1 by (intro exI [of _ NilNode]) (simp add: decodeRef_def ref_item_simps)
  next
    case 2
    then obtain xs where xs: "node_item keccak t = Lst xs" using canon_item by blast
    have l: "length (enc_trie keccak t @ r) < 2 ^ 64" using len by (simp only: ref_item_simps(3) [OF 2(1)] enc_trie_def)
    have small: "length (enc_trie keccak t) < 32" using 2 by (auto simp: embedded_def)
    have sp: "Split (enc_trie keccak t @ r) = Inr (Inr (List, concat (map enc_item xs), r))"
      using l Split_Lst [of xs r] by (simp only: enc_trie_def xs)
    obtain n where n: "dec [] (enc_trie keccak t @ r) = tret n" "expands load hash_of (loaded_flag []) n t" using dec [OF 2 l] by blast
    have "decodeRef dec (enc_trie keccak t @ r) = tret (n, r)" using sp n(1) small by (simp add: decodeRef_def hashLen_def Let_def)
    moreover have "rep load hash_of n t" using n(2) by (rule expands_rep) (use 2(1) emb in \<open>auto simp: flag_ok_def inner_hash_def\<close>)
    ultimately show ?thesis by (auto simp: ref_item_simps(3) [OF 2(1)] enc_trie_def)
  next
    case 3
    have "Split (enc_item (Str (keccak (enc_trie keccak t))) @ r) = Inr (Inr (String, keccak (enc_trie keccak t), r))"
      using len k 3 by (intro Split_String) (auto simp: ref_item_simps)
    moreover have "keccak (enc_trie keccak t) \<noteq> []" using k by simp
    ultimately show ?thesis using link [OF 3] k
      by (intro exI [of _ "HashNode (keccak (enc_trie keccak t))"]) (simp add: decodeRef_def ref_item_simps(4) [OF 3])
  qed
qed

lemma SplitString_Str: "length (enc_item (Str b) @ r) < 2 ^ 64 \<Longrightarrow> SplitString (enc_item (Str b) @ r) = Inr (Inr (b, r))"
  using Split_Str [of b r] by (auto simp: SplitString_def)

lemma SplitList_Lst: "length (enc_item (Lst xs) @ r) < 2 ^ 64 \<Longrightarrow> SplitList (enc_item (Lst xs) @ r) = Inr (Inr (concat (map enc_item xs), r))"
  using Split_Lst [of xs r] by (auto simp: SplitList_def)

lemma length_body: "length (concat (map enc_item xs)) \<le> length (enc_item (Lst xs))"
  by (simp add: enc_item.simps Let_def)

lemma decodeNode_Lst:
  assumes "length (enc_item (Lst xs) @ r) < 2 ^ 64"
  shows "decodeNode_fuel (Suc fuel) h (enc_item (Lst xs) @ r) =
    (let elems = concat (map enc_item xs)
     in if length xs = 2 then decodeShort (decodeNode_fuel fuel) h elems
        else if length xs = 17 then decodeFull (decodeNode_fuel fuel) h elems else Some (Inl (InvalidCount (length xs))))"
proof -
  have "length (concat (map enc_item xs)) < 2 ^ 64" using length_body [of xs] assms by simp
  then have "count_values (concat (map enc_item xs)) = tret (length xs)" by (simp add: count_values_def CountValues_items)
  then show ?thesis using SplitList_Lst [OF assms] by (simp add: Let_def enc_item_nonempty)
qed

lemma decode_children_items:
  assumes "\<And>t r. t \<in> set ts \<Longrightarrow> length (enc_item (ref_of keccak t) @ r) < 2 ^ 64
    \<Longrightarrow> \<exists>n. decodeRef dec (enc_item (ref_of keccak t) @ r) = tret (n, r) \<and> rep load hash_of n t"
    and "length (concat (map (\<lambda>t. enc_item (ref_of keccak t)) ts) @ r) < 2 ^ 64"
  shows "\<exists>ns. decode_children dec (length ts) (concat (map (\<lambda>t. enc_item (ref_of keccak t)) ts) @ r) = tret (ns, r) \<and> list_all2 (rep load hash_of) ns ts"
  using assms
proof (induction ts)
  case (Cons t ts)
  let ?rest = "concat (map (\<lambda>t. enc_item (ref_of keccak t)) ts) @ r"
  have len: "length (enc_item (ref_of keccak t) @ ?rest) < 2 ^ 64" "length ?rest < 2 ^ 64" using Cons.prems(2) by (simp_all del: length_concat)
  obtain n where "decodeRef dec (enc_item (ref_of keccak t) @ ?rest) = tret (n, ?rest)" "rep load hash_of n t"
    using Cons.prems(1) [OF _ len(1)] by auto
  moreover obtain ns where "decode_children dec (length ts) ?rest = tret (ns, r)" "list_all2 (rep load hash_of) ns ts"
    using Cons.IH Cons.prems(1) len(2) by auto
  ultimately show ?case by (intro exI [of _ "n # ns"]) simp
qed simp

lemma length_member:
  assumes "x \<in> set xs"
  shows "length (enc_item x) < length (enc_item (Lst xs))"
proof -
  have "length (enc_item x) \<le> length (concat (map enc_item xs))"
    unfolding length_concat using assms by (intro member_le_sum_list) simp_all
  moreover have "length (concat (map enc_item xs)) < length (enc_item (Lst xs))" by (simp add: enc_item.simps Let_def puthead_def)
  ultimately show ?thesis by simp
qed

lemma length_child:
  "embedded keccak t \<Longrightarrow> length (enc_trie keccak t) < length (enc_trie keccak (TShort k t))"
  "embedded keccak t \<Longrightarrow> t \<in> set ts \<Longrightarrow> length (enc_trie keccak t) < length (enc_trie keccak (TFull ts))"
  using length_member [of "ref_of keccak t" "[Str (compact k), ref_of keccak t]"] length_member [of "ref_of keccak t" "map (ref_of keccak) ts"]
  using imageI [of t "set ts" "ref_of keccak"] by (simp_all add: enc_trie_def ref_item_simps(3))

lemma canon_hex_key: "canon (TShort k t) \<Longrightarrow> hex_key k"
  by (auto simp: canon_Short hex_key_def term_key_def)

text \<open>The two kinds of short nodes.\<close>

lemma decodeShort_leaf:
  assumes "term_key k" "length (enc_item (Str (compact k)) @ enc_item (Str v)) < 2 ^ 64"
  shows "decodeShort dec h (enc_item (Str (compact k)) @ enc_item (Str v)) = tret (ShortNode k (ValueNode v) (loaded_flag h))"
proof -
  have k: "hex_key k" "hasTerm k" using assms(1) by (auto simp: hex_key_def term_key_def)
  then show ?thesis using SplitString_Str [OF assms(2)] SplitString_Str [of v "[]"] assms(2) compact_simps(2) [OF k(1)]
    by (simp add: decodeShort_def)
qed

lemma decodeShort_ext:
  assumes "nibbles k" "length (enc_item (Str (compact k)) @ e) < 2 ^ 64" "decodeRef dec e = tret (n, r)"
  shows "decodeShort dec h (enc_item (Str (compact k)) @ e) = tret (ShortNode k n (loaded_flag h))"
proof -
  have k: "hex_key k" "\<not> hasTerm k" using assms(1) by (simp_all add: hex_key_def)
  then show ?thesis using SplitString_Str [OF assms(2)] assms(3) compact_simps(2) [OF k(1)] by (simp add: decodeShort_def)
qed

lemma decodeFull_items:
  assumes "length ts = 16" "t16 = TNil \<or> (\<exists>v. v \<noteq> [] \<and> t16 = TVal v)"
    and "\<And>t r. t \<in> set ts \<Longrightarrow> length (enc_item (ref_of keccak t) @ r) < 2 ^ 64
      \<Longrightarrow> \<exists>n. decodeRef dec (enc_item (ref_of keccak t) @ r) = tret (n, r) \<and> rep load hash_of n t"
    and "length (concat (map (\<lambda>t. enc_item (ref_of keccak t)) (ts @ [t16]))) < 2 ^ 64"
  shows "\<exists>ns. decodeFull dec h (concat (map (\<lambda>t. enc_item (ref_of keccak t)) (ts @ [t16]))) = tret (FullNode ns (loaded_flag h))
    \<and> list_all2 (rep load hash_of) ns (ts @ [t16])"
proof -
  obtain b where b: "ref_of keccak t16 = Str b" "rep load hash_of (if length b > 0 then ValueNode b else NilNode) t16"
    using assms(2) by auto
  have len: "length (concat (map (\<lambda>t. enc_item (ref_of keccak t)) ts) @ enc_item (Str b)) < 2 ^ 64" using assms(4) by (simp add: b(1) del: length_concat)
  then obtain ns where ns: "decode_children dec 16 (concat (map (\<lambda>t. enc_item (ref_of keccak t)) ts) @ enc_item (Str b)) = tret (ns, enc_item (Str b))"
    "list_all2 (rep load hash_of) ns ts" using decode_children_items [of ts keccak dec load hash_of, OF assms(3)] assms(1) by auto
  moreover have "SplitString (enc_item (Str b)) = Inr (Inr (b, []))" using SplitString_Str [of b "[]"] len by (simp del: length_concat)
  ultimately show ?thesis using b(2) ns(2) assms(1)
    by (intro exI [of _ "ns @ [if length b > 0 then ValueNode b else NilNode]"])
      (simp add: decodeFull_def b(1) list_all2_appendI list_all2_lengthD)
qed

lemma decode_rep:
  assumes k: "hash32 keccak" and emb: "inner_hash keccak hash_of"
  shows "canon t \<Longrightarrow> linked (\<lambda>t. rep load hash_of (HashNode (keccak (enc_trie keccak t))) t) keccak t \<Longrightarrow> length (enc_trie keccak t) < fuel
    \<Longrightarrow> length (enc_trie keccak t @ r) < 2 ^ 64
    \<Longrightarrow> \<exists>n. decodeNode_fuel fuel h (enc_trie keccak t @ r) = tret n \<and> expands load hash_of (loaded_flag h) n t"
proof (induction arbitrary: fuel h r rule: canon.induct)
  case (leaf k v)
  then obtain f where f: "fuel = Suc f" by (cases fuel) auto
  let ?xs = "[Str (compact k), Str v]"
  have len: "length (enc_item (Lst ?xs) @ r) < 2 ^ 64" using leaf(5) by (simp add: enc_trie_def)
  have "length (enc_item (Str (compact k)) @ enc_item (Str v)) < 2 ^ 64" using length_body [of ?xs] len by simp
  then have "decodeNode_fuel fuel h (enc_item (Lst ?xs) @ r) = tret (ShortNode k (ValueNode v) (loaded_flag h))"
    unfolding f decodeNode_Lst [OF len] using decodeShort_leaf [OF leaf(1)] by (simp add: Let_def)
  then show ?case by (auto simp: enc_trie_def intro: expands.intros)
next
  case (ext k ts)
  then obtain f where f: "fuel = Suc f" by (cases fuel) auto
  let ?t = "TFull ts" let ?xs = "[Str (compact k), ref_of keccak ?t]"
  have len: "length (enc_item (Lst ?xs) @ r) < 2 ^ 64" using ext.prems(3) by (simp add: enc_trie_def)
  have len': "length (enc_item (Str (compact k)) @ enc_item (ref_of keccak ?t)) < 2 ^ 64" using length_body [of ?xs] len by simp
  have "\<exists>n. decodeRef (decodeNode_fuel f) (enc_item (ref_of keccak ?t) @ []) = tret (n, []) \<and> rep load hash_of n ?t"
  proof (rule decodeRef_item [OF k _ _ _ _ emb])
    show "\<exists>n. decodeNode_fuel f [] (enc_trie keccak ?t @ r) = tret n \<and> expands load hash_of (loaded_flag []) n ?t"
      if "embedded keccak ?t" "length (enc_trie keccak ?t @ r) < 2 ^ 64" for r
      using length_child(1) [OF that(1), of k] that ext.prems(1,2) f by (intro ext.IH) auto
  qed (use len' ext(3) ext.prems(1) in \<open>auto split: if_splits\<close>)
  then obtain n where n: "decodeRef (decodeNode_fuel f) (enc_item (ref_of keccak ?t)) = tret (n, [])" "rep load hash_of n ?t" by auto
  have "decodeNode_fuel fuel h (enc_item (Lst ?xs) @ r) = tret (ShortNode k n (loaded_flag h))"
    unfolding f decodeNode_Lst [OF len] using decodeShort_ext [OF ext(2) len' n(1)] by (simp add: Let_def)
  then show ?case using n(2) by (auto simp: enc_trie_def intro: expands.intros)
next
  case (full ts i j)
  then obtain f where f: "fuel = Suc f" by (cases fuel) auto
  let ?xs = "map (ref_of keccak) ts"
  have len: "length (enc_item (Lst ?xs) @ r) < 2 ^ 64" using full.prems(3) by (simp add: enc_trie_def)
  have ts: "ts = take 16 ts @ [ts ! 16]" using full(1) take_Suc_conv_app_nth [of 16 ts] by simp
  have child: "\<exists>n. decodeRef (decodeNode_fuel f) (enc_item (ref_of keccak t) @ r) = tret (n, r) \<and> rep load hash_of n t"
    if t: "t \<in> set (take 16 ts)" "length (enc_item (ref_of keccak t) @ r) < 2 ^ 64" for t r
  proof -
    obtain l where l: "l < 16" "t = ts ! l" using t(1) full(1) by (auto simp: in_set_conv_nth)
    then have mem: "t \<in> set ts" using full(1) by simp
    show ?thesis
    proof (rule decodeRef_item [OF k _ t(2) _ _ emb])
      show "\<exists>n. decodeNode_fuel f [] (enc_trie keccak t @ r) = tret n \<and> expands load hash_of (loaded_flag []) n t"
        if "embedded keccak t" "canon t" "length (enc_trie keccak t @ r) < 2 ^ 64" for r
      proof -
        have "linked (\<lambda>t. rep load hash_of (HashNode (keccak (enc_trie keccak t))) t) keccak t" using full.prems(1) mem that(1) by (auto simp: list_all_iff)
        moreover have "length (enc_trie keccak t) < f" using length_child(2) [OF that(1) mem] full.prems(2) f by simp
        ultimately show ?thesis using full.IH [OF l(1)] that unfolding l(2) by auto
      qed
    qed (use l full.IH [of l] full.prems(1) mem in \<open>auto simp: list_all_iff\<close>)
  qed
  have "length (concat (map (\<lambda>t. enc_item (ref_of keccak t)) ts)) < 2 ^ 64"
    using length_body [of ?xs] len by (simp add: comp_def del: length_concat)
  then obtain ns where "decodeFull (decodeNode_fuel f) h (concat (map (\<lambda>t. enc_item (ref_of keccak t)) ts)) = tret (FullNode ns (loaded_flag h))"
    "list_all2 (rep load hash_of) ns ts"
    using decodeFull_items [of "take 16 ts" "ts ! 16" keccak "decodeNode_fuel f" load hash_of h, OF _ full.hyps(2) child] full(1) ts by auto
  then show ?case unfolding f enc_trie_def node_item.simps decodeNode_Lst [OF len] using full(1)
    by (auto simp: Let_def comp_def intro: expands.intros)
qed

section \<open>Arbitrary input\<close>

text \<open>The shape of a decoded node: a full node has 17 children, the last of them a value or nothing and the others no
  values; a short node holds a value exactly when its key is terminated; hashes have 32 bytes.\<close>

fun is_value :: "node \<Rightarrow> bool" where
  "is_value (ValueNode _) \<longleftrightarrow> True"
| "is_value _ \<longleftrightarrow> False"

fun shaped :: "node \<Rightarrow> bool" where
  "shaped (FullNode ns f) \<longleftrightarrow> length ns = 17 \<and> list_all shaped ns \<and> \<not> list_ex is_value (take 16 ns)
     \<and> (ns ! 16 = NilNode \<or> is_value (ns ! 16)) \<and> \<not> nf_dirty f"
| "shaped (ShortNode k n f) \<longleftrightarrow> shaped n \<and> is_value n = hasTerm k \<and> \<not> nf_dirty f"
| "shaped (HashNode h) \<longleftrightarrow> length h = 32"
| "shaped (ValueNode v) \<longleftrightarrow> True"
| "shaped NilNode \<longleftrightarrow> True"

definition decoded :: "('a \<Rightarrow> bool) \<Rightarrow> 'a dr \<Rightarrow> bool" where
  "decoded P r \<longleftrightarrow> (case r of None \<Rightarrow> False | Some (Inl e) \<Rightarrow> (\<forall>p. e \<noteq> DecodePanic p) | Some (Inr x) \<Rightarrow> P x)"

lemma decoded_simps [simp]: "decoded P (tret x) = P x" "decoded P (Some (Inl e)) = (\<forall>p. e \<noteq> DecodePanic p)"
  by (simp_all add: decoded_def tret_def)

lemma decoded_bind:
  assumes "decoded P m" "\<And>x. P x \<Longrightarrow> decoded Q (f x)"
  shows "decoded Q (tbind m f)"
proof (cases "\<exists>x. m = Some (Inr x)")
  case True
  then show ?thesis using assms by (auto simp: decoded_def tbind_def)
next
  case False
  then show ?thesis using assms(1) by (auto simp: decoded_def tbind_def split: option.splits sum.splits)
qed

lemma decoded_Split:
  assumes "length b < 2 ^ 64"
  shows "decoded (\<lambda>(k, c, rest). length c \<le> length b \<and> length rest < length b \<and> (k = List \<longrightarrow> length c < length b)) (rlift (Split b))"
  using Split_total [OF assms] by (auto simp: rlift_def)

lemma decoded_SplitString:
  assumes "length b < 2 ^ 64"
  shows "decoded (\<lambda>(c, rest). length rest < length b) (rlift (SplitString b))"
  using Split_total [OF assms] by (auto simp: rlift_def SplitString_def)

lemma decoded_SplitList:
  assumes "length b < 2 ^ 64"
  shows "decoded (\<lambda>(c, rest). length c < length b) (rlift (SplitList b))"
  using Split_total [OF assms] by (auto simp: rlift_def SplitList_def)

lemma decoded_count: "length b < 2 ^ 64 \<Longrightarrow> decoded (\<lambda>_. True) (count_values b)"
  using CountValues_loop_total [of b "Suc (length b)" 0]
  by (auto simp: count_values_def CountValues_def split: sum.splits simp del: CountValues_loop.simps)

text \<open>\<open>dec\<close> decodes every input of at most \<open>n\<close> bytes.\<close>

definition decoder :: "nat \<Rightarrow> (bytes \<Rightarrow> bytes \<Rightarrow> node dr) \<Rightarrow> bool" where
  "decoder n dec \<longleftrightarrow> (\<forall>hash buf. length buf \<le> n \<longrightarrow> decoded (\<lambda>r. shaped r \<and> \<not> is_value r) (dec hash buf))"

lemma decoded_Ref:
  assumes "decoder n dec" "n < 2 ^ 64" "length b \<le> n"
  shows "decoded (\<lambda>(r, rest). shaped r \<and> \<not> is_value r \<and> length rest < length b) (decodeRef dec b)"
  unfolding decodeRef_def
proof (rule decoded_bind [OF decoded_Split], goal_cases)
  case (2 x)
  have "decoded (\<lambda>r. shaped r \<and> \<not> is_value r) (dec [] b)" using assms(1,3) by (simp add: decoder_def)
  then show ?case using 2 by (auto simp: Let_def intro!: decoded_bind)
qed (use assms in simp)

lemma decoded_Short:
  assumes "decoder n dec" "n < 2 ^ 64" "length b \<le> n"
  shows "decoded (\<lambda>r. shaped r \<and> \<not> is_value r) (decodeShort dec hash b)"
  unfolding decodeShort_def
proof (rule decoded_bind [OF decoded_SplitString], goal_cases)
  case (2 x)
  obtain kbuf rest where x: "x = (kbuf, rest)" "length rest < length b" using 2 by auto
  have "decoded (\<lambda>(c, r). length r < length rest) (rlift (SplitString rest))" using x(2) assms by (intro decoded_SplitString) simp
  moreover have "decoded (\<lambda>(r, rest'). shaped r \<and> \<not> is_value r \<and> length rest' < length rest) (decodeRef dec rest)"
    using x(2) assms(3) by (intro decoded_Ref [OF assms(1,2)]) linarith
  ultimately show ?case unfolding x(1) by (auto simp: Let_def intro!: decoded_bind elim!: decoded_bind)
qed (use assms in simp)

lemma decoded_children:
  assumes "decoder n dec" "n < 2 ^ 64"
  shows "length b \<le> n \<Longrightarrow> decoded (\<lambda>(ns, rest). length ns = i \<and> list_all shaped ns \<and> \<not> list_ex is_value ns \<and> length rest \<le> length b) (decode_children dec i b)"
proof (induction i arbitrary: b)
  case (Suc i)
  show ?case unfolding decode_children.simps
  proof (rule decoded_bind [OF decoded_Ref [OF assms Suc.prems]], goal_cases)
    case (1 x)
    obtain c rest where x: "x = (c, rest)" "shaped c" "\<not> is_value c" "length rest < length b" using 1 by auto
    then have "decoded (\<lambda>(ns, r). length ns = i \<and> list_all shaped ns \<and> \<not> list_ex is_value ns \<and> length r \<le> length rest) (decode_children dec i rest)"
      using Suc by simp
    then show ?case unfolding x(1) prod.case by (rule decoded_bind) (use x in auto)
  qed
qed simp

lemma decoded_Full:
  assumes "decoder n dec" "n < 2 ^ 64" "length b \<le> n"
  shows "decoded (\<lambda>r. shaped r \<and> \<not> is_value r) (decodeFull dec hash b)"
  unfolding decodeFull_def
proof (rule decoded_bind [OF decoded_children [OF assms, of 16]], goal_cases)
  case (1 x)
  obtain ns rest where x: "x = (ns, rest)" "length ns = 16" "list_all shaped ns" "\<not> list_ex is_value ns" "length rest \<le> length b" using 1 by auto
  have "decoded (\<lambda>(c, r). length r < length rest) (rlift (SplitString rest))" using x(5) assms by (intro decoded_SplitString) simp
  then show ?case unfolding x(1) prod.case by (rule decoded_bind) (use x in \<open>auto simp: nth_append\<close>)
qed

lemma decoder_fuel:
  assumes "n < 2 ^ 64"
  shows "decoder n (decodeNode_fuel (Suc n))"
  using assms
proof (induction n)
  case 0
  then show ?case by (simp add: decoder_def)
next
  case (Suc n)
  have d: "decoded (\<lambda>r. shaped r \<and> \<not> is_value r) (decodeNode_fuel (Suc (Suc n)) hash b)" if b: "length b \<le> Suc n" for hash b
  proof (cases "length b = 0")
    case False
    then show ?thesis unfolding decodeNode_fuel.simps(2) [of "Suc n"] if_not_P [OF False]
    proof (intro decoded_bind [OF decoded_SplitList], goal_cases)
      case (2 x)
      obtain elems rest where x: "x = (elems, rest)" "length elems \<le> n" using 2 b by auto
      show ?case unfolding x(1) prod.case
      proof (rule decoded_bind [OF decoded_count], goal_cases)
        case (2 c)
        show ?case using decoded_Short [OF Suc.IH _ x(2)] decoded_Full [OF Suc.IH _ x(2)] Suc.prems by (simp del: decodeNode_fuel.simps)
      qed (use x Suc.prems in simp)
    qed (use b Suc.prems in simp)
  qed simp
  then show ?case unfolding decoder_def by blast
qed

lemma decoded_Node: "length b < 2 ^ 64 \<Longrightarrow> decoded (\<lambda>r. shaped r \<and> \<not> is_value r) (decodeNode hash b)"
  using decoder_fuel [of "length b"] unfolding decodeNode_def decoder_def by blast

section \<open>Properties\<close>

text \<open>C35: Decoding a node terminates on every input: the recursion over embedded nodes never exhausts its fuel, and the
  outcome is a node or an error, never a panic.\<close>

theorem decodeNode_terminates:
  assumes "length buf < 2 ^ 64"
  shows "\<exists>r. decodeNode hash buf = Some r \<and> (\<forall>p. r \<noteq> Inl (DecodePanic p))"
  using decoded_Node [OF assms, of hash] by (auto simp: decoded_def split: option.splits sum.splits)

theorem decodeNode_terminates_witness:
  "\<exists>r. decodeNode [] [0xc2, 0x20, 0xc1] = Some r \<and> (\<forall>p. r \<noteq> Inl (DecodePanic p))"
  by (rule decodeNode_terminates) simp

text \<open>C36: A node that the decoder returns is well formed whatever the input: every full node has 17 children with at most
  the last one a value, a short node holds a value exactly when its key is terminated, every
  reference is a hash of 32 bytes, and no node is dirty.\<close>

theorem decodeNode_shaped:
  assumes "length buf < 2 ^ 64" "decodeNode hash buf = tret n"
  shows "shaped n \<and> \<not> is_value n"
  using decoded_Node [OF assms(1), of hash] assms(2) by simp

theorem decodeNode_shaped_witness:
  "shaped (ShortNode [1, 2, 16] (ValueNode [7]) \<lparr>nf_hash = [9], nf_dirty = False\<rparr>)
   \<and> \<not> is_value (ShortNode [1, 2, 16] (ValueNode [7]) \<lparr>nf_hash = [9], nf_dirty = False\<rparr>)"
proof (rule decodeNode_shaped)
  show "decodeNode [9] [0xc4, 0x82, 0x20, 0x12, 7] = tret (ShortNode [1, 2, 16] (ValueNode [7]) \<lparr>nf_hash = [9], nf_dirty = False\<rparr>)" by code_simp
qed simp

end
