(* ===== verification/Trie_Database.thy ===== *)
theory Trie_Database
  imports Trie_Node
begin

text \<open>
  The trie database (\<open>ethereum/trie/database.go\<close>): nodes that tries write are kept in memory as collapsed nodes,
  keyed by hash and linked in a flush list, in front of a disk store.  The disk store is a map from keys to values.
  Left out: the read cache of encoded nodes (as with \<open>NewDatabase\<close>), the locks, the statistics of garbage
  collection and flushing, and writes to disk that fail.  Storage sizes, floating point numbers in the code, are integers.
\<close>

section \<open>Collapsed nodes\<close>

datatype raw = RawNil | RawBlob bytes | RawShort bytes raw | RawFull "raw list" | RawValue bytes | RawHash bytes

fun rval_raw :: "raw \<Rightarrow> rval" where
  "rval_raw RawNil = RNilInterface"
| "rval_raw (RawBlob b) = RBytes b"
| "rval_raw (RawValue v) = RBytes v"
| "rval_raw (RawHash h) = RBytes h"
| "rval_raw (RawShort k val) = RList [RBytes k, rval_raw val]"
| "rval_raw (RawFull children) = RList (map (\<lambda>c. if c = RawNil then RBytes [] else rval_raw c) children)"

fun simplifyNode :: "node \<Rightarrow> raw go"
  and simplify_children :: "node list \<Rightarrow> raw list go" where
  "simplifyNode (ShortNode k val _) = go_map (RawShort k) (simplifyNode val)"
| "simplifyNode (FullNode children _) = go_map RawFull (simplify_children children)"
| "simplifyNode (ValueNode v) = Inr (RawValue v)"
| "simplifyNode (HashNode h) = Inr (RawHash h)"
| "simplifyNode NilNode = Inl (Explicit ''unknown node type'')"
| "simplify_children [] = Inr []"
| "simplify_children (c # cs) = go_bind (if c = NilNode then Inr RawNil else simplifyNode c) (\<lambda>r. go_map ((#) r) (simplify_children cs))"

fun expandNode :: "bytes \<Rightarrow> raw \<Rightarrow> node go"
  and expand_children :: "raw list \<Rightarrow> node list go" where
  "expandNode hash (RawShort k val) =
     go_map (\<lambda>v. ShortNode (compactToHex k) v \<lparr>nf_hash = hash, nf_dirty = False\<rparr>) (expandNode [] val)"
| "expandNode hash (RawFull children) = go_map (\<lambda>cs. FullNode cs \<lparr>nf_hash = hash, nf_dirty = False\<rparr>) (expand_children children)"
| "expandNode hash (RawValue v) = Inr (ValueNode v)"
| "expandNode hash (RawHash h) = Inr (HashNode h)"
| "expandNode hash RawNil = Inl (Explicit ''unknown node type'')"
| "expandNode hash (RawBlob _) = Inl (Explicit ''unknown node type'')"
| "expand_children [] = Inr []"
| "expand_children (r # rs) = go_bind (if r = RawNil then Inr NilNode else expandNode [] r) (\<lambda>c. go_map ((#) c) (expand_children rs))"

text \<open>\<open>forGatherChildren\<close> returns the hashes it would hand to its callback, in order.\<close>

fun forGatherChildren :: "raw \<Rightarrow> bytes list go"
  and gather_list :: "nat \<Rightarrow> raw list \<Rightarrow> bytes list go" where
  "forGatherChildren (RawShort k val) = forGatherChildren val"
| "forGatherChildren (RawFull children) = gather_list 16 children"
| "forGatherChildren (RawHash h) = Inr [BytesToHash h]"
| "forGatherChildren (RawValue _) = Inr []"
| "forGatherChildren RawNil = Inr []"
| "forGatherChildren (RawBlob _) = Inl (Explicit ''unknown node type'')"
| "gather_list 0 rs = Inr []"
| "gather_list (Suc i) [] = Inl IndexOutOfRange"
| "gather_list (Suc i) (r # rs) = go_bind (forGatherChildren r) (\<lambda>hs. go_map ((@) hs) (gather_list i rs))"

section \<open>The database\<close>

record cachedNode =
  cn_node :: raw
  cn_size :: "16 word"
  cn_parents :: u32
  cn_children :: "(bytes, 16 word) gomap option"
  cn_flushPrev :: bytes
  cn_flushNext :: bytes
  cn_version :: u64

record Database =
  db_diskdb :: "(bytes, bytes) gomap"
  db_freshNodes :: "(bytes, unit) gomap"
  db_dirties :: "(bytes, cachedNode) gomap"
  db_nodeVersion :: u64
  db_oldest :: bytes
  db_newest :: bytes
  db_preimages :: "(bytes, bytes) gomap"
  db_dirtiesSize :: int
  db_childrenSize :: int
  db_preimagesSize :: int

abbreviation empty_encbuf :: encbuf where
  "empty_encbuf \<equiv> \<lparr>eb_str = [], eb_lheads = [], eb_lhsize = 0\<rparr>"

abbreviation zero_hash :: bytes where
  "zero_hash \<equiv> replicate 32 0"

definition cached_rlp :: "cachedNode \<Rightarrow> bytes go" where
  "cached_rlp n = (case cn_node n of RawBlob b \<Rightarrow> Inr b
     | r \<Rightarrow> go_bind (EncodeToBytes empty_encbuf (rval_raw r)) (\<lambda>x. case x of Inl _ \<Rightarrow> Inl (Explicit ''rlp'') | Inr blob \<Rightarrow> Inr blob))"

definition cached_obj :: "bytes \<Rightarrow> cachedNode \<Rightarrow> node tr" where
  "cached_obj hash n = (case cn_node n of RawBlob b \<Rightarrow> mustDecodeNode hash b | r \<Rightarrow> tlift (expandNode hash r))"

definition forChilds :: "cachedNode \<Rightarrow> bytes list go" where
  "forChilds n = (let ext = (case cn_children n of None \<Rightarrow> [] | Some m \<Rightarrow> map fst m)
     in case cn_node n of RawBlob _ \<Rightarrow> Inr ext | r \<Rightarrow> go_map ((@) ext) (forGatherChildren r))"

definition new_cached :: cachedNode where
  "new_cached = \<lparr>cn_node = RawNil, cn_size = 0, cn_parents = 0, cn_children = None, cn_flushPrev = zero_hash, cn_flushNext = zero_hash, cn_version = 0\<rparr>"

definition NewDatabase :: "(bytes, bytes) gomap \<Rightarrow> Database" where
  "NewDatabase diskdb = \<lparr>db_diskdb = diskdb, db_freshNodes = [], db_dirties = [(zero_hash, new_cached\<lparr>cn_children := Some []\<rparr>)],
     db_nodeVersion = 0, db_oldest = zero_hash, db_newest = zero_hash, db_preimages = [],
     db_dirtiesSize = 0, db_childrenSize = 0, db_preimagesSize = 0\<rparr>"

definition IncrVersion :: "Database \<Rightarrow> Database" where
  "IncrVersion db = db\<lparr>db_nodeVersion := db_nodeVersion db + 1\<rparr>"

definition insertFreshNode :: "bytes \<Rightarrow> Database \<Rightarrow> Database" where
  "insertFreshNode hash db = db\<lparr>db_freshNodes := gset hash () (db_freshNodes db)\<rparr>"

definition resetFreshNode :: "Database \<Rightarrow> Database" where
  "resetFreshNode db = db\<lparr>db_freshNodes := []\<rparr>"

text \<open>A write through the pointer to a cached node; a missing node is a nil dereference.\<close>

definition upd_dirty :: "bytes \<Rightarrow> (cachedNode \<Rightarrow> cachedNode) \<Rightarrow> Database \<Rightarrow> Database go" where
  "upd_dirty hash f db = (case gget (db_dirties db) hash of None \<Rightarrow> Inl NilDeref
     | Some n \<Rightarrow> Inr (db\<lparr>db_dirties := gset hash (f n) (db_dirties db)\<rparr>))"

text \<open>The sum of the hash length and the entry size is computed with 16 bits.\<close>

definition db_insert :: "bytes \<Rightarrow> bytes \<Rightarrow> raw go \<Rightarrow> Database \<Rightarrow> Database go" where
  "db_insert hash blob node db =
     (if gget (db_dirties db) hash \<noteq> None then Inr db
      else go_bind node (\<lambda>r.
        let entry = new_cached\<lparr>cn_node := r, cn_size := word_of_nat (length blob), cn_flushPrev := db_newest db, cn_version := db_nodeVersion db\<rparr>;
            db = db\<lparr>db_dirties := gset hash entry (db_dirties db)\<rparr>
        in go_map (\<lambda>db. db\<lparr>db_dirtiesSize := db_dirtiesSize db + int (unat (32 + cn_size entry))\<rparr>)
             (if db_oldest db = zero_hash then Inr (db\<lparr>db_oldest := hash, db_newest := hash\<rparr>)
              else go_map (\<lambda>db. db\<lparr>db_newest := hash\<rparr>) (upd_dirty (db_newest db) (\<lambda>n. n\<lparr>cn_flushNext := hash\<rparr>) db))))"

definition InsertBlob :: "bytes \<Rightarrow> bytes \<Rightarrow> Database \<Rightarrow> Database go" where
  "InsertBlob hash blob db = db_insert hash blob (Inr (RawBlob blob)) (insertFreshNode hash db)"

definition insertPreimage :: "bytes \<Rightarrow> bytes \<Rightarrow> Database \<Rightarrow> Database" where
  "insertPreimage hash preimage db =
     (if gget (db_preimages db) hash \<noteq> None then db
      else db\<lparr>db_preimages := gset hash preimage (db_preimages db), db_preimagesSize := db_preimagesSize db + int (32 + length preimage)\<rparr>)"

definition db_node :: "Database \<Rightarrow> loader" where
  "db_node db hash = (case gget (db_dirties db) hash of
     Some dirty \<Rightarrow> tbind (cached_obj hash dirty) (\<lambda>n. tret (Some n))
   | None \<Rightarrow> (case gget (db_diskdb db) hash of None \<Rightarrow> tret None
              | Some e \<Rightarrow> tbind (mustDecodeNode hash e) (\<lambda>n. tret (Some n))))"

text \<open>\<open>Node\<close>: an error when the key is not found.\<close>

definition Node :: "bytes \<Rightarrow> Database \<Rightarrow> bytes option go" where
  "Node hash db = (if hash = zero_hash then Inr None
     else case gget (db_dirties db) hash of Some dirty \<Rightarrow> go_map Some (cached_rlp dirty) | None \<Rightarrow> Inr (gget (db_diskdb db) hash))"

definition secureKey :: "bytes \<Rightarrow> bytes" where
  "secureKey key = map (\<lambda>c. word_of_nat (of_char c)) ''secure-key-'' @ key"

definition Preimage :: "bytes \<Rightarrow> Database \<Rightarrow> bytes option" where
  "Preimage hash db = (case gget (db_preimages db) hash of Some p \<Rightarrow> Some p | None \<Rightarrow> gget (db_diskdb db) (secureKey hash))"

definition Nodes :: "Database \<Rightarrow> bytes list" where
  "Nodes db = filter (\<lambda>h. h \<noteq> zero_hash) (map fst (db_dirties db))"

section \<open>What a collapsed node stands for\<close>

text \<open>A collapsed reference to \<open>t\<close>, and a collapsed node of \<open>t\<close>.\<close>

inductive raw_ref :: "(bytes \<Rightarrow> bytes) \<Rightarrow> raw \<Rightarrow> trie \<Rightarrow> bool" for keccak where
  "raw_ref keccak RawNil TNil"
| "raw_ref keccak (RawValue v) (TVal v)"
| "\<not> embedded keccak t \<Longrightarrow> raw_ref keccak (RawHash (keccak (enc_trie keccak t))) t"
| "embedded keccak (TShort k t) \<Longrightarrow> hex_key k \<Longrightarrow> t \<noteq> TNil \<Longrightarrow> raw_ref keccak r t \<Longrightarrow> raw_ref keccak (RawShort (compact k) r) (TShort k t)"
| "embedded keccak (TFull ts) \<Longrightarrow> list_all2 (raw_ref keccak) rs ts \<Longrightarrow> raw_ref keccak (RawFull rs) (TFull ts)"

inductive raw_top :: "(bytes \<Rightarrow> bytes) \<Rightarrow> raw \<Rightarrow> trie \<Rightarrow> bool" for keccak where
  "hex_key k \<Longrightarrow> t \<noteq> TNil \<Longrightarrow> raw_ref keccak r t \<Longrightarrow> raw_top keccak (RawShort (compact k) r) (TShort k t)"
| "list_all2 (raw_ref keccak) rs ts \<Longrightarrow> raw_top keccak (RawFull rs) (TFull ts)"

lemma raw_ref_nil: "raw_ref keccak r t \<Longrightarrow> r = RawNil \<longleftrightarrow> t = TNil"
  by (cases rule: raw_ref.cases) (auto simp: embedded_def)

lemma expand_refs:
  assumes "list_all2 (raw_ref keccak) rs ts"
    "\<And>i. i < length ts \<Longrightarrow> ts ! i \<noteq> TNil \<Longrightarrow> \<exists>n. expandNode [] (rs ! i) = Inr n \<and> rep load hash_of n (ts ! i)"
  shows "\<exists>ns. expand_children rs = Inr ns \<and> list_all2 (rep load hash_of) ns ts"
  using assms
proof (induction rule: list_all2_induct)
  case (Cons r rs t ts)
  have "\<exists>n. (if r = RawNil then Inr NilNode else expandNode [] r) = Inr n \<and> rep load hash_of n t"
    using raw_ref_nil [OF Cons(1)] Cons.prems [of 0] by (cases "r = RawNil") auto
  moreover have "\<exists>ns. expand_children rs = Inr ns \<and> list_all2 (rep load hash_of) ns ts"
  proof (rule Cons.IH)
    show "\<exists>n. expandNode [] (rs ! i) = Inr n \<and> rep load hash_of n (ts ! i)" if "i < length ts" "ts ! i \<noteq> TNil" for i
      using Cons.prems [of "Suc i"] that by simp
  qed
  ultimately show ?case by auto
qed simp

lemma expand_ref:
  assumes "raw_ref keccak r t" "t \<noteq> TNil"
    "if embedded keccak t then linked (\<lambda>t. rep load hash_of (HashNode (keccak (enc_trie keccak t))) t) keccak t
     else rep load hash_of (HashNode (keccak (enc_trie keccak t))) t"
    and emb: "inner_hash keccak hash_of"
  shows "\<exists>n. expandNode [] r = Inr n \<and> rep load hash_of n t"
  using assms(1-3)
proof (induction rule: raw_ref.induct)
  case (4 k t r)
  then obtain n where "expandNode [] r = Inr n" "rep load hash_of n t" by auto
  then show ?case using compact_simps(2) [OF 4(2)] 4(1) emb by (auto simp: flag_ok_def inner_hash_def)
next
  case (5 ts rs)
  have refs: "list_all2 (raw_ref keccak) rs ts" using 5(2) by (rule list_all2_mono) blast
  have "\<exists>ns. expand_children rs = Inr ns \<and> list_all2 (rep load hash_of) ns ts"
  proof (rule expand_refs [OF refs])
    fix i assume i: "i < length ts" "ts ! i \<noteq> TNil"
    have "if embedded keccak (ts ! i) then linked (\<lambda>t. rep load hash_of (HashNode (keccak (enc_trie keccak t))) t) keccak (ts ! i)
       else rep load hash_of (HashNode (keccak (enc_trie keccak (ts ! i)))) (ts ! i)" using 5(1,4) i by (auto simp: list_all_length)
    then show "\<exists>n. expandNode [] (rs ! i) = Inr n \<and> rep load hash_of n (ts ! i)" using list_all2_nthD2 [OF 5(2) i(1)] i(2) by blast
  qed
  then show ?case using 5(1) emb by (auto simp: flag_ok_def inner_hash_def)
qed auto

lemma expand_top:
  assumes "raw_top keccak r t" "linked (\<lambda>t. rep load hash_of (HashNode (keccak (enc_trie keccak t))) t) keccak t"
    "inner_hash keccak hash_of"
  shows "\<exists>n. expandNode h r = Inr n \<and> expands load hash_of (loaded_flag h) n t"
  using assms(1)
proof cases
  case (1 k t' r')
  then obtain n where "expandNode [] r' = Inr n" "rep load hash_of n t'" using expand_ref [of keccak r' t' load hash_of] assms(2,3) by auto
  then show ?thesis using 1 compact_simps(2) [of k] by (auto intro: expands.intros)
next
  case (2 rs ts)
  have "\<exists>ns. expand_children rs = Inr ns \<and> list_all2 (rep load hash_of) ns ts"
    using assms(2) 2 by (intro expand_refs [OF 2(3)] expand_ref [OF list_all2_nthD2 [OF 2(3)] _ _ assms(3)]) (auto simp: list_all_length)
  then show ?thesis using 2 by (auto intro: expands.intros)
qed

section \<open>The invariant of the database\<close>

text \<open>\<open>T\<close> is the set of tries under consideration: canonical, of bounded size, closed under subtries.  The hash function
  is assumed to be free of collisions on their encodings, and its values different from the zero hash, which the database uses for its root
  entry.\<close>

definition is_node :: "trie \<Rightarrow> bool" where
  "is_node t \<longleftrightarrow> t \<noteq> TNil \<and> (\<forall>v. t \<noteq> TVal v)"

fun kids :: "trie \<Rightarrow> trie set" where
  "kids (TShort k t) = {t}"
| "kids (TFull ts) = set ts"
| "kids _ = {}"

definition hash_closed :: "trie set \<Rightarrow> bool" where
  "hash_closed T \<longleftrightarrow> (\<forall>t\<in>T. canon t \<and> sized t \<and> (\<forall>t'\<in>kids t. is_node t' \<longrightarrow> t' \<in> T))"

definition collision_free :: "(bytes \<Rightarrow> bytes) \<Rightarrow> trie set \<Rightarrow> bool" where
  "collision_free keccak T \<longleftrightarrow> inj_on keccak (enc_trie keccak ` T) \<and> (\<forall>t\<in>T. keccak (enc_trie keccak t) \<noteq> zero_hash)"

definition stored :: "(bytes \<Rightarrow> bytes) \<Rightarrow> Database \<Rightarrow> trie \<Rightarrow> bool" where
  "stored keccak db t \<longleftrightarrow> (let h = keccak (enc_trie keccak t) in gget (db_dirties db) h \<noteq> None \<or> gget (db_diskdb db) h \<noteq> None)"

definition entry_ok :: "(bytes \<Rightarrow> bytes) \<Rightarrow> cachedNode \<Rightarrow> trie \<Rightarrow> bool" where
  "entry_ok keccak e t \<longleftrightarrow> raw_top keccak (cn_node e) t \<or> cn_node e = RawBlob (enc_trie keccak t)"

definition trie_ok :: "(bytes \<Rightarrow> bytes) \<Rightarrow> Database \<Rightarrow> trie \<Rightarrow> bool" where
  "trie_ok keccak db t \<longleftrightarrow> linked (stored keccak db) keccak t \<and>
     (let h = keccak (enc_trie keccak t) in case gget (db_dirties db) h of Some e \<Rightarrow> entry_ok keccak e t
      | None \<Rightarrow> gget (db_diskdb db) h = Some (enc_trie keccak t))"

definition db_ok :: "(bytes \<Rightarrow> bytes) \<Rightarrow> trie set \<Rightarrow> Database \<Rightarrow> bool" where
  "db_ok keccak T db \<longleftrightarrow> (\<forall>t\<in>T. stored keccak db t \<longrightarrow> trie_ok keccak db t)
     \<and> (db_oldest db = zero_hash \<or> gget (db_dirties db) (db_newest db) \<noteq> None)"

lemma closed_child: "hash_closed T \<Longrightarrow> t \<in> T \<Longrightarrow> t' \<in> kids t \<Longrightarrow> is_node t' \<Longrightarrow> t' \<in> T"
  by (auto simp: hash_closed_def)

lemma closed_canon: "hash_closed T \<Longrightarrow> t \<in> T \<Longrightarrow> canon t \<and> sized t"
  by (auto simp: hash_closed_def)

lemma not_embedded_node: "\<not> embedded keccak t \<Longrightarrow> is_node t"
  by (auto simp: embedded_def is_node_def)

lemma size_child: "t' \<in> kids t \<Longrightarrow> size t' < size t"
  by (cases t) (auto simp: less_Suc_eq_le size_list_estimation')

section \<open>The encoding determines the trie\<close>

lemma ref_inj:
  assumes k: "hash32 keccak" and T: "hash_closed T" and c: "collision_free keccak T"
    and t: "t = TNil \<or> t \<in> T" "t' = TNil \<or> t' \<in> T" and r: "ref_of keccak t = ref_of keccak t'"
    and IH: "t \<in> T \<Longrightarrow> t' \<in> T \<Longrightarrow> enc_trie keccak t = enc_trie keccak t' \<Longrightarrow> t = t'"
  shows "t = t'"
proof -
  have ne: "ref_of keccak t \<noteq> Str []" "embedded keccak t \<longleftrightarrow> (\<exists>xs. ref_of keccak t = Lst xs)" if "t \<in> T" for t
  proof -
    have "canon t" using closed_canon [OF T that] by simp
    then obtain xs where "node_item keccak t = Lst xs" using canon_item by blast
    then show "ref_of keccak t \<noteq> Str []" "embedded keccak t \<longleftrightarrow> (\<exists>xs. ref_of keccak t = Lst xs)"
      using ref_item_simps(3,4) [of keccak t] hash32_simps(2) [OF k, of "enc_trie keccak t"] by (cases "embedded keccak t"; simp)+
  qed
  show ?thesis
  proof (cases "t \<in> T \<and> t' \<in> T")
    case True
    then have "embedded keccak t \<longleftrightarrow> embedded keccak t'" using ne(2) r by simp
    then have "enc_trie keccak t = enc_trie keccak t'"
      using r ref_item_simps(3,4) [of keccak t] ref_item_simps(3,4) [of keccak t'] c True
      by (cases "embedded keccak t") (simp_all add: collision_free_def inj_on_def, simp add: enc_trie_def)
    then show ?thesis using IH True by blast
  next
    case False
    then show ?thesis using t r ne(1) [of t] ne(1) [of t'] by auto
  qed
qed

lemma enc_trie_inj:
  assumes k: "hash32 keccak" and T: "hash_closed T" and c: "collision_free keccak T"
  shows "t \<in> T \<Longrightarrow> t' \<in> T \<Longrightarrow> enc_trie keccak t = enc_trie keccak t' \<Longrightarrow> t = t'"
proof (induction "size t" arbitrary: t t' rule: less_induct)
  case less
  have ct: "canon t" "sized t" "canon t'" using closed_canon [OF T] less.prems by blast+
  have "length (enc_trie keccak t @ []) < 2 ^ 64" using length_enc_trie [OF k ct(2,1)] by simp
  then have item: "node_item keccak t = node_item keccak t'"
    using enc_item_inj [of "node_item keccak t" "[]" "node_item keccak t'" "[]"] less.prems(3) by (simp add: enc_trie_def)
  have child: "s = s'" if "s \<in> kids t" "s' \<in> kids t'" "s = TNil \<or> is_node s" "s' = TNil \<or> is_node s'" "ref_of keccak s = ref_of keccak s'" for s s'
  proof (rule ref_inj [OF k T c _ _ that(5)])
    show "s = TNil \<or> s \<in> T" "s' = TNil \<or> s' \<in> T" using that closed_child [OF T] less.prems by blast+
    show "s = s'" if "s \<in> T" "s' \<in> T" "enc_trie keccak s = enc_trie keccak s'"
      using less.hyps [OF size_child [OF \<open>s \<in> kids t\<close>] that] .
  qed
  show ?case
  proof (cases t)
    case (TShort key s)
    then obtain key' s' where t': "t' = TShort key' s'" using item ct(3) by (cases t') (auto elim: canon_FullE)
    then have r: "ref_of keccak s = ref_of keccak s'" "compact key = compact key'" using item TShort by simp_all
    then have key: "key = key'" using compact_simps(2) [of key] compact_simps(2) [of key'] canon_hex_key ct TShort t' by metis
    have "(\<exists>v v'. s = TVal v \<and> s' = TVal v') \<or> is_node s \<and> is_node s'"
      using ct(1,3) unfolding TShort t' key canon_Short by (auto simp: is_node_def term_key_def)
    then show ?thesis using r key TShort t' child [of s s'] by auto
  next
    case (TFull ts)
    then obtain ts' where t': "t' = TFull ts'" using item ct(1,3) by (cases t') (auto elim: canon_FullE)
    have len: "length ts = 17" "length ts' = 17" using ct TFull t' by (auto elim: canon_FullE)
    have "ts ! i = ts' ! i" if i: "i < 17" for i
    proof -
      have "map (ref_of keccak) ts ! i = map (ref_of keccak) ts' ! i" using item TFull t' by simp
      then have r: "ref_of keccak (ts ! i) = ref_of keccak (ts' ! i)" using i len by simp
      show ?thesis
      proof (cases "i < 16")
        case True
        then have "ts ! i = TNil \<or> is_node (ts ! i)" "ts' ! i = TNil \<or> is_node (ts' ! i)"
          using ct(1,3) TFull t' by (auto simp: is_node_def elim!: canon_FullE)
        then show ?thesis using child [of "ts ! i" "ts' ! i"] r i len TFull t' by simp
      next
        case False
        then have "i = 16" using i by simp
        then have "ts ! i = TNil \<or> (\<exists>v. v \<noteq> [] \<and> ts ! i = TVal v)" "ts' ! i = TNil \<or> (\<exists>v. v \<noteq> [] \<and> ts' ! i = TVal v)"
          using ct(1,3) TFull t' by (auto elim!: canon_FullE)
        then show ?thesis using r by auto
      qed
    qed
    then show ?thesis using len TFull t' by (simp add: list_eq_iff_nth_eq)
  qed (use ct in simp_all)
qed

lemma collision_freeD:
  assumes "hash32 keccak" "hash_closed T" "collision_free keccak T" "t \<in> T" "t' \<in> T" "keccak (enc_trie keccak t) = keccak (enc_trie keccak t')"
  shows "t = t'"
  using assms enc_trie_inj [OF assms(1-5)] by (auto simp: collision_free_def inj_on_def)

section \<open>Loading what is stored\<close>

lemma linked_mono:
  assumes "hash_closed T" "linked P keccak t" "t \<in> T"
    and "\<And>t'. t' \<in> T \<Longrightarrow> size t' < size t \<Longrightarrow> \<not> embedded keccak t' \<Longrightarrow> P t' \<Longrightarrow> Q t'"
  shows "linked Q keccak t"
  using assms(2-)
proof (induction "size t" arbitrary: t rule: less_induct)
  case less
  have child: "if embedded keccak t' then linked Q keccak t' else Q t'"
    if t': "t' \<in> kids t" "if embedded keccak t' then linked P keccak t' else P t'" for t'
  proof (cases "is_node t'")
    case True
    then have "t' \<in> T" using closed_child [OF assms(1) less.prems(2) t'(1)] by blast
    moreover have "linked Q keccak t'" if "linked P keccak t'" using less.hyps [OF size_child [OF t'(1)] that \<open>t' \<in> T\<close>] less.prems(3) size_child [OF t'(1)] by auto
    ultimately show ?thesis using t' less.prems(3) size_child by (auto split: if_splits)
  next
    case False
    then show ?thesis by (auto simp: is_node_def embedded_def)
  qed
  show ?case using less.prems(1) child by (cases t) (auto simp: list_all_iff)
qed

lemma mustDecode_rep:
  assumes "hash32 keccak" "canon t" "sized t" "linked (\<lambda>t. rep load hash_of (HashNode (keccak (enc_trie keccak t))) t) keccak t"
    "inner_hash keccak hash_of"
  shows "\<exists>n. mustDecodeNode h (enc_trie keccak t) = tret n \<and> expands load hash_of (loaded_flag h) n t"
proof -
  have "length (enc_trie keccak t) < 2 ^ 40" using length_enc_trie [of keccak t, OF assms(1) assms(3,2)] .
  then obtain n where "decodeNode h (enc_trie keccak t) = tret n" "expands load hash_of (loaded_flag h) n t"
    using decode_rep [of keccak hash_of t load "Suc (length (enc_trie keccak t))" "[]" h, OF assms(1,5,2,4)]
    by (auto simp: decodeNode_def simp del: decodeNode_fuel.simps)
  then show ?thesis by (auto simp: mustDecodeNode_def tret_def)
qed

lemma expands_not_hash: "expands load hash_of f n t \<Longrightarrow> \<not> is_HashNode n"
  by (auto elim: expands.cases)

lemma db_node_simps:
  "gget (db_dirties db) h = Some e \<Longrightarrow> cached_obj h e = tret n \<Longrightarrow> db_node db h = tret (Some n)"
  "gget (db_dirties db) h = None \<Longrightarrow> gget (db_diskdb db) h = Some b \<Longrightarrow> mustDecodeNode h b = tret n \<Longrightarrow> db_node db h = tret (Some n)"
  by (simp_all add: db_node_def)

lemma load_stored:
  assumes k: "hash32 keccak" and T: "hash_closed T" and db: "db_ok keccak T db"
  shows "t \<in> T \<Longrightarrow> stored keccak db t \<Longrightarrow> \<exists>n. db_node db (keccak (enc_trie keccak t)) = tret (Some n)
    \<and> expands (db_node db) (trie_hash keccak T False) (loaded_flag (keccak (enc_trie keccak t))) n t
    \<and> (\<not> embedded keccak t \<longrightarrow> rep (db_node db) (trie_hash keccak T False) (HashNode (keccak (enc_trie keccak t))) t)"
proof (induction "size t" arbitrary: t rule: less_induct)
  case less
  let ?h = "keccak (enc_trie keccak t)" and ?load = "db_node db" and ?hs = "trie_hash keccak T False"
  have ok: "trie_ok keccak db t" using db less.prems by (simp add: db_ok_def)
  have c: "canon t" "sized t" using closed_canon [OF T less.prems(1)] by simp_all
  have emb: "inner_hash keccak ?hs" by simp
  have link: "linked (\<lambda>t. rep ?load ?hs (HashNode (keccak (enc_trie keccak t))) t) keccak t"
  proof (rule linked_mono [OF T _ less.prems(1)])
    show "linked (stored keccak db) keccak t" using ok by (simp add: trie_ok_def)
    show "rep ?load ?hs (HashNode (keccak (enc_trie keccak t'))) t'"
      if "t' \<in> T" "size t' < size t" "\<not> embedded keccak t'" "stored keccak db t'" for t'
      using less.hyps [OF that(2,1,4)] that(3) by blast
  qed
  note dec = mustDecode_rep [of keccak t ?load ?hs, where h = ?h, OF k c link emb]
  have "\<exists>n. ?load ?h = tret (Some n) \<and> expands ?load ?hs (loaded_flag ?h) n t"
  proof (cases "gget (db_dirties db) ?h")
    case None
    then show ?thesis using ok dec by (auto simp: trie_ok_def db_node_simps(2) Let_def)
  next
    case (Some e)
    then consider "raw_top keccak (cn_node e) t" | "cn_node e = RawBlob (enc_trie keccak t)"
      using ok by (auto simp: trie_ok_def entry_ok_def Let_def)
    then show ?thesis
    proof cases
      case 1
      then have "cached_obj ?h e = tlift (expandNode ?h (cn_node e))" by (auto simp: cached_obj_def elim: raw_top.cases)
      then show ?thesis using expand_top [where h = ?h, OF 1 link emb] Some by (auto simp: db_node_simps(1))
    next
      case 2
      then show ?thesis using dec Some by (auto simp: db_node_simps(1) cached_obj_def)
    qed
  qed
  then obtain n where n: "?load ?h = tret (Some n)" "expands ?load ?hs (loaded_flag ?h) n t" by blast
  have "rep ?load ?hs (HashNode ?h) t" if e: "\<not> embedded keccak t"
  proof (rule rep_hash)
    have "?h \<noteq> []" using k by simp
    then show "rep ?load ?hs n t" using n e less.prems(1)
      by (intro expands_rep [OF n(2)]) (auto simp: flag_ok_def trie_hash_def present_def BytesToHash_32 k)
  qed (use n e less.prems(1) k c expands_not_hash in \<open>auto simp: BytesToHash_32 trie_hash_def\<close>)
  then show ?case using n by blast
qed

text \<open>What a trie needs of the database stays true when more nodes are stored.\<close>

lemma present_stored: "hash32 keccak \<Longrightarrow> present (db_node db) (keccak (enc_trie keccak t)) \<Longrightarrow> stored keccak db t"
  by (auto simp: present_def stored_def db_node_def BytesToHash_32 tret_def Let_def split: option.splits)

lemma stored_present:
  assumes "hash32 keccak" "hash_closed T" "db_ok keccak T db" "t \<in> T" "stored keccak db t"
  shows "present (db_node db) (keccak (enc_trie keccak t))"
  using load_stored [OF assms] assms(1) by (auto simp: present_def BytesToHash_32)

lemma flag_stored:
  assumes "hash32 keccak" "hash_closed T" "db_ok keccak T db'" "\<And>t. stored keccak db t \<Longrightarrow> stored keccak db' t"
    and "\<And>t h. hash_of t h \<Longrightarrow> t \<in> T \<and> h = keccak (enc_trie keccak t)" "flag_ok (db_node db) hash_of t f"
  shows "flag_ok (db_node db') hash_of t f"
proof (cases "nf_hash f = [] \<or> nf_dirty f")
  case True
  then show ?thesis using assms(6) by (auto simp: flag_ok_def)
next
  case False
  then have h: "hash_of t (nf_hash f)" "present (db_node db) (nf_hash f)" using assms(6) by (auto simp: flag_ok_def)
  then have "present (db_node db') (nf_hash f)"
    using assms(5) [OF h(1)] present_stored [of keccak db t, OF assms(1)] stored_present [OF assms(1-3), of t] assms(4) by auto
  then show ?thesis using h(1) False by (simp add: flag_ok_def)
qed

lemma trie_hashD: "trie_hash keccak T force t h \<Longrightarrow> t \<in> T \<and> h = keccak (enc_trie keccak t)"
  by (simp add: trie_hash_def)

lemma rep_stored:
  assumes "hash32 keccak" "hash_closed T" "db_ok keccak T db'" "\<And>t. stored keccak db t \<Longrightarrow> stored keccak db' t"
  shows "rep (db_node db) (trie_hash keccak T False) n t \<Longrightarrow> rep (db_node db') (trie_hash keccak T False) n t"
proof (induction rule: rep.induct)
  case (rep_short n t k f)
  then show ?case using flag_stored [of keccak T db' db "trie_hash keccak T False", OF assms trie_hashD [of keccak T False]] by auto
next
  case (rep_full ns ts f)
  then have "list_all2 (rep (db_node db') (trie_hash keccak T False)) ns ts" by (auto elim: list_all2_mono)
  then show ?case using rep_full(2) flag_stored [of keccak T db' db "trie_hash keccak T False", OF assms trie_hashD [of keccak T False]] by auto
next
  case (rep_hash h n t)
  then have h: "h = keccak (enc_trie keccak t)" "t \<in> T" "\<not> embedded keccak t" by (simp_all add: trie_hash_def)
  then have "stored keccak db t" using present_stored [of keccak db t] assms(1) rep_hash(1) by (auto simp: present_def)
  then show ?case using load_stored [OF assms(1-3) h(2)] assms(4) h by blast
qed auto

section \<open>Insertion\<close>

text \<open>A database that got an entry for \<open>h\<close> and lost none.\<close>

definition db_grows :: "bytes \<Rightarrow> raw \<Rightarrow> Database \<Rightarrow> Database \<Rightarrow> bool" where
  "db_grows h r db db' \<longleftrightarrow> db_diskdb db' = db_diskdb db \<and> gget (db_dirties db') h \<noteq> None
     \<and> (\<forall>k. k \<noteq> h \<or> gget (db_dirties db) h \<noteq> None \<longrightarrow> map_option cn_node (gget (db_dirties db') k) = map_option cn_node (gget (db_dirties db) k))
     \<and> (gget (db_dirties db) h = None \<longrightarrow> map_option cn_node (gget (db_dirties db') h) = Some r)
     \<and> (db_oldest db' = zero_hash \<or> gget (db_dirties db') (db_newest db') \<noteq> None)"

lemma db_insert_grows:
  assumes "db_oldest db = zero_hash \<or> gget (db_dirties db) (db_newest db) \<noteq> None"
  shows "\<exists>db'. db_insert h blob (Inr r) db = Inr db' \<and> db_grows h r db db'"
proof (cases "gget (db_dirties db) h = None")
  case False
  then show ?thesis using assms by (auto simp: db_insert_def db_grows_def)
next
  case True
  show ?thesis
  proof (cases "db_oldest db = zero_hash")
    case old: True
    then show ?thesis using True by (auto simp: db_insert_def db_grows_def Let_def new_cached_def gget_gset)
  next
    case False
    then obtain e where "gget (db_dirties db) (db_newest db) = Some e" using assms by auto
    then show ?thesis using True False by (auto simp: db_insert_def db_grows_def Let_def new_cached_def upd_dirty_def gget_gset)
  qed
qed

lemma linked_more: "linked P keccak t \<Longrightarrow> (\<And>t. P t \<Longrightarrow> Q t) \<Longrightarrow> linked Q keccak t"
  by (induction P keccak t rule: linked.induct) (auto simp: list_all_iff)

lemma db_ok_grows:
  assumes k: "hash32 keccak" and T: "hash_closed T" "collision_free keccak T" and db: "db_ok keccak T db" and t: "t \<in> T"
    and g: "db_grows (keccak (enc_trie keccak t)) r db db'" and r: "raw_top keccak r t" "linked (stored keccak db) keccak t"
  shows "db_ok keccak T db'" "stored keccak db' t" "stored keccak db t' \<Longrightarrow> stored keccak db' t'"
proof -
  show st: "stored keccak db' t" using g by (simp add: stored_def db_grows_def Let_def)
  show more: "stored keccak db t' \<Longrightarrow> stored keccak db' t'" for t'
  proof (cases "keccak (enc_trie keccak t') = keccak (enc_trie keccak t)")
    case False
    then have "map_option cn_node (gget (db_dirties db') (keccak (enc_trie keccak t'))) = map_option cn_node (gget (db_dirties db) (keccak (enc_trie keccak t')))"
      "db_diskdb db' = db_diskdb db" using g by (auto simp: db_grows_def)
    then show "stored keccak db t' \<Longrightarrow> stored keccak db' t'" by (auto simp: stored_def Let_def)
  qed (use st in \<open>simp add: stored_def\<close>)
  have "trie_ok keccak db' t'" if t': "t' \<in> T" "stored keccak db' t'" for t'
  proof (cases "keccak (enc_trie keccak t') = keccak (enc_trie keccak t) \<and> gget (db_dirties db) (keccak (enc_trie keccak t)) = None")
    case True
    then have "t' = t" using collision_freeD [OF k T t'(1) t] by blast
    then show ?thesis using True g r more by (auto simp: trie_ok_def db_grows_def entry_ok_def Let_def intro: linked_more)
  next
    case False
    then have eq: "map_option cn_node (gget (db_dirties db') (keccak (enc_trie keccak t'))) = map_option cn_node (gget (db_dirties db) (keccak (enc_trie keccak t')))"
      "db_diskdb db' = db_diskdb db" using g by (auto simp: db_grows_def)
    have "stored keccak db t'" using t'(2) eq by (auto simp: stored_def Let_def)
    then have "trie_ok keccak db t'" using db t'(1) by (simp add: db_ok_def)
    then show ?thesis using eq more
      by (auto simp: trie_ok_def entry_ok_def Let_def intro: linked_more split: option.splits)
  qed
  then show "db_ok keccak T db'" using g by (auto simp: db_ok_def db_grows_def)
qed

end
