(* ===== verification/Trie_Hash.thy ===== *)
theory Trie_Hash
  imports Trie_Database
begin

text \<open>
  Hashing and committing tries (\<open>ethereum/trie/hasher.go\<close> and the corresponding methods of \<open>trie.go\<close>).  The hasher
  walks a node, replaces children by their references, caches the hashes in the nodes, and with a database stores every
  node that is referred to by its hash.  \<open>keccak\<close> is a parameter.  The hash and the dirty flag of a node
  are pointers shared by copies of the node; here they are values, which gives the same results because all copies
  stand for the same subtrie.  The calls of the leaf callback are recorded in \<open>hs_leaves\<close>.
\<close>

section \<open>Model of hasher.go\<close>

record hasher =
  hs_db :: "Database option"
  hs_leaves :: "(bytes \<times> bytes) list"

fun node_cache :: "node \<Rightarrow> (bytes \<times> bool) go" where
  "node_cache (ShortNode _ _ f) = Inr (nf_hash f, nf_dirty f)"
| "node_cache (FullNode _ f) = Inr (nf_hash f, nf_dirty f)"
| "node_cache (HashNode _) = Inr ([], True)"
| "node_cache (ValueNode _) = Inr ([], True)"
| "node_cache NilNode = Inl NilDeref"

fun value_of :: "node \<Rightarrow> bytes list" where
  "value_of (ValueNode v) = [v]"
| "value_of _ = []"

fun leaf_values :: "node \<Rightarrow> bytes list" where
  "leaf_values (ShortNode _ val _) = value_of val"
| "leaf_values (FullNode children _) = concat (map value_of (take 16 children))"
| "leaf_values _ = []"

definition store :: "(bytes \<Rightarrow> bytes) \<Rightarrow> node \<Rightarrow> bool \<Rightarrow> hasher \<Rightarrow> (node \<times> hasher) go" where
  "store keccak n force h =
     (if n = NilNode \<or> is_HashNode n then Inr (n, h)
      else go_bind (Encode empty_encbuf (rval_node n) []) (\<lambda>r. case r of
        Inl _ \<Rightarrow> Inl (Explicit ''encode error'')
      | Inr tmp \<Rightarrow>
          if length tmp < 32 \<and> \<not> force then Inr (n, h)
          else go_bind (node_cache n) (\<lambda>(hash, _).
            let hash = (if length hash = 0 then keccak tmp else hash)
            in case hs_db h of
                 None \<Rightarrow> Inr (HashNode hash, h)
               | Some db \<Rightarrow> go_bind (db_insert (BytesToHash hash) tmp (simplifyNode n) db) (\<lambda>db.
                   let db = insertFreshNode (BytesToHash hash) db
                   in Inr (HashNode hash,
                        h\<lparr>hs_db := Some db, hs_leaves := hs_leaves h @ map (\<lambda>v. (v, BytesToHash hash)) (leaf_values n)\<rparr>)))))"

text \<open>The flags written after a node is hashed: the hash, and not dirty when it is in a database.\<close>

fun set_cached :: "bytes \<Rightarrow> bool \<Rightarrow> node \<Rightarrow> node" where
  "set_cached hash committed (ShortNode k v f) = ShortNode k v \<lparr>nf_hash = hash, nf_dirty = nf_dirty f \<and> \<not> committed\<rparr>"
| "set_cached hash committed (FullNode cs f) = FullNode cs \<lparr>nf_hash = hash, nf_dirty = nf_dirty f \<and> \<not> committed\<rparr>"
| "set_cached hash committed n = n"

fun hash_node :: "(bytes \<Rightarrow> bytes) \<Rightarrow> node \<Rightarrow> bool \<Rightarrow> hasher \<Rightarrow> (node \<times> node \<times> hasher) go"
  and hashChildren :: "(bytes \<Rightarrow> bytes) \<Rightarrow> node \<Rightarrow> hasher \<Rightarrow> (node \<times> node \<times> hasher) go"
  and hash_list :: "(bytes \<Rightarrow> bytes) \<Rightarrow> nat \<Rightarrow> node list \<Rightarrow> hasher \<Rightarrow> (node list \<times> node list \<times> hasher) go" where
  "hash_node keccak n force h =
     go_bind (node_cache n) (\<lambda>(hash, dirty).
       if length hash \<noteq> 0 \<and> hs_db h = None then Inr (HashNode hash, n, h)
       else if length hash \<noteq> 0 \<and> \<not> dirty then Inr (HashNode hash, case n of FullNode _ _ \<Rightarrow> HashNode hash | ShortNode _ _ _ \<Rightarrow> HashNode hash | _ \<Rightarrow> n, h)
       else go_bind (hashChildren keccak n h) (\<lambda>(collapsed, cached, h). go_bind (store keccak collapsed force h) (\<lambda>(hashed, h).
         let cachedHash = (case hashed of HashNode hash \<Rightarrow> hash | _ \<Rightarrow> [])
         in Inr (hashed, set_cached cachedHash (hs_db h \<noteq> None) cached, h))))"
| "hashChildren keccak (ShortNode k val f) h =
     go_bind (hexToCompact k) (\<lambda>key. case val of
       ValueNode _ \<Rightarrow> Inr (ShortNode key val f, ShortNode k val f, h)
     | _ \<Rightarrow> go_bind (hash_node keccak val False h) (\<lambda>(collapsed, cached, h). Inr (ShortNode key collapsed f, ShortNode k cached f, h)))"
| "hashChildren keccak (FullNode children f) h =
     go_bind (hash_list keccak 16 children h) (\<lambda>(collapsed, cached, h). Inr (FullNode collapsed f, FullNode cached f, h))"
| "hashChildren keccak NilNode h = Inr (NilNode, NilNode, h)"
| "hashChildren keccak (ValueNode v) h = Inr (ValueNode v, ValueNode v, h)"
| "hashChildren keccak (HashNode x) h = Inr (HashNode x, HashNode x, h)"
| "hash_list keccak 0 cs h = Inr (cs, cs, h)"
| "hash_list keccak (Suc i) [] h = Inl IndexOutOfRange"
| "hash_list keccak (Suc i) (c # cs) h =
     go_bind (if c = NilNode then Inr (NilNode, NilNode, h) else hash_node keccak c False h) (\<lambda>(collapsed, cached, h).
       go_bind (hash_list keccak i cs h) (\<lambda>(cols, cachs, h). Inr (collapsed # cols, cached # cachs, h)))"

section \<open>Model of trie.go\<close>

definition emptyRoot :: bytes where
  "emptyRoot = [0x56, 0xe8, 0x1f, 0x17, 0x1b, 0xcc, 0x55, 0xa6, 0xff, 0x83, 0x45, 0xe6, 0x92, 0xc0, 0xf8, 0x6e,
     0x5b, 0x48, 0xe0, 0x1b, 0x99, 0x6c, 0xad, 0xc0, 0x01, 0x62, 0x2f, 0xb5, 0xe3, 0x63, 0xb4, 0x21]"

definition New :: "Database \<Rightarrow> bytes \<Rightarrow> node tr" where
  "New db root = (if root \<noteq> zero_hash \<and> root \<noteq> emptyRoot then resolveHash (db_node db) root [] else tret NilNode)"

definition hashRoot :: "(bytes \<Rightarrow> bytes) \<Rightarrow> node \<Rightarrow> hasher \<Rightarrow> (node \<times> node \<times> hasher) go" where
  "hashRoot keccak root h = (if root = NilNode then Inr (HashNode emptyRoot, NilNode, h) else hash_node keccak root True h)"

text \<open>\<open>hash.(hashNode)\<close>: a conversion that panics on another kind of node.\<close>

definition to_hash :: "node \<Rightarrow> bytes go" where
  "to_hash n = (case n of HashNode h \<Rightarrow> Inr (BytesToHash h) | _ \<Rightarrow> Inl (Explicit ''interface conversion''))"

definition Hash :: "(bytes \<Rightarrow> bytes) \<Rightarrow> node \<Rightarrow> (bytes \<times> node) go" where
  "Hash keccak root = go_bind (hashRoot keccak root \<lparr>hs_db = None, hs_leaves = []\<rparr>) (\<lambda>(hash, cached, _).
     go_map (\<lambda>h. (h, cached)) (to_hash hash))"

definition Commit :: "(bytes \<Rightarrow> bytes) \<Rightarrow> node \<Rightarrow> Database \<Rightarrow> (bytes \<times> node \<times> Database \<times> (bytes \<times> bytes) list) go" where
  "Commit keccak root db = go_bind (hashRoot keccak root \<lparr>hs_db = Some db, hs_leaves = []\<rparr>) (\<lambda>(hash, cached, h).
     go_map (\<lambda>x. (x, cached, case hs_db h of Some db \<Rightarrow> db | None \<Rightarrow> db, hs_leaves h)) (to_hash hash))"

text \<open>\<open>DeepCopyTrie\<close>: children that are in the database are dropped from the copy and referred to by their hash.\<close>

fun copyNode :: "node \<Rightarrow> node go"
  and copy_child :: "node \<Rightarrow> node go"
  and copy_children :: "node list \<Rightarrow> node list go" where
  "copyNode (ShortNode k val f) = go_map (\<lambda>v. ShortNode k v f) (case val of ValueNode _ \<Rightarrow> Inr val | _ \<Rightarrow> copy_child val)"
| "copyNode (FullNode children f) = go_map (\<lambda>cs. FullNode cs f) (copy_children children)"
| "copyNode (HashNode h) = Inr (HashNode h)"
| "copyNode (ValueNode v) = Inr (ValueNode v)"
| "copyNode NilNode = Inr NilNode"
| "copy_child c = go_bind (node_cache c) (\<lambda>(hash, dirty).
     if \<not> dirty then Inr (if length hash \<noteq> 0 then HashNode hash else c) else copyNode c)"
| "copy_children [] = Inr []"
| "copy_children (c # cs) = go_bind (case c of NilNode \<Rightarrow> Inr c | ValueNode _ \<Rightarrow> Inr c | _ \<Rightarrow> copy_child c) (\<lambda>c'. go_map ((#) c') (copy_children cs))"

definition DeepCopyTrie :: "node \<Rightarrow> node go" where
  "DeepCopyTrie root = copyNode root"

section \<open>What the hasher computes\<close>

lemma rval_node_ok: "enc_ok (rval_node n) \<and> no_raw (rval_node n)"
  by (induction n) (auto simp: list_all_iff)

text \<open>A collapsed reference to \<open>t\<close>: what the database keeps of it and what is encoded.\<close>

definition cref :: "(bytes \<Rightarrow> bytes) \<Rightarrow> node \<Rightarrow> trie \<Rightarrow> bool" where
  "cref keccak c t \<longleftrightarrow> (if t = TNil then c = NilNode
     else c \<noteq> NilNode \<and> (\<exists>r. simplifyNode c = Inr r \<and> raw_ref keccak r t) \<and> item_of (rval_node c) = ref_of keccak t)"

definition ctop :: "(bytes \<Rightarrow> bytes) \<Rightarrow> node \<Rightarrow> trie \<Rightarrow> bool" where
  "ctop keccak c t \<longleftrightarrow> c \<noteq> NilNode \<and> \<not> is_HashNode c \<and> (\<exists>r. simplifyNode c = Inr r \<and> raw_top keccak r t) \<and> item_of (rval_node c) = node_item keccak t"

text \<open>The loader in a state of the hasher, and how its database may change.\<close>

definition hs_load :: "loader \<Rightarrow> hasher \<Rightarrow> loader" where
  "hs_load load h = (case hs_db h of None \<Rightarrow> load | Some db \<Rightarrow> db_node db)"

definition hs_ok :: "(bytes \<Rightarrow> bytes) \<Rightarrow> trie set \<Rightarrow> hasher \<Rightarrow> bool" where
  "hs_ok keccak T h \<longleftrightarrow> (case hs_db h of None \<Rightarrow> True | Some db \<Rightarrow> db_ok keccak T db \<and> collision_free keccak T)"

definition hs_has :: "(bytes \<Rightarrow> bytes) \<Rightarrow> hasher \<Rightarrow> trie \<Rightarrow> bool" where
  "hs_has keccak h t \<longleftrightarrow> (case hs_db h of None \<Rightarrow> True | Some db \<Rightarrow> stored keccak db t)"

definition hs_le :: "(bytes \<Rightarrow> bytes) \<Rightarrow> hasher \<Rightarrow> hasher \<Rightarrow> bool" where
  "hs_le keccak h h' \<longleftrightarrow> (hs_db h = None \<longleftrightarrow> hs_db h' = None) \<and> (\<forall>t. hs_has keccak h t \<longrightarrow> hs_has keccak h' t)"

lemma hs_le_refl [simp]: "hs_le keccak h h"
  by (simp add: hs_le_def)

lemma hs_le_trans: "hs_le keccak h h' \<Longrightarrow> hs_le keccak h' h'' \<Longrightarrow> hs_le keccak h h''"
  by (simp add: hs_le_def)

lemma hs_le_has: "hs_le keccak h h' \<Longrightarrow> hs_has keccak h t \<Longrightarrow> hs_has keccak h' t"
  by (simp add: hs_le_def)

lemma hs_le_linked: "hs_le keccak h h' \<Longrightarrow> linked (hs_has keccak h) keccak t \<Longrightarrow> linked (hs_has keccak h') keccak t"
  by (erule linked_more) (rule hs_le_has)

lemma hs_le_rep:
  assumes "hash32 keccak" "hash_closed T" "hs_ok keccak T h'" "hs_le keccak h h'"
    and "rep (hs_load load h) (trie_hash keccak T False) n t"
  shows "rep (hs_load load h') (trie_hash keccak T False) n t"
proof (cases "hs_db h")
  case None
  then show ?thesis using assms(4,5) by (simp add: hs_le_def hs_load_def)
next
  case (Some db)
  then obtain db' where "hs_db h' = Some db'" using assms(4) by (auto simp: hs_le_def)
  then show ?thesis using assms Some rep_stored [of keccak T db' db, OF assms(1,2)] by (auto simp: hs_load_def hs_ok_def hs_le_def hs_has_def)
qed

text \<open>A node that is stored is referred to by its hash.\<close>

lemma hs_has_rep:
  assumes "hash32 keccak" "hash_closed T" "hs_ok keccak T h" "hs_db h \<noteq> None" "t \<in> T" "hs_has keccak h t" "\<not> embedded keccak t"
  shows "rep (hs_load load h) (trie_hash keccak T False) (HashNode (keccak (enc_trie keccak t))) t"
proof -
  obtain db where "hs_db h = Some db" using assms(4) by blast
  then show ?thesis using assms load_stored [of keccak T db t, OF assms(1,2)] by (auto simp: hs_load_def hs_ok_def hs_has_def)
qed

lemma hs_has_present:
  assumes "hash32 keccak" "present (hs_load load h) (keccak (enc_trie keccak t))"
  shows "hs_has keccak h t"
  using assms present_stored [of keccak _ t, OF assms(1)] by (auto simp: hs_load_def hs_has_def split: option.splits)

lemma cref_hash: "\<not> embedded keccak t \<Longrightarrow> cref keccak (HashNode (keccak (enc_trie keccak t))) t"
  by (auto simp: cref_def ref_item_simps(4) embedded_def [of keccak TNil] intro: raw_ref.intros)

lemma cref_value: "cref keccak (ValueNode v) (TVal v)"
  by (auto simp: cref_def intro: raw_ref.intros)

lemma cref_embedded:
  assumes "ctop keccak c t" "embedded keccak t" "canon t"
  shows "cref keccak c t"
proof -
  obtain r where "simplifyNode c = Inr r" "raw_top keccak r t" using assms(1) by (auto simp: ctop_def)
  moreover from this(2) have "raw_ref keccak r t" using assms(2) by cases (auto intro: raw_ref.intros)
  ultimately show ?thesis using assms by (auto simp: cref_def ctop_def ref_item_simps(3))
qed

lemma enc_ctop: "ctop keccak c t \<Longrightarrow> enc (rval_node c) = enc_trie keccak t"
  using rval_node_ok [of c] by (simp add: ctop_def enc_item_of enc_trie_def)

lemma store_ctop:
  assumes k: "hash32 keccak" and T: "hash_closed T" "t \<in> T" and h: "hs_ok keccak T h"
    and c: "ctop keccak c t" "node_cache c = Inr (x, d)" "x = [] \<or> x = keccak (enc_trie keccak t)" and l: "linked (hs_has keccak h) keccak t"
  shows "\<exists>hashed h'. store keccak c force h = Inr (hashed, h') \<and> hs_ok keccak T h' \<and> hs_le keccak h h'
    \<and> (if force \<or> \<not> embedded keccak t then hashed = HashNode (keccak (enc_trie keccak t)) \<and> hs_has keccak h' t else hashed = c \<and> h' = h)"
proof -
  let ?e = "enc_trie keccak t"
  have ct: "canon t" "sized t" using closed_canon [OF T] by simp_all
  have emb: "embedded keccak t \<longleftrightarrow> length ?e < 32" using ct(1) by (auto simp: embedded_def)
  have "length ?e < 2 ^ 40" using length_enc_trie [of keccak t, OF k ct(2,1)] .
  then have enc: "Encode empty_encbuf (rval_node c) [] = Inr (Inr ?e)"
    using Encode_enc [of "rval_node c"] rval_node_ok [of c] enc_ctop [OF c(1)] by simp
  have x: "(if length x = 0 then keccak ?e else x) = keccak ?e" using c(3) by auto
  have c': "\<not> (c = NilNode \<or> is_HashNode c)" using c(1) by (simp add: ctop_def)
  show ?thesis
  proof (cases "force \<or> \<not> embedded keccak t")
    case False
    then show ?thesis using enc c' h emb by (simp add: store_def)
  next
    case True
    then have go: "\<not> (length ?e < 32 \<and> \<not> force)" using emb by blast
    show ?thesis
    proof (cases "hs_db h")
      case None
      then show ?thesis using enc c' c(2) x go True h by (auto simp: store_def Let_def hs_has_def)
    next
      case (Some db)
      then have db: "db_ok keccak T db" "collision_free keccak T" using h by (simp_all add: hs_ok_def)
      obtain r where r: "simplifyNode c = Inr r" "raw_top keccak r t" using c(1) by (auto simp: ctop_def)
      have l': "linked (stored keccak db) keccak t" using l Some by (auto simp: hs_has_def elim: linked_more)
      obtain db' where db': "db_insert (keccak ?e) ?e (Inr r) db = Inr db'" "db_grows (keccak ?e) r db db'"
        using db_insert_grows [of db "keccak ?e" ?e r] db(1) by (auto simp: db_ok_def)
      note g = db_ok_grows [OF k T(1) db(2,1) T(2) db'(2) r(2) l']
      let ?db = "insertFreshNode (keccak ?e) db'"
      have f: "db_ok keccak T ?db = db_ok keccak T db'" "stored keccak ?db = stored keccak db'"
        by (simp_all add: insertFreshNode_def db_ok_def stored_def [abs_def] trie_ok_def Let_def cong: option.case_cong)
      let ?h = "h\<lparr>hs_db := Some ?db, hs_leaves := hs_leaves h @ map (\<lambda>v. (v, keccak ?e)) (leaf_values c)\<rparr>"
      have "store keccak c force h = Inr (HashNode (keccak ?e), ?h)"
        using enc c' c(2) x go Some db'(1) r(1) by (auto simp: store_def Let_def BytesToHash_32 k)
      moreover have "hs_ok keccak T ?h" using g(1) db(2) f by (simp add: hs_ok_def)
      moreover have "hs_le keccak h ?h" using g(3) Some f by (simp add: hs_le_def hs_has_def)
      moreover have "hs_has keccak ?h t" using g(2) f by (simp add: hs_has_def)
      ultimately show ?thesis using True by auto
    qed
  qed
qed

lemma hs_le_expands:
  assumes "hash32 keccak" "hash_closed T" "hs_ok keccak T h'" "hs_le keccak h h'"
    and "expands (hs_load load h) (trie_hash keccak T False) f n t"
  shows "expands (hs_load load h') (trie_hash keccak T False) f n t"
  using assms(5)
proof cases
  case (1 n' t' k)
  then show ?thesis using hs_le_rep [OF assms(1-4), of load n' t'] by (auto intro: expands.intros)
next
  case (2 ns ts)
  then have "list_all2 (rep (hs_load load h') (trie_hash keccak T False)) ns ts"
    using hs_le_rep [OF assms(1-4), of load] by (auto elim: list_all2_mono)
  then show ?thesis using 2 by (auto intro: expands.intros)
qed

lemma set_cached_expands:
  "expands load hash_of f n t \<Longrightarrow> expands load hash_of \<lparr>nf_hash = x, nf_dirty = nf_dirty f \<and> \<not> b\<rparr> (set_cached x b n) t"
  by (erule expands.cases) (auto intro: expands.intros)

text \<open>The children of a node are hashed; the node itself follows.\<close>

definition walked :: "(bytes \<Rightarrow> bytes) \<Rightarrow> trie set \<Rightarrow> loader \<Rightarrow> hasher \<Rightarrow> trie \<Rightarrow> nodeFlag \<Rightarrow> (node \<times> node \<times> hasher) go \<Rightarrow> bool" where
  "walked keccak T load h t f r \<longleftrightarrow> (\<exists>c cached h'. r = Inr (c, cached, h') \<and> hs_ok keccak T h' \<and> hs_le keccak h h' \<and> ctop keccak c t
     \<and> node_cache c = Inr (nf_hash f, nf_dirty f) \<and> linked (hs_has keccak h') keccak t
     \<and> expands (hs_load load h') (trie_hash keccak T False) f cached t)"

lemma hash_walk:
  assumes k: "hash32 keccak" and T: "hash_closed T" "t \<in> T"
    and w: "walked keccak T load h t f (hashChildren keccak n h)"
    and n: "node_cache n = Inr (nf_hash f, nf_dirty f)" "\<not> (nf_hash f \<noteq> [] \<and> (hs_db h = None \<or> \<not> nf_dirty f))"
    and x: "nf_hash f = [] \<or> nf_hash f = keccak (enc_trie keccak t)"
  shows "\<exists>hashed cached h'. hash_node keccak n force h = Inr (hashed, cached, h') \<and> hs_ok keccak T h' \<and> hs_le keccak h h'
    \<and> linked (hs_has keccak h') keccak t
    \<and> expands (hs_load load h') (trie_hash keccak T False)
        \<lparr>nf_hash = if force \<or> \<not> embedded keccak t then keccak (enc_trie keccak t) else [], nf_dirty = nf_dirty f \<and> hs_db h = None\<rparr> cached t
    \<and> (if force \<or> \<not> embedded keccak t then hashed = HashNode (keccak (enc_trie keccak t)) \<and> hs_has keccak h' t else ctop keccak hashed t)"
proof -
  obtain c cached h1 where c: "hashChildren keccak n h = Inr (c, cached, h1)" "hs_ok keccak T h1" "hs_le keccak h h1" "ctop keccak c t"
    "node_cache c = Inr (nf_hash f, nf_dirty f)" "linked (hs_has keccak h1) keccak t"
    "expands (hs_load load h1) (trie_hash keccak T False) f cached t" using w by (auto simp: walked_def)
  obtain hashed h2 where s: "store keccak c force h1 = Inr (hashed, h2)" "hs_ok keccak T h2" "hs_le keccak h1 h2"
    "if force \<or> \<not> embedded keccak t then hashed = HashNode (keccak (enc_trie keccak t)) \<and> hs_has keccak h2 t else hashed = c \<and> h2 = h1"
    using store_ctop [of keccak T t h1 c "nf_hash f" "nf_dirty f" force, OF k T c(2,4,5) x c(6)] by blast
  let ?x = "case hashed of HashNode hash \<Rightarrow> hash | _ \<Rightarrow> []"
  have db: "(hs_db h2 \<noteq> None) = (hs_db h \<noteq> None)" using c(3) s(3) by (auto simp: hs_le_def)
  have x': "?x = (if force \<or> \<not> embedded keccak t then keccak (enc_trie keccak t) else [])"
    using s(4) c(4) by (auto simp: ctop_def split: node.split)
  have "hash_node keccak n force h = Inr (hashed, set_cached ?x (hs_db h2 \<noteq> None) cached, h2)"
    using n c(1) s(1) by (auto simp: Let_def)
  moreover have "expands (hs_load load h2) (trie_hash keccak T False) \<lparr>nf_hash = ?x, nf_dirty = nf_dirty f \<and> \<not> hs_db h2 \<noteq> None\<rparr>
      (set_cached ?x (hs_db h2 \<noteq> None) cached) t"
    using hs_le_expands [OF k T(1) s(2,3) c(7)] by (rule set_cached_expands)
  ultimately show ?thesis using s(2,4) hs_le_trans [OF c(3) s(3)] hs_le_linked [OF s(3) c(6)] c(4) db x' by auto
qed

definition hashed_ok :: "(bytes \<Rightarrow> bytes) \<Rightarrow> trie set \<Rightarrow> loader \<Rightarrow> hasher \<Rightarrow> trie \<Rightarrow> (node \<times> node \<times> hasher) go \<Rightarrow> bool" where
  "hashed_ok keccak T load h t r \<longleftrightarrow> (\<exists>hashed cached h'. r = Inr (hashed, cached, h') \<and> hs_ok keccak T h' \<and> hs_le keccak h h'
     \<and> cref keccak hashed t \<and> rep (hs_load load h') (trie_hash keccak T False) cached t
     \<and> (if embedded keccak t then linked (hs_has keccak h') keccak t else hs_has keccak h' t))"

lemma hashed_ok_nil: "hs_ok keccak T h \<Longrightarrow> hashed_ok keccak T load h TNil (Inr (NilNode, NilNode, h))"
  by (simp add: hashed_ok_def cref_def embedded_def)

lemma hs_has_stored:
  assumes "hash32 keccak" "hash_closed T" "hs_ok keccak T h" "hs_db h \<noteq> None" "t \<in> T" "hs_has keccak h t"
  shows "present (hs_load load h) (keccak (enc_trie keccak t))"
proof -
  obtain db where "hs_db h = Some db" using assms(4) by blast
  then show ?thesis using assms stored_present [of keccak T db t, OF assms(1,2)] by (auto simp: hs_load_def hs_ok_def hs_has_def)
qed

text \<open>The flags of a node after it is hashed.\<close>

lemma new_flag_ok:
  assumes k: "hash32 keccak" and T: "hash_closed T" "t \<in> T" and h: "hs_ok keccak T h'" "hs_le keccak h h'"
    and f: "flag_ok (hs_load load h) (trie_hash keccak T False) t f" "\<not> (nf_hash f \<noteq> [] \<and> (hs_db h = None \<or> \<not> nf_dirty f))"
    and e: "\<not> embedded keccak t \<Longrightarrow> hs_has keccak h' t"
  shows "flag_ok (hs_load load h') (trie_hash keccak T False) t
    \<lparr>nf_hash = if \<not> embedded keccak t then keccak (enc_trie keccak t) else [], nf_dirty = nf_dirty f \<and> hs_db h = None\<rparr>"
proof (cases "embedded keccak t")
  case False
  then have th: "trie_hash keccak T False t (keccak (enc_trie keccak t))" using T by (simp add: trie_hash_def)
  have ne: "keccak (enc_trie keccak t) \<noteq> []" using k by simp
  show ?thesis
  proof (cases "hs_db h = None")
    case True
    then have "nf_dirty f" using f th by (auto simp: flag_ok_def split: if_splits)
    then show ?thesis using False True th ne by (simp add: flag_ok_def)
  next
    case db: False
    then have "present (hs_load load h') (keccak (enc_trie keccak t))"
      using hs_has_stored [OF k T(1) h(1) _ T(2) e [OF False]] h(2) by (auto simp: hs_le_def)
    then show ?thesis using False db th ne by (simp add: flag_ok_def)
  qed
qed (simp add: flag_ok_def trie_hash_def)

lemma hash_inner:
  assumes k: "hash32 keccak" and T: "hash_closed T" "t \<in> T" and h: "hs_ok keccak T h"
    and n: "expands (hs_load load h) (trie_hash keccak T False) f n t" and f: "flag_ok (hs_load load h) (trie_hash keccak T False) t f"
    and w: "walked keccak T load h t f (hashChildren keccak n h)"
  shows "hashed_ok keccak T load h t (hash_node keccak n False h)"
proof -
  have nc: "node_cache n = Inr (nf_hash f, nf_dirty f)" using n by cases auto
  have x: "nf_hash f \<noteq> [] \<Longrightarrow> nf_hash f = keccak (enc_trie keccak t) \<and> \<not> embedded keccak t" using f by (auto simp: flag_ok_def trie_hash_def)
  show ?thesis
  proof (cases "nf_hash f \<noteq> [] \<and> (hs_db h = None \<or> \<not> nf_dirty f)")
    case True
    then have t: "nf_hash f = keccak (enc_trie keccak t)" "\<not> embedded keccak t" using x by auto
    show ?thesis
    proof (cases "hs_db h = None")
      case db: True
      then have "hash_node keccak n False h = Inr (HashNode (nf_hash f), n, h)" using nc True by simp
      then show ?thesis using t h db cref_hash [OF t(2)] expands_rep [OF n f] by (simp add: hashed_ok_def hs_has_def)
    next
      case db: False
      then have "hash_node keccak n False h = Inr (HashNode (nf_hash f), HashNode (nf_hash f), h)" using nc True n by (auto elim: expands.cases)
      moreover have "hs_has keccak h t" using f True db t hs_has_present [OF k, of load h t] by (simp add: flag_ok_def)
      ultimately show ?thesis using t h cref_hash [OF t(2)] hs_has_rep [OF k T(1) h db T(2) _ t(2), of load] by (simp add: hashed_ok_def)
    qed
  next
    case False
    obtain hashed cached h' where s: "hash_node keccak n False h = Inr (hashed, cached, h')" "hs_ok keccak T h'" "hs_le keccak h h'"
      "linked (hs_has keccak h') keccak t"
      "expands (hs_load load h') (trie_hash keccak T False)
        \<lparr>nf_hash = if False \<or> \<not> embedded keccak t then keccak (enc_trie keccak t) else [], nf_dirty = nf_dirty f \<and> hs_db h = None\<rparr> cached t"
      "if False \<or> \<not> embedded keccak t then hashed = HashNode (keccak (enc_trie keccak t)) \<and> hs_has keccak h' t else ctop keccak hashed t"
      using hash_walk [of keccak T t load h f n False, OF k T w nc False] x by blast
    have "rep (hs_load load h') (trie_hash keccak T False) cached t"
      using s(5) new_flag_ok [OF k T s(2,3) f False] s(6) by (intro expands_rep) auto
    moreover have "cref keccak hashed t" using s(6) cref_hash cref_embedded closed_canon [OF T] by (auto split: if_splits)
    ultimately show ?thesis using s by (auto simp: hashed_ok_def)
  qed
qed

lemma ctop_short:
  assumes "cref keccak c t" "t \<noteq> TNil" "hex_key k"
  shows "ctop keccak (ShortNode (compact k) c f) (TShort k t)"
  using assms by (auto simp: ctop_def cref_def intro: raw_top.intros)

lemma simplify_children_cref:
  "list_all2 (cref keccak) cs ts \<Longrightarrow> \<exists>rs. simplify_children cs = Inr rs \<and> list_all2 (raw_ref keccak) rs ts"
proof (induction rule: list_all2_induct)
  case (Cons c cs t ts)
  then obtain r where "(if c = NilNode then Inr RawNil else simplifyNode c) = Inr r" "raw_ref keccak r t"
    by (cases "t = TNil") (auto simp: cref_def intro: raw_ref.intros)
  then show ?case using Cons.IH by auto
qed simp

lemma ctop_full:
  assumes "list_all2 (cref keccak) cs ts"
  shows "ctop keccak (FullNode cs f) (TFull ts)"
proof -
  obtain rs where "simplify_children cs = Inr rs" "list_all2 (raw_ref keccak) rs ts" using simplify_children_cref [OF assms] by blast
  moreover have "map item_of (map (\<lambda>c. if c = NilNode then RBytes [] else rval_node c) cs) = map (ref_of keccak) ts"
    using assms by (induction rule: list_all2_induct) (auto simp: cref_def split: if_splits)
  ultimately show ?thesis by (auto simp: ctop_def intro: raw_top.intros simp del: map_map)
qed

lemma rep_leaf_node:
  assumes "hash_closed T" "rep load (trie_hash keccak T False) n t" "t = TNil \<or> (\<exists>v. t = TVal v)"
  shows "cref keccak n t"
  using assms(2)
proof cases
  case (rep_hash h n')
  then show ?thesis using assms closed_canon [OF assms(1), of t] by (auto simp: trie_hash_def)
qed (use assms(3) in \<open>auto simp: cref_def intro: raw_ref.intros\<close>)

lemma hash_list_rep:
  assumes k: "hash32 keccak" and T: "hash_closed T"
    and "list_all2 (rep (hs_load load h) (trie_hash keccak T False)) ns ts" "hs_ok keccak T h" "i \<le> length ns"
    and "\<And>n t h. n \<in> set ns \<Longrightarrow> rep (hs_load load h) (trie_hash keccak T False) n t \<Longrightarrow> t \<in> T \<Longrightarrow> hs_ok keccak T h
      \<Longrightarrow> hashed_ok keccak T load h t (hash_node keccak n False h)"
    and "\<And>j. j < length ts \<Longrightarrow> ts ! j = TNil \<or> (if j < i then ts ! j \<in> T else (\<exists>v. ts ! j = TVal v))"
  shows "\<exists>cols cachs h'. hash_list keccak i ns h = Inr (cols, cachs, h') \<and> hs_ok keccak T h' \<and> hs_le keccak h h'
    \<and> list_all2 (cref keccak) cols ts \<and> list_all2 (rep (hs_load load h') (trie_hash keccak T False)) cachs ts
    \<and> (\<forall>t\<in>set ts. if embedded keccak t then linked (hs_has keccak h') keccak t else hs_has keccak h' t)"
  using assms(3-)
proof (induction ns arbitrary: i ts h)
  case Nil
  then show ?case by simp
next
  case (Cons n ns)
  obtain t ts' where ts: "ts = t # ts'" "rep (hs_load load h) (trie_hash keccak T False) n t"
    "list_all2 (rep (hs_load load h) (trie_hash keccak T False)) ns ts'" using Cons.prems(1) by (auto simp: list_all2_Cons1)
  show ?case
  proof (cases i)
    case 0
    have leaf: "t = TNil \<or> (\<exists>v. t = TVal v)" if "t \<in> set ts" for t using that Cons.prems(5) 0 by (auto simp: in_set_conv_nth)
    then have "list_all2 (cref keccak) (n # ns) ts"
      using rep_leaf_node [OF T] Cons.prems(1) by (auto simp: list_all2_conv_all_nth)
    moreover have "embedded keccak t \<and> linked P keccak t" if "t \<in> set ts" for t P using leaf [OF that] by (auto simp: embedded_def)
    ultimately show ?thesis using Cons.prems(1,2) 0 by auto
  next
    case (Suc i')
    have "hashed_ok keccak T load h t (if n = NilNode then Inr (NilNode, NilNode, h) else hash_node keccak n False h)"
    proof (cases "t = TNil")
      case True
      then have "n = NilNode" using rep_nil_iff [OF ts(2)] by simp
      then show ?thesis using True hashed_ok_nil [OF Cons.prems(2)] by simp
    next
      case False
      then have "t \<in> T" "n \<noteq> NilNode" using Cons.prems(5) [of 0] Suc ts(1) rep_nil_iff [OF ts(2)] by auto
      then show ?thesis using Cons.prems(4) [OF _ ts(2) _ Cons.prems(2)] by simp
    qed
    then obtain c cached h1 where c: "(if n = NilNode then Inr (NilNode, NilNode, h) else hash_node keccak n False h) = Inr (c, cached, h1)"
      "hs_ok keccak T h1" "hs_le keccak h h1" "cref keccak c t" "rep (hs_load load h1) (trie_hash keccak T False) cached t"
      "if embedded keccak t then linked (hs_has keccak h1) keccak t else hs_has keccak h1 t" unfolding hashed_ok_def by blast
    have ts1: "list_all2 (rep (hs_load load h1) (trie_hash keccak T False)) ns ts'"
      using ts(3) hs_le_rep [OF k T c(2,3)] by (auto elim: list_all2_mono)
    have len: "i' \<le> length ns" using Cons.prems(3) Suc by simp
    have hs: "hashed_ok keccak T load h t (hash_node keccak n False h)"
      if "n \<in> set ns" "rep (hs_load load h) (trie_hash keccak T False) n t" "t \<in> T" "hs_ok keccak T h" for n t h
      using Cons.prems(4) [OF _ that(2-)] that(1) by simp
    have ch: "ts' ! j = TNil \<or> (if j < i' then ts' ! j \<in> T else (\<exists>v. ts' ! j = TVal v))" if "j < length ts'" for j
      using Cons.prems(5) [of "Suc j"] that Suc ts(1) by (auto split: if_splits)
    obtain cols cachs h2 where l: "hash_list keccak i' ns h1 = Inr (cols, cachs, h2)" "hs_ok keccak T h2" "hs_le keccak h1 h2"
      "list_all2 (cref keccak) cols ts'" "list_all2 (rep (hs_load load h2) (trie_hash keccak T False)) cachs ts'"
      "\<forall>t\<in>set ts'. if embedded keccak t then linked (hs_has keccak h2) keccak t else hs_has keccak h2 t"
      using Cons.IH [OF ts1 c(2) len hs ch] by blast
    have "hash_list keccak i (n # ns) h = Inr (c # cols, cached # cachs, h2)" using c(1) l(1) Suc by simp
    moreover have "if embedded keccak t then linked (hs_has keccak h2) keccak t else hs_has keccak h2 t"
      using c(6) hs_le_linked [OF l(3)] hs_le_has [OF l(3)] by (auto split: if_splits)
    ultimately show ?thesis using l(2,4-6) c(4) ts(1) hs_le_trans [OF c(3) l(3)] hs_le_rep [OF k T l(2,3) c(5)] by auto
  qed
qed

lemma canon_is_node: "canon t \<Longrightarrow> is_node t"
  by (auto simp: is_node_def)

lemma walk_short:
  assumes k: "hash32 keccak" and T: "hash_closed T" "TShort key t \<in> T" and h: "hs_ok keccak T h"
    and r: "rep (hs_load load h) (trie_hash keccak T False) val t"
    and IH: "t \<in> T \<Longrightarrow> hashed_ok keccak T load h t (hash_node keccak val False h)"
  shows "walked keccak T load h (TShort key t) f (hashChildren keccak (ShortNode key val f) h)"
proof -
  have c: "canon (TShort key t)" using closed_canon [OF T] by blast
  then have key: "hexToCompact key = Inr (compact key)" "hex_key key" using compact_simps canon_hex_key by blast+
  consider v where "t = TVal v" | "is_node t" using c by (auto simp: canon_Short is_node_def)
  then show ?thesis
  proof cases
    case (1 v)
    then have "t \<notin> T" using closed_canon [OF T(1), of t] by auto
    from r [unfolded 1] this have val: "val = ValueNode v" by cases (auto simp: trie_hash_def 1)
    have "hashChildren keccak (ShortNode key val f) h = Inr (ShortNode (compact key) val f, ShortNode key val f, h)" using key(1) val by simp
    moreover have "ctop keccak (ShortNode (compact key) val f) (TShort key t)" using ctop_short [OF cref_value _ key(2)] 1 val by blast
    moreover have "linked (hs_has keccak h) keccak (TShort key t)" using 1 by (simp add: embedded_def)
    ultimately show ?thesis unfolding walked_def using h expands.intros(1) [OF r] by (simp del: linked.simps)
  next
    case 2
    then have t: "t \<in> T" using closed_child [OF T, of t] by simp
    then obtain c cached h1 where c: "hash_node keccak val False h = Inr (c, cached, h1)" "hs_ok keccak T h1" "hs_le keccak h h1"
      "cref keccak c t" "rep (hs_load load h1) (trie_hash keccak T False) cached t"
      "if embedded keccak t then linked (hs_has keccak h1) keccak t else hs_has keccak h1 t" using IH unfolding hashed_ok_def by blast
    have "\<forall>v. val \<noteq> ValueNode v" using r 2 by (auto simp: is_node_def)
    then have "hashChildren keccak (ShortNode key val f) h = Inr (ShortNode (compact key) c f, ShortNode key cached f, h1)"
      using key(1) c(1) by (cases val) (simp_all del: hash_node.simps)
    moreover have "ctop keccak (ShortNode (compact key) c f) (TShort key t)" using ctop_short [OF c(4) _ key(2)] 2 by (simp add: is_node_def)
    ultimately show ?thesis unfolding walked_def using c(2,3,6) expands.intros(1) [OF c(5)] by simp
  qed
qed

lemma walk_full:
  assumes k: "hash32 keccak" and T: "hash_closed T" "TFull ts \<in> T" and h: "hs_ok keccak T h"
    and r: "list_all2 (rep (hs_load load h) (trie_hash keccak T False)) ns ts"
    and IH: "\<And>n t h. n \<in> set ns \<Longrightarrow> rep (hs_load load h) (trie_hash keccak T False) n t \<Longrightarrow> t \<in> T \<Longrightarrow> hs_ok keccak T h
      \<Longrightarrow> hashed_ok keccak T load h t (hash_node keccak n False h)"
  shows "walked keccak T load h (TFull ts) f (hashChildren keccak (FullNode ns f) h)"
proof -
  have c: "canon (TFull ts)" using closed_canon [OF T] by blast
  have len: "length ts = 17" using c by (auto elim: canon_FullE)
  then have "length ns = 17" using list_all2_lengthD [OF r] by simp
  have ch: "ts ! j = TNil \<or> (if j < 16 then ts ! j \<in> T else (\<exists>v. ts ! j = TVal v))" if "j < length ts" for j
  proof (cases "j < 16")
    case True
    then have "ts ! j = TNil \<or> canon (ts ! j)" using c by (auto elim: canon_FullE)
    then show ?thesis using True closed_child [OF T, of "ts ! j"] canon_is_node [of "ts ! j"] that by auto
  next
    case False
    then have "j = 16" using that len by simp
    then show ?thesis using c by (auto elim: canon_FullE)
  qed
  obtain cols cachs h1 where "hash_list keccak 16 ns h = Inr (cols, cachs, h1)" "hs_ok keccak T h1" "hs_le keccak h h1"
    "list_all2 (cref keccak) cols ts" "list_all2 (rep (hs_load load h1) (trie_hash keccak T False)) cachs ts"
    "\<forall>t\<in>set ts. if embedded keccak t then linked (hs_has keccak h1) keccak t else hs_has keccak h1 t"
    using hash_list_rep [OF k T(1) r h _ IH ch] \<open>length ns = 17\<close> by auto
  moreover from this(1) have "hashChildren keccak (FullNode ns f) h = Inr (FullNode cols f, FullNode cachs f, h1)" by (simp del: hash_list.simps)
  ultimately show ?thesis unfolding walked_def using ctop_full expands.intros(2) by (simp add: list_all_iff)
qed

lemma hash_rep:
  assumes k: "hash32 keccak" and T: "hash_closed T"
  shows "rep (hs_load load h) (trie_hash keccak T False) n t \<Longrightarrow> t \<in> T \<Longrightarrow> hs_ok keccak T h
    \<Longrightarrow> hashed_ok keccak T load h t (hash_node keccak n False h)"
proof (induction n arbitrary: t h)
  case (ShortNode key val f)
  then obtain t' where t: "t = TShort key t'" "rep (hs_load load h) (trie_hash keccak T False) val t'"
    "flag_ok (hs_load load h) (trie_hash keccak T False) t f" by auto
  then have "walked keccak T load h t f (hashChildren keccak (ShortNode key val f) h)"
    using walk_short [OF k T _ ShortNode.prems(3) t(2)] ShortNode by blast
  then show ?case using hash_inner [OF k T ShortNode.prems(2,3) _ t(3)] t(1,2) by (blast intro: expands.intros)
next
  case (FullNode ns f)
  then obtain ts where t: "t = TFull ts" "list_all2 (rep (hs_load load h) (trie_hash keccak T False)) ns ts"
    "flag_ok (hs_load load h) (trie_hash keccak T False) t f" by auto
  then have "walked keccak T load h t f (hashChildren keccak (FullNode ns f) h)"
    using walk_full [OF k T _ FullNode.prems(3) t(2)] FullNode by blast
  then show ?case using hash_inner [OF k T FullNode.prems(2,3) _ t(3)] t(1,2) by (blast intro: expands.intros)
next
  case (HashNode x)
  then have x: "x = keccak (enc_trie keccak t)" "\<not> embedded keccak t" "present (hs_load load h) x"
    by (auto elim: rep.cases simp: trie_hash_def present_def)
  then show ?case using HashNode cref_hash [OF x(2)] hs_has_present [OF k, of load h t]
    by (simp add: hashed_ok_def store_def)
qed (auto dest: closed_canon [OF T])

section \<open>The root\<close>

lemma root_hashes:
  "any_hash (trie_hash keccak T) t x \<longleftrightarrow> t \<in> T \<and> x = keccak (enc_trie keccak t)"
  by (auto simp: trie_hash_def)

lemma root_of_stored:
  assumes k: "hash32 keccak" and T: "hash_closed T" "t \<in> T" and h: "hs_ok keccak T h" "hs_db h \<noteq> None" "hs_has keccak h t"
  shows "root_rep (hs_load load h) (trie_hash keccak T) (HashNode (keccak (enc_trie keccak t))) t"
proof -
  obtain db where db: "hs_db h = Some db" using h(2) by blast
  then obtain n where n: "db_node db (keccak (enc_trie keccak t)) = tret (Some n)"
    "expands (db_node db) (trie_hash keccak T False) (loaded_flag (keccak (enc_trie keccak t))) n t"
    using load_stored [OF k T(1) _ T(2), of db] h by (auto simp: hs_ok_def hs_has_def)
  have "root_rep (db_node db) (trie_hash keccak T) n t"
    using n k T(2) by (intro expands_root [where f = "loaded_flag (keccak (enc_trie keccak t))"]) (auto simp: flag_ok_def present_def root_hashes)
  then have "root_rep (db_node db) (trie_hash keccak T) (HashNode (keccak (enc_trie keccak t))) t"
    using n k T closed_canon [OF T] expands_not_hash [OF n(2)] by (intro root_hash [of _ _ n]) (auto simp: root_hashes)
  then show ?thesis using db by (simp add: hs_load_def)
qed

text \<open>Hashing the root, given that its children can be hashed.\<close>

definition root_ok :: "(bytes \<Rightarrow> bytes) \<Rightarrow> trie set \<Rightarrow> loader \<Rightarrow> hasher \<Rightarrow> trie \<Rightarrow> (node \<times> node \<times> hasher) go \<Rightarrow> bool" where
  "root_ok keccak T load h t r \<longleftrightarrow> (\<exists>cached h'. r = Inr (HashNode (keccak (enc_trie keccak t)), cached, h') \<and> hs_ok keccak T h' \<and> hs_le keccak h h'
     \<and> hs_has keccak h' t \<and> root_rep (hs_load load h') (trie_hash keccak T) cached t)"

lemma hash_root_node:
  assumes k: "hash32 keccak" and T: "hash_closed T" "t \<in> T" and h: "hs_ok keccak T h"
    and n: "expands (hs_load load h) (trie_hash keccak T False) f n t" and f: "flag_ok (hs_load load h) (any_hash (trie_hash keccak T)) t f"
    and w: "walked keccak T load h t f (hashChildren keccak n h)"
  shows "root_ok keccak T load h t (hash_node keccak n True h)"
proof -
  have nc: "node_cache n = Inr (nf_hash f, nf_dirty f)" using n by cases auto
  have x: "nf_hash f = [] \<and> nf_dirty f \<or> nf_hash f = keccak (enc_trie keccak t) \<and> (nf_dirty f \<or> present (hs_load load h) (nf_hash f))"
    using f T(2) unfolding flag_ok_def root_hashes by (auto split: if_splits)
  show ?thesis
  proof (cases "nf_hash f \<noteq> [] \<and> (hs_db h = None \<or> \<not> nf_dirty f)")
    case True
    then have t: "nf_hash f = keccak (enc_trie keccak t)" using x by auto
    show ?thesis
    proof (cases "hs_db h = None")
      case db: True
      then have "hash_node keccak n True h = Inr (HashNode (nf_hash f), n, h)" using nc True by simp
      then show ?thesis using t h db expands_root [OF n f] by (simp add: root_ok_def hs_has_def)
    next
      case db: False
      then have "hash_node keccak n True h = Inr (HashNode (nf_hash f), HashNode (nf_hash f), h)" using nc True n by (auto elim: expands.cases)
      moreover have has: "hs_has keccak h t" using x True db t hs_has_present [OF k, of load h t] by auto
      ultimately show ?thesis using t h root_of_stored [OF k T h db has, of load] by (simp add: root_ok_def)
    qed
  next
    case False
    obtain hashed cached h' where s: "hash_node keccak n True h = Inr (hashed, cached, h')" "hs_ok keccak T h'" "hs_le keccak h h'"
      "expands (hs_load load h') (trie_hash keccak T False)
        \<lparr>nf_hash = if True \<or> \<not> embedded keccak t then keccak (enc_trie keccak t) else [], nf_dirty = nf_dirty f \<and> hs_db h = None\<rparr> cached t"
      "if True \<or> \<not> embedded keccak t then hashed = HashNode (keccak (enc_trie keccak t)) \<and> hs_has keccak h' t else ctop keccak hashed t"
      using hash_walk [OF k T w nc False, of True] x by blast
    then have hashed: "hashed = HashNode (keccak (enc_trie keccak t))" "hs_has keccak h' t" by simp_all
    have p: "hs_db h = None \<or> present (hs_load load h') (keccak (enc_trie keccak t))"
      using hs_has_stored [OF k T(1) s(2) _ T(2) hashed(2)] s(3) by (auto simp: hs_le_def)
    have "hs_db h = None \<Longrightarrow> nf_dirty f" using x False hash32_simps(2) [OF k, of "enc_trie keccak t"] by auto
    then have "flag_ok (hs_load load h') (any_hash (trie_hash keccak T)) t
        \<lparr>nf_hash = keccak (enc_trie keccak t), nf_dirty = nf_dirty f \<and> hs_db h = None\<rparr>"
      using p T(2) k unfolding flag_ok_def root_hashes by auto
    then have "root_rep (hs_load load h') (trie_hash keccak T) cached t" using s(4) by (intro expands_root) auto
    then show ?thesis using s(1-3) hashed by (simp add: root_ok_def)
  qed
qed

lemma hash_root:
  assumes k: "hash32 keccak" and T: "hash_closed T" "t \<in> T" and h: "hs_ok keccak T h"
    and r: "root_rep (hs_load load h) (trie_hash keccak T) n t"
  shows "root_ok keccak T load h t (hash_node keccak n True h)"
  using r
proof cases
  case (root_short n' t' key f)
  have "walked keccak T load h t f (hashChildren keccak n h)"
    using walk_short [OF k T(1) _ h root_short(3) hash_rep [OF k T(1) root_short(3) _ h]] T(2) unfolding root_short(1,2) by blast
  moreover have "expands (hs_load load h) (trie_hash keccak T False) f n t" unfolding root_short(1,2) using root_short(3) by (rule expands.intros)
  moreover have "flag_ok (hs_load load h) (any_hash (trie_hash keccak T)) t f" using root_short(4) unfolding root_short(2) .
  ultimately show ?thesis using hash_root_node [OF k T h] by blast
next
  case (root_full ns ts f)
  have "walked keccak T load h t f (hashChildren keccak n h)"
    using walk_full [OF k T(1) _ h root_full(3) hash_rep [OF k T(1)]] T(2) unfolding root_full(1,2) by blast
  moreover have "expands (hs_load load h) (trie_hash keccak T False) f n t" unfolding root_full(1,2) using root_full(3) by (rule expands.intros)
  moreover have "flag_ok (hs_load load h) (any_hash (trie_hash keccak T)) t f" using root_full(4) unfolding root_full(2) .
  ultimately show ?thesis using hash_root_node [OF k T h] by blast
next
  case (root_hash x n')
  then have x: "x = keccak (enc_trie keccak t)" "present (hs_load load h) x" by (auto simp: root_hashes present_def)
  then show ?thesis using root_hash(1) r h hs_has_present [OF k, of load h t] by (simp add: root_ok_def store_def)
qed (use closed_canon [OF T] in simp)

section \<open>Tries as maps with a root hash\<close>

definition merkle_root :: "(bytes \<Rightarrow> bytes) \<Rightarrow> trie \<Rightarrow> bytes" where
  "merkle_root keccak t = (if t = TNil then emptyRoot else keccak (enc_trie keccak t))"

text \<open>The trie of a map, and the set \<open>T\<close> containing it.\<close>

definition trie_of :: "(bytes \<Rightarrow> bytes option) \<Rightarrow> trie \<Rightarrow> bool" where
  "trie_of m t \<longleftrightarrow> wf_trie t \<and> content t = hex_map m"

definition tracks :: "trie set \<Rightarrow> (bytes \<Rightarrow> bytes option) \<Rightarrow> bool" where
  "tracks T m \<longleftrightarrow> (\<forall>t. trie_of m t \<longrightarrow> t = TNil \<or> t \<in> T)"

lemma trie_of_unique: "trie_of m t \<Longrightarrow> trie_of m t' \<Longrightarrow> t = t'"
  unfolding trie_of_def wf_trie_def using canon_unique canon_nonempty by (metis content.simps(1) option.distinct(1))

lemma BytesToHash_empty [simp]: "BytesToHash emptyRoot = emptyRoot"
  by (rule BytesToHash_32) (simp add: emptyRoot_def)

lemma root_nil_iff: "root_rep load hash_of n t \<Longrightarrow> n = NilNode \<longleftrightarrow> t = TNil"
  by (erule root_rep.cases) auto

lemma Hash_root:
  assumes k: "hash32 keccak" and T: "hash_closed T" and r: "root_rep load (trie_hash keccak T) root t" "t = TNil \<or> t \<in> T"
  shows "\<exists>root'. Hash keccak root = Inr (merkle_root keccak t, root') \<and> root_rep load (trie_hash keccak T) root' t"
proof (cases "t = TNil")
  case True
  then show ?thesis using root_nil_iff [OF r(1)] by (simp add: Hash_def hashRoot_def to_hash_def merkle_root_def)
next
  case False
  let ?h = "\<lparr>hs_db = None, hs_leaves = []\<rparr>"
  have "root_ok keccak T load ?h t (hash_node keccak root True ?h)"
    using r False by (intro hash_root [OF k T]) (auto simp: hs_ok_def hs_load_def)
  then obtain cached h' where "hash_node keccak root True ?h = Inr (HashNode (keccak (enc_trie keccak t)), cached, h')"
    "hs_le keccak ?h h'" "root_rep (hs_load load h') (trie_hash keccak T) cached t" unfolding root_ok_def by blast
  moreover from this(2) have "hs_load load h' = load" by (auto simp: hs_le_def hs_load_def)
  ultimately show ?thesis using False root_nil_iff [OF r(1)] k
    by (auto simp: Hash_def hashRoot_def to_hash_def merkle_root_def simp del: hash_node.simps)
qed

lemma Commit_root:
  assumes k: "hash32 keccak" and T: "hash_closed T" "collision_free keccak T" and db: "db_ok keccak T db"
    and r: "root_rep (db_node db) (trie_hash keccak T) root t" "t = TNil \<or> t \<in> T"
  shows "\<exists>root' db' leaves. Commit keccak root db = Inr (merkle_root keccak t, root', db', leaves) \<and> db_ok keccak T db'
    \<and> root_rep (db_node db') (trie_hash keccak T) root' t \<and> (t \<in> T \<longrightarrow> stored keccak db' t) \<and> (\<forall>t. stored keccak db t \<longrightarrow> stored keccak db' t)"
proof (cases "t = TNil")
  case True
  then have "t \<notin> T" using closed_canon [OF T(1), of t] by auto
  then show ?thesis using True root_nil_iff [OF r(1)] db by (simp add: Commit_def hashRoot_def to_hash_def merkle_root_def)
next
  case False
  let ?h = "\<lparr>hs_db = Some db, hs_leaves = []\<rparr>"
  have "root_ok keccak T (db_node db) ?h t (hash_node keccak root True ?h)"
    using r False db T(2) by (intro hash_root [OF k T(1)]) (auto simp: hs_ok_def hs_load_def)
  then obtain cached h' where h: "hash_node keccak root True ?h = Inr (HashNode (keccak (enc_trie keccak t)), cached, h')" "hs_ok keccak T h'"
    "hs_le keccak ?h h'" "hs_has keccak h' t" "root_rep (hs_load (db_node db) h') (trie_hash keccak T) cached t" unfolding root_ok_def by blast
  from h(3) obtain db' where "hs_db h' = Some db'" by (auto simp: hs_le_def)
  then show ?thesis using h False root_nil_iff [OF r(1)] k
    by (auto simp: Commit_def hashRoot_def to_hash_def merkle_root_def hs_ok_def hs_has_def hs_le_def hs_load_def simp del: hash_node.simps)
qed

lemma New_root:
  assumes k: "hash32 keccak" and T: "hash_closed T" "collision_free keccak T" and db: "db_ok keccak T db"
    and t: "t = TNil \<or> t \<in> T \<and> stored keccak db t" "\<forall>t\<in>T. keccak (enc_trie keccak t) \<noteq> emptyRoot"
  shows "\<exists>root. New db (merkle_root keccak t) = tret root \<and> root_rep (db_node db) (trie_hash keccak T) root t"
proof (cases "t = TNil")
  case True
  then show ?thesis by (simp add: New_def merkle_root_def)
next
  case False
  then have t': "t \<in> T" "stored keccak db t" using t(1) by simp_all
  obtain n where n: "db_node db (keccak (enc_trie keccak t)) = tret (Some n)"
    "expands (db_node db) (trie_hash keccak T False) (loaded_flag (keccak (enc_trie keccak t))) n t"
    using load_stored [OF k T(1) db t'] by blast
  have "root_rep (db_node db) (trie_hash keccak T) n t"
    using n k t'(1) by (intro expands_root [where f = "loaded_flag (keccak (enc_trie keccak t))"]) (auto simp: flag_ok_def present_def root_hashes)
  moreover have "keccak (enc_trie keccak t) \<noteq> zero_hash \<and> keccak (enc_trie keccak t) \<noteq> emptyRoot"
    using T(2) t(2) t'(1) by (auto simp: collision_free_def)
  ultimately show ?thesis using n k False by (simp add: New_def merkle_root_def resolveHash_def)
qed

text \<open>A copy stands for the same trie.\<close>

lemma rep_TVal:
  assumes T: "hash_closed T" and r: "rep load (trie_hash keccak T False) n (TVal v)"
  shows "n = ValueNode v"
proof -
  have "TVal v \<notin> T" using closed_canon [OF T, of "TVal v"] by auto
  from r this show ?thesis by cases (auto simp: trie_hash_def)
qed

lemma full_kids:
  assumes "canon (TFull ts)" "s \<in> set ts"
  shows "s = TNil \<or> (\<exists>v. s = TVal v) \<or> canon s"
proof -
  obtain i where i: "i < length ts" "s = ts ! i" using assms(2) by (auto simp: in_set_conv_nth)
  then have "i < 16 \<or> i = 16" using assms(1) by (auto elim: canon_FullE)
  then show ?thesis using assms(1) i(2) by (auto elim!: canon_FullE)
qed

lemma copy_child_rep:
  assumes k: "hash32 keccak" and T: "hash_closed T" and db: "db_ok keccak T db"
    and c: "rep (db_node db) (trie_hash keccak T False) c t" "c \<noteq> NilNode" "\<exists>c'. copyNode c = Inr c' \<and> rep (db_node db) (trie_hash keccak T False) c' t"
  shows "\<exists>c'. copy_child c = Inr c' \<and> rep (db_node db) (trie_hash keccak T False) c' t"
proof -
  have clean: "rep (db_node db) (trie_hash keccak T False) (HashNode (nf_hash f)) t"
    if "flag_ok (db_node db) (trie_hash keccak T False) t f" "nf_hash f \<noteq> []" "\<not> nf_dirty f" for f
  proof -
    have t: "nf_hash f = keccak (enc_trie keccak t)" "\<not> embedded keccak t" "t \<in> T" "present (db_node db) (nf_hash f)"
      using that by (auto simp: flag_ok_def trie_hash_def)
    then show ?thesis using load_stored [OF k T db t(3)] present_stored [OF k, of db t] by auto
  qed
  show ?thesis
  proof (cases c)
    case (ShortNode key v f)
    then show ?thesis using c clean [of f] by (auto simp del: copyNode.simps)
  next
    case (FullNode cs f)
    then show ?thesis using c clean [of f] by (auto simp del: copyNode.simps)
  qed (use c in auto)
qed

lemma copy_short_rep:
  assumes k: "hash32 keccak" and T: "hash_closed T" and db: "db_ok keccak T db"
    and r: "canon (TShort key t)" "rep (db_node db) (trie_hash keccak T False) v t"
    and IH: "canon t \<Longrightarrow> \<exists>c'. copyNode v = Inr c' \<and> rep (db_node db) (trie_hash keccak T False) c' t"
  shows "\<exists>v'. copyNode (ShortNode key v f) = Inr (ShortNode key v' f) \<and> rep (db_node db) (trie_hash keccak T False) v' t"
proof (cases "\<exists>w. v = ValueNode w")
  case True
  then show ?thesis using r(2) by auto
next
  case False
  then have "\<nexists>w. t = TVal w" using rep_TVal [OF T] r(2) by blast
  then have t: "canon t" using r(1) by (auto simp: canon_Short)
  then have "v \<noteq> NilNode" using r(2) by auto
  then show ?thesis using copy_child_rep [OF k T db r(2) _ IH [OF t]] False by (cases v) (auto simp del: copy_child.simps)
qed

lemma copy_children_rep:
  assumes k: "hash32 keccak" and T: "hash_closed T" and db: "db_ok keccak T db"
    and r: "list_all2 (rep (db_node db) (trie_hash keccak T False)) ns ts" "\<And>t. t \<in> set ts \<Longrightarrow> t = TNil \<or> (\<exists>v. t = TVal v) \<or> canon t"
    and IH: "\<And>n t. n \<in> set ns \<Longrightarrow> canon t \<Longrightarrow> rep (db_node db) (trie_hash keccak T False) n t \<Longrightarrow>
      \<exists>c'. copyNode n = Inr c' \<and> rep (db_node db) (trie_hash keccak T False) c' t"
  shows "\<exists>ns'. copy_children ns = Inr ns' \<and> list_all2 (rep (db_node db) (trie_hash keccak T False)) ns' ts"
  using r IH
proof (induction rule: list_all2_induct)
  case (Cons c ns t ts)
  have "\<exists>c'. (case c of NilNode \<Rightarrow> Inr c | ValueNode _ \<Rightarrow> Inr c | _ \<Rightarrow> copy_child c) = Inr c' \<and> rep (db_node db) (trie_hash keccak T False) c' t"
  proof (cases "c = NilNode \<or> (\<exists>v. c = ValueNode v)")
    case True
    then show ?thesis using Cons(1) by auto
  next
    case False
    then have "\<nexists>w. t = TVal w" "t \<noteq> TNil" using rep_TVal [OF T] rep_nil_iff Cons(1) by blast+
    then have "canon t" using Cons.prems(1) [of t] by simp
    then show ?thesis using copy_child_rep [OF k T db Cons(1) _ Cons.prems(2) [OF _ _ Cons(1)]] False
      by (cases c) (auto simp del: copy_child.simps)
  qed
  moreover have "\<exists>ns'. copy_children ns = Inr ns' \<and> list_all2 (rep (db_node db) (trie_hash keccak T False)) ns' ts"
    using Cons.IH Cons.prems by auto
  ultimately show ?case by (auto simp del: copy_child.simps)
qed simp

lemma copyNode_rep:
  assumes k: "hash32 keccak" and T: "hash_closed T" and db: "db_ok keccak T db"
  shows "canon t \<Longrightarrow> rep (db_node db) (trie_hash keccak T False) n t \<Longrightarrow> \<exists>n'. copyNode n = Inr n' \<and> rep (db_node db) (trie_hash keccak T False) n' t"
proof (induction n arbitrary: t)
  case (ShortNode key v f)
  then obtain t' where t: "t = TShort key t'" "rep (db_node db) (trie_hash keccak T False) v t'" "flag_ok (db_node db) (trie_hash keccak T False) t f" by auto
  have "\<exists>v'. copyNode (ShortNode key v f) = Inr (ShortNode key v' f) \<and> rep (db_node db) (trie_hash keccak T False) v' t'"
    using copy_short_rep [OF k T db _ t(2)] ShortNode t by blast
  then show ?case using t(1,3) by (auto simp del: copyNode.simps)
next
  case (FullNode ns f)
  then obtain ts where t: "t = TFull ts" "list_all2 (rep (db_node db) (trie_hash keccak T False)) ns ts" "flag_ok (db_node db) (trie_hash keccak T False) t f" by auto
  obtain ns' where "copy_children ns = Inr ns'" "list_all2 (rep (db_node db) (trie_hash keccak T False)) ns' ts"
    using copy_children_rep [OF k T db t(2) full_kids [OF FullNode.prems(1) [unfolded t(1)]] FullNode.IH] by blast
  then show ?case using t by auto
qed auto

lemma DeepCopyTrie_rep:
  assumes k: "hash32 keccak" and T: "hash_closed T" and db: "db_ok keccak T db"
    and r: "root_rep (db_node db) (trie_hash keccak T) root t" "wf_trie t"
  shows "\<exists>root'. DeepCopyTrie root = Inr root' \<and> root_rep (db_node db) (trie_hash keccak T) root' t"
  using r(1)
proof cases
  case (root_short n' t' key f)
  then show ?thesis using copy_short_rep [OF k T db _ root_short(3) copyNode_rep [OF k T db _ root_short(3)], of key f] r(2)
    by (auto simp: DeepCopyTrie_def wf_trie_def simp del: copyNode.simps)
next
  case (root_full ns ts f)
  then have c: "canon (TFull ts)" using r(2) by (simp add: wf_trie_def)
  obtain ns' where "copy_children ns = Inr ns'" "list_all2 (rep (db_node db) (trie_hash keccak T False)) ns' ts"
    using copy_children_rep [OF k T db root_full(3) full_kids [OF c] copyNode_rep [OF k T db]] by blast
  then show ?thesis using root_full by (auto simp: DeepCopyTrie_def)
qed (use r(1) in \<open>auto simp: DeepCopyTrie_def\<close>)

section \<open>Operations on a trie\<close>

datatype trie_op = OpGet bytes | OpUpdate bytes bytes | OpDelete bytes | OpHash | OpCommit | OpReopen | OpCopy

datatype trie_out = OutValue "bytes option" | OutRoot bytes | OutNone

definition trie_step :: "(bytes \<Rightarrow> bytes) \<Rightarrow> trie_op \<Rightarrow> node \<times> Database \<Rightarrow> (trie_out \<times> node \<times> Database) tr" where
  "trie_step keccak opn s = (let (root, db) = s in case opn of
     OpGet key \<Rightarrow> tbind (TryGet (db_node db) key root) (\<lambda>(v, root). tret (OutValue v, root, db))
   | OpUpdate key value \<Rightarrow> tbind (TryUpdate (db_node db) key value root) (\<lambda>root. tret (OutNone, root, db))
   | OpDelete key \<Rightarrow> tbind (TryDelete (db_node db) key root) (\<lambda>root. tret (OutNone, root, db))
   | OpHash \<Rightarrow> tbind (tlift (Hash keccak root)) (\<lambda>(h, root). tret (OutRoot h, root, db))
   | OpCommit \<Rightarrow> tbind (tlift (Commit keccak root db)) (\<lambda>(h, root, db, _). tret (OutRoot h, root, db))
   | OpReopen \<Rightarrow> tbind (tlift (Commit keccak root db)) (\<lambda>(h, _, db, _). tbind (New db h) (\<lambda>root. tret (OutRoot h, root, db)))
   | OpCopy \<Rightarrow> tbind (tlift (DeepCopyTrie root)) (\<lambda>root. tret (OutNone, root, db)))"

primrec trie_run :: "(bytes \<Rightarrow> bytes) \<Rightarrow> trie_op list \<Rightarrow> node \<times> Database \<Rightarrow> (trie_out list \<times> node \<times> Database) tr" where
  "trie_run keccak [] s = tret ([], s)"
| "trie_run keccak (opn # ops) s = tbind (trie_step keccak opn s) (\<lambda>(out, s). tbind (trie_run keccak ops s) (\<lambda>(outs, s). tret (out # outs, s)))"

text \<open>The specification: a map, and the root of its trie.\<close>

fun map_step :: "trie_op \<Rightarrow> (bytes \<Rightarrow> bytes option) \<Rightarrow> bytes \<Rightarrow> bytes option" where
  "map_step (OpUpdate key value) m = m(key := if value = [] then None else Some value)"
| "map_step (OpDelete key) m = m(key := None)"
| "map_step _ m = m"

fun out_ok :: "(bytes \<Rightarrow> bytes) \<Rightarrow> (bytes \<Rightarrow> bytes option) \<Rightarrow> trie_op \<Rightarrow> trie_out \<Rightarrow> bool" where
  "out_ok keccak m (OpGet key) out \<longleftrightarrow> out = OutValue (m key)"
| "out_ok keccak m (OpUpdate _ _) out \<longleftrightarrow> out = OutNone"
| "out_ok keccak m (OpDelete _) out \<longleftrightarrow> out = OutNone"
| "out_ok keccak m OpCopy out \<longleftrightarrow> out = OutNone"
| "out_ok keccak m _ out \<longleftrightarrow> (\<exists>t. trie_of m t \<and> out = OutRoot (merkle_root keccak t))"

fun outs_ok :: "(bytes \<Rightarrow> bytes) \<Rightarrow> (bytes \<Rightarrow> bytes option) \<Rightarrow> trie_op list \<Rightarrow> trie_out list \<Rightarrow> bool" where
  "outs_ok keccak m [] outs \<longleftrightarrow> outs = []"
| "outs_ok keccak m (opn # ops) outs \<longleftrightarrow> (\<exists>out outs'. outs = out # outs' \<and> out_ok keccak m opn out \<and> outs_ok keccak (map_step opn m) ops outs')"

fun tracks_all :: "trie set \<Rightarrow> trie_op list \<Rightarrow> (bytes \<Rightarrow> bytes option) \<Rightarrow> bool" where
  "tracks_all T [] m \<longleftrightarrow> tracks T m"
| "tracks_all T (opn # ops) m \<longleftrightarrow> tracks T m \<and> tracks_all T ops (map_step opn m)"

definition trie_inv :: "(bytes \<Rightarrow> bytes) \<Rightarrow> trie set \<Rightarrow> (bytes \<Rightarrow> bytes option) \<Rightarrow> node \<times> Database \<Rightarrow> bool" where
  "trie_inv keccak T m s \<longleftrightarrow> db_ok keccak T (snd s) \<and> holds (db_node (snd s)) (trie_hash keccak T) (fst s) m"

lemma holds_trie: "holds load hash_of root m \<longleftrightarrow> (\<exists>t. root_rep load hash_of root t \<and> trie_of m t)"
  by (auto simp: holds_def trie_of_def)

lemma Commit_holds:
  assumes k: "hash32 keccak" and T: "hash_closed T" "collision_free keccak T" "\<forall>t\<in>T. keccak (enc_trie keccak t) \<noteq> emptyRoot"
    and db: "db_ok keccak T db" and m: "holds (db_node db) (trie_hash keccak T) root m" "tracks T m"
  shows "\<exists>t root' db' leaves root''. trie_of m t \<and> Commit keccak root db = Inr (merkle_root keccak t, root', db', leaves) \<and> db_ok keccak T db'
    \<and> holds (db_node db') (trie_hash keccak T) root' m \<and> New db' (merkle_root keccak t) = tret root'' \<and> holds (db_node db') (trie_hash keccak T) root'' m"
proof -
  obtain t where t: "root_rep (db_node db) (trie_hash keccak T) root t" "trie_of m t" using m(1) by (auto simp: holds_trie)
  then have tT: "t = TNil \<or> t \<in> T" using m(2) by (auto simp: tracks_def)
  obtain root' db' leaves where c: "Commit keccak root db = Inr (merkle_root keccak t, root', db', leaves)" "db_ok keccak T db'"
    "root_rep (db_node db') (trie_hash keccak T) root' t" "t \<in> T \<longrightarrow> stored keccak db' t" using Commit_root [OF k T(1,2) db t(1) tT] by blast
  moreover obtain root'' where "New db' (merkle_root keccak t) = tret root''" "root_rep (db_node db') (trie_hash keccak T) root'' t"
    using New_root [OF k T(1,2) c(2) _ T(3)] tT c(4) by blast
  ultimately show ?thesis using t(2) unfolding holds_trie by blast
qed

lemma Hash_holds:
  assumes "hash32 keccak" "hash_closed T" "holds load (trie_hash keccak T) root m" "tracks T m"
  shows "\<exists>t root'. trie_of m t \<and> Hash keccak root = Inr (merkle_root keccak t, root') \<and> holds load (trie_hash keccak T) root' m"
proof -
  obtain t where t: "root_rep load (trie_hash keccak T) root t" "trie_of m t" using assms(3) by (auto simp: holds_trie)
  then show ?thesis using Hash_root [OF assms(1,2) t(1)] assms(4) unfolding holds_trie tracks_def by blast
qed

lemma trie_step_refines:
  assumes k: "hash32 keccak" and T: "hash_closed T" "collision_free keccak T" "\<forall>t\<in>T. keccak (enc_trie keccak t) \<noteq> emptyRoot"
    and s: "trie_inv keccak T m s" "tracks T m"
  shows "\<exists>out s'. trie_step keccak opn s = tret (out, s') \<and> out_ok keccak m opn out \<and> trie_inv keccak T (map_step opn m) s'"
proof -
  obtain root db where s': "s = (root, db)" by (cases s)
  then have r: "db_ok keccak T db" "holds (db_node db) (trie_hash keccak T) root m" using s(1) by (auto simp: trie_inv_def)
  show ?thesis
  proof (cases opn)
    case (OpGet key)
    then show ?thesis using TryGet_holds [OF r(2), of key] r(1) by (auto simp: trie_step_def s' trie_inv_def)
  next
    case (OpUpdate key val)
    then show ?thesis using TryUpdate_holds [OF r(2), of key val] r(1) by (auto simp: trie_step_def s' trie_inv_def)
  next
    case (OpDelete key)
    then show ?thesis using TryDelete_holds [OF r(2), of key] r(1) by (auto simp: trie_step_def s' trie_inv_def)
  next
    case OpHash
    then show ?thesis using Hash_holds [OF k T(1) r(2) s(2)] r(1) by (auto simp: trie_step_def s' trie_inv_def)
  next
    case OpCommit
    then show ?thesis using Commit_holds [OF k T r s(2)] by (auto simp: trie_step_def s' trie_inv_def)
  next
    case OpReopen
    then show ?thesis using Commit_holds [OF k T r s(2)] by (auto simp: trie_step_def s' trie_inv_def)
  next
    case OpCopy
    obtain t where t: "root_rep (db_node db) (trie_hash keccak T) root t" "trie_of m t" using r(2) by (auto simp: holds_trie)
    then obtain root' where "DeepCopyTrie root = Inr root'" "root_rep (db_node db) (trie_hash keccak T) root' t"
      using DeepCopyTrie_rep [OF k T(1) r(1) t(1)] by (auto simp: trie_of_def)
    moreover from this(2) t(2) have "holds (db_node db) (trie_hash keccak T) root' m" unfolding holds_trie by blast
    ultimately show ?thesis using OpCopy r(1) by (auto simp: trie_step_def s' trie_inv_def)
  qed
qed

lemma trie_run_refines:
  assumes k: "hash32 keccak" and T: "hash_closed T" "collision_free keccak T" "\<forall>t\<in>T. keccak (enc_trie keccak t) \<noteq> emptyRoot"
  shows "trie_inv keccak T m s \<Longrightarrow> tracks_all T ops m \<Longrightarrow>
    \<exists>outs s'. trie_run keccak ops s = tret (outs, s') \<and> outs_ok keccak m ops outs \<and> trie_inv keccak T (fold map_step ops m) s'"
proof (induction ops arbitrary: m s)
  case (Cons opn ops)
  then have m: "tracks T m" "tracks_all T ops (map_step opn m)" by simp_all
  obtain out s1 where 1: "trie_step keccak opn s = tret (out, s1)" "out_ok keccak m opn out" "trie_inv keccak T (map_step opn m) s1"
    using trie_step_refines [OF k T Cons.prems(1) m(1)] by blast
  obtain outs s2 where "trie_run keccak ops s1 = tret (outs, s2)" "outs_ok keccak (map_step opn m) ops outs" "trie_inv keccak T (fold map_step ops (map_step opn m)) s2"
    using Cons.IH [OF 1(3) m(2)] by blast
  then show ?case using 1 by auto
qed simp

lemma new_database_inv: "trie_inv keccak T (\<lambda>_. None) (NilNode, NewDatabase [])" if "collision_free keccak T"
proof -
  have "\<not> stored keccak (NewDatabase []) t" if "t \<in> T" for t
    using that \<open>collision_free keccak T\<close> by (simp add: NewDatabase_def stored_def collision_free_def gget_def Let_def)
  then have "db_ok keccak T (NewDatabase [])" by (auto simp: db_ok_def) (simp add: NewDatabase_def)
  then show ?thesis using holds_empty by (simp add: trie_inv_def)
qed

section \<open>Sizes\<close>

text \<open>A map with short keys and values has a trie of bounded size, so all such tries can be hashed.\<close>

definition map_sized :: "(bytes \<Rightarrow> bytes option) \<Rightarrow> bool" where
  "map_sized m \<longleftrightarrow> (\<forall>key v. m key = Some v \<longrightarrow> length key < 2 ^ 30 \<and> length v < 2 ^ 32)"

definition all_tries :: "trie set" where
  "all_tries = {t. canon t \<and> sized t}"

lemma sized_content:
  assumes "canon t" "\<And>k v. content t k = Some v \<Longrightarrow> length k < 2 ^ 32 \<and> length v < 2 ^ 32"
  shows "sized t"
  using assms
proof (induction rule: canon.induct)
  case (leaf k v)
  then show ?case using leaf(3) [of k v] by simp
next
  case (ext k ts)
  obtain r v where r: "content (TFull ts) r = Some v" using canon_nonempty [OF ext(3)] by blast
  then have "length k < 2 ^ 32" using ext.prems [of "k @ r" v] by simp
  moreover have "sized (TFull ts)"
  proof (rule ext.IH)
    show "length k' < 2 ^ 32 \<and> length v < 2 ^ 32" if "content (TFull ts) k' = Some v" for k' v
      using ext.prems [of "k @ k'" v] that by simp
  qed
  ultimately show ?case by simp
next
  case (full ts i j)
  have sub: "length k < 2 ^ 32 \<and> length v < 2 ^ 32" if "l < 17" "content (ts ! l) k = Some v" for l k v
    using full.prems [of "word_of_nat l # k" v] that full(1) by simp
  have "sized (ts ! l)" if l: "l < 17" for l
  proof (cases "l < 16")
    case True
    then show ?thesis using full.IH [OF True] sub [OF l] by (metis sized.simps(1))
  next
    case False
    then have "l = 16" using l by simp
    moreover from full.hyps(2) have "sized (ts ! 16)"
    proof
      assume "\<exists>v. v \<noteq> [] \<and> ts ! 16 = TVal v"
      then obtain v where "ts ! 16 = TVal v" by blast
      then show ?thesis using sub [of 16 "[]" v] by simp
    qed simp
    ultimately show ?thesis by simp
  qed
  then show ?case using full(1) by (simp add: list_all_length)
qed

lemma all_tries_kid:
  assumes "canon t" "sized t" "t' \<in> kids t" "is_node t'"
  shows "canon t' \<and> sized t'"
proof (cases t)
  case (TShort k s)
  then have "t' = s" "sized s" using assms(2,3) by simp_all
  moreover have "canon s \<or> (\<exists>v. s = TVal v)" using assms(1) unfolding TShort by cases auto
  ultimately show ?thesis using assms(4) by (auto simp: is_node_def)
next
  case (TFull ts)
  then have "t' \<in> set ts" "sized t'" using assms(2,3) by (simp_all add: list_all_iff)
  then show ?thesis using assms(1,4) full_kids [of ts t'] unfolding TFull is_node_def by blast
qed (use assms in simp_all)

lemma all_tries_closed: "hash_closed all_tries"
  using all_tries_kid unfolding hash_closed_def all_tries_def by blast

lemma length_keybytesToHex: "length (keybytesToHex key) = 2 * length key + 1"
  by (induction key) (simp_all add: keybytesToHex_def)

lemma tracks_all_tries:
  assumes "map_sized m"
  shows "tracks all_tries m"
  unfolding tracks_def
proof (intro allI impI)
  fix t assume t: "trie_of m t"
  have "length k < 2 ^ 32 \<and> length v < 2 ^ 32" if "content t k = Some v" for k v
  proof -
    have "hex_map m k = Some v" using that t by (simp add: trie_of_def)
    then obtain key where key: "keybytesToHex key = k" "m key = Some v" by (auto simp: hex_map_def split: sum.splits if_splits)
    then have "length key < 2 ^ 30 \<and> length v < 2 ^ 32" using assms by (simp add: map_sized_def)
    then show ?thesis using length_keybytesToHex [of key] key(1) by simp
  qed
  then show "t = TNil \<or> t \<in> all_tries" using t sized_content [of t] by (auto simp: trie_of_def wf_trie_def all_tries_def)
qed

section \<open>A trie of one key\<close>

definition leaf_trie :: "bytes \<Rightarrow> bytes \<Rightarrow> trie" where
  "leaf_trie key v = TShort (keybytesToHex key) (TVal v)"

lemma trie_of_empty: "trie_of (\<lambda>_. None) t \<longleftrightarrow> t = TNil"
proof -
  have "trie_of (\<lambda>_. None) TNil" by (auto simp: trie_of_def wf_trie_def hex_map_def fun_eq_iff split: sum.split)
  then show ?thesis using trie_of_unique by blast
qed

lemma trie_of_leaf:
  assumes "v \<noteq> []"
  shows "trie_of [key \<mapsto> v] t \<longleftrightarrow> t = leaf_trie key v"
proof -
  have "content (leaf_trie key v) k = hex_map [key \<mapsto> v] k" for k
    using append_take_drop_id [of "length (keybytesToHex key)" k] trie_of_empty [of TNil]
    by (auto simp: leaf_trie_def hex_map_upd trie_of_def fun_eq_iff)
  then have "trie_of [key \<mapsto> v] (leaf_trie key v)" using assms by (auto simp: trie_of_def wf_trie_def leaf_trie_def intro: canon.leaf)
  then show ?thesis using trie_of_unique by blast
qed

lemma leaf_closed: "v \<noteq> [] \<Longrightarrow> length key < 2 ^ 30 \<Longrightarrow> length v < 2 ^ 32 \<Longrightarrow> hash_closed {leaf_trie key v}"
  by (simp add: hash_closed_def leaf_trie_def is_node_def length_keybytesToHex canon.leaf)

text \<open>A hash function for examples: the first 32 bytes.\<close>

definition first32 :: "bytes \<Rightarrow> bytes" where
  "first32 b = take 32 (b @ replicate 32 1)"

lemma first32_hash: "hash32 first32"
  by (simp add: hash32_def first32_def min_def)

lemma first32_leaf: "first32 (enc_trie first32 (leaf_trie [0x12] [7])) = [0xc4, 0x82, 0x20, 0x12, 7] @ replicate 27 1"
  by code_simp

lemma first32_free: "collision_free first32 {leaf_trie [0x12] [7]}" "\<forall>t\<in>{leaf_trie [0x12] [7]}. first32 (enc_trie first32 t) \<noteq> emptyRoot"
  by (simp_all add: collision_free_def first32_leaf emptyRoot_def numeral_eq_Suc)

definition leaf_node :: node where
  "leaf_node = ShortNode [1, 2, 16] (ValueNode [7]) \<lparr>nf_hash = first32 (enc_trie first32 (leaf_trie [0x12] [7])), nf_dirty = True\<rparr>"

lemma leaf_hash:
  "Hash first32 (ShortNode [1, 2, 16] (ValueNode [7]) newFlag) = Inr (first32 (enc_trie first32 (leaf_trie [0x12] [7])), leaf_node)"
  "Hash first32 leaf_node = Inr (first32 (enc_trie first32 (leaf_trie [0x12] [7])), leaf_node)"
  by code_simp+

lemma leaf_all_tries: "leaf_trie [0x12] [7] \<in> all_tries"
  by (simp add: all_tries_def leaf_trie_def canon.leaf length_keybytesToHex)

lemma leaf_sized: "map_sized [[0x12] \<mapsto> [7]]"
  by (simp add: map_sized_def)

lemma leaf_holds:
  assumes "leaf_trie [0x12] [7] \<in> T"
  shows "holds load (trie_hash first32 T) (ShortNode [1, 2, 16] (ValueNode [7]) newFlag) [[0x12] \<mapsto> [7]]"
    "holds load (trie_hash first32 T) leaf_node [[0x12] \<mapsto> [7]]"
proof -
  have "leaf_trie [0x12] [7] = TShort [1, 2, 16] (TVal [7])" by code_simp
  then show "holds load (trie_hash first32 T) (ShortNode [1, 2, 16] (ValueNode [7]) newFlag) [[0x12] \<mapsto> [7]]"
    "holds load (trie_hash first32 T) leaf_node [[0x12] \<mapsto> [7]]"
    using assms by (auto simp: holds_trie trie_of_leaf leaf_node_def newFlag_def flag_ok_def trie_hash_def)
qed

section \<open>Properties\<close>

text \<open>C7: A trie on a database refines a map.  Lookups, updates, deletions, hashing, committing, reopening at the committed
  root and copying, in any order, return without error or panic; lookups return what the map holds and
  every root hash is the Merkle root of the map, provided \<open>keccak\<close> has no collisions among the tries of the run.\<close>

theorem trie_refines_map:
  assumes "hash32 keccak" "hash_closed T" "collision_free keccak T" "\<forall>t\<in>T. keccak (enc_trie keccak t) \<noteq> emptyRoot"
    and "trie_inv keccak T m s" "tracks_all T ops m"
  shows "\<exists>outs s'. trie_run keccak ops s = tret (outs, s') \<and> outs_ok keccak m ops outs \<and> trie_inv keccak T (fold map_step ops m) s'"
  using trie_run_refines [OF assms] .

theorem trie_refines_map_witness:
  "\<exists>h outs s'. trie_run first32 [OpUpdate [0x12] [7], OpReopen, OpGet [0x12], OpCopy, OpDelete [0x12], OpHash] (NilNode, NewDatabase [])
     = tret ([OutNone, OutRoot h, OutValue (Some [7]), OutNone, OutNone, OutRoot emptyRoot], s')"
  using trie_refines_map [OF first32_hash leaf_closed first32_free new_database_inv [OF first32_free(1)],
      of "[OpUpdate [0x12] [7], OpReopen, OpGet [0x12], OpCopy, OpDelete [0x12], OpHash]"]
  by (auto simp: tracks_def trie_of_empty trie_of_leaf merkle_root_def)

text \<open>C9: The root hash is a function of the map.  Two tries that hold the same map return the same hash, whatever
  operations built them, which parts are loaded from which database, and which hashes are cached.\<close>

theorem Hash_depends_on_map_only:
  assumes "hash32 keccak" "map_sized m"
    and "holds load1 (trie_hash keccak all_tries) root1 m" "holds load2 (trie_hash keccak all_tries) root2 m"
  shows "\<exists>h root1' root2'. Hash keccak root1 = Inr (h, root1') \<and> Hash keccak root2 = Inr (h, root2')
    \<and> holds load1 (trie_hash keccak all_tries) root1' m \<and> holds load2 (trie_hash keccak all_tries) root2' m"
proof -
  note h = Hash_holds [OF assms(1) all_tries_closed _ tracks_all_tries [OF assms(2)]]
  obtain t1 r1 where 1: "trie_of m t1" "Hash keccak root1 = Inr (merkle_root keccak t1, r1)" "holds load1 (trie_hash keccak all_tries) r1 m"
    using h [OF assms(3)] by blast
  obtain t2 r2 where 2: "trie_of m t2" "Hash keccak root2 = Inr (merkle_root keccak t2, r2)" "holds load2 (trie_hash keccak all_tries) r2 m"
    using h [OF assms(4)] by blast
  have "t1 = t2" using trie_of_unique [OF 1(1) 2(1)] .
  then show ?thesis using 1(2,3) 2(2,3) by blast
qed

theorem Hash_depends_on_map_only_witness:
  "\<exists>h root1' root2'. Hash first32 (ShortNode [1, 2, 16] (ValueNode [7]) newFlag) = Inr (h, root1')
     \<and> Hash first32 leaf_node = Inr (h, root2')"
  using Hash_depends_on_map_only [OF first32_hash leaf_sized leaf_holds [OF leaf_all_tries]] by blast

text \<open>C8: A root hash determines the map.  If two tries have the same hash, and \<open>keccak\<close> has no collision among
  the encodings of their nodes, they hold the same map.\<close>

theorem root_hash_binds_map:
  assumes "hash32 keccak" "hash_closed T" "collision_free keccak T" "\<forall>t\<in>T. keccak (enc_trie keccak t) \<noteq> emptyRoot"
    and "holds load1 (trie_hash keccak T) root1 m1" "holds load2 (trie_hash keccak T) root2 m2" "tracks T m1" "tracks T m2"
    and "Hash keccak root1 = Inr (h, root1')" "Hash keccak root2 = Inr (h, root2')"
  shows "m1 = m2"
proof -
  obtain t1 where t1: "trie_of m1 t1" "h = merkle_root keccak t1" using Hash_holds [OF assms(1,2,5,7)] unfolding assms(9) by blast
  obtain t2 where t2: "trie_of m2 t2" "h = merkle_root keccak t2" using Hash_holds [OF assms(1,2,6,8)] unfolding assms(10) by blast
  have "t1 = TNil \<or> t1 \<in> T" "t2 = TNil \<or> t2 \<in> T" using t1(1) t2(1) assms(7,8) by (simp_all add: tracks_def)
  moreover have "t = TNil \<longleftrightarrow> merkle_root keccak t = emptyRoot" if "t = TNil \<or> t \<in> T" for t
    using that assms(4) by (auto simp: merkle_root_def)
  ultimately have "t1 = t2" using t1(2) t2(2) collision_freeD [OF assms(1-3), of t1 t2] by (metis merkle_root_def)
  then have "hex_map m1 = hex_map m2" using t1(1) t2(1) by (simp add: trie_of_def)
  then show ?thesis by (rule hex_map_inj)
qed

theorem root_hash_binds_map_witness:
  "Hash first32 (ShortNode [1, 2, 16] (ValueNode [7]) newFlag) = Inr (first32 (enc_trie first32 (leaf_trie [0x12] [7])), leaf_node)
   \<and> Hash first32 leaf_node = Inr (first32 (enc_trie first32 (leaf_trie [0x12] [7])), leaf_node)
   \<and> [[0x12] \<mapsto> [7]] = (\<lambda>k. if k = [0x12 :: 8 word] then Some [7 :: 8 word] else None)"
proof -
  have m: "[[0x12] \<mapsto> [7]] = (\<lambda>k. if k = [0x12 :: 8 word] then Some [7 :: 8 word] else None)" (is "?m1 = ?m2") by auto
  have T: "hash_closed {leaf_trie [0x12] [7]}" "tracks {leaf_trie [0x12] [7]} ?m1" by (simp_all add: leaf_closed tracks_def trie_of_leaf)
  note l = leaf_holds [where load = "db_node (NewDatabase [])", OF singletonI]
  have "?m1 = ?m2"
    by (rule root_hash_binds_map [OF first32_hash T(1) first32_free l(1) l(2) [unfolded m] T(2) T(2) [unfolded m] leaf_hash])
  then show ?thesis using leaf_hash by blast
qed

end
