(* ===== verification/Trie_Proof.thy ===== *)
theory Trie_Proof
  imports Trie_Hash
begin

text \<open>
  Merkle proofs (\<open>ethereum/trie/proof.go\<close>): \<open>Prove\<close> collects the encoded nodes on the path of a key and \<open>VerifyProof\<close>
  checks such a collection against a root hash.  The store a proof is written to and read from is a Go map.
  \<open>VerifyProof\<close> loops for ever on some malformed stores, so it is a partial function; the number of nodes it counts for its messages is
  kept.
\<close>

section \<open>Model of proof.go\<close>

partial_function (option) prove_path :: "loader \<Rightarrow> node \<Rightarrow> bytes \<Rightarrow> node list tr" where
  "prove_path load tn key =
     (if length key = 0 \<or> tn = NilNode then tret []
      else case tn of
        ShortNode k val _ \<Rightarrow>
          if length key < length k \<or> k \<noteq> take (length k) key then tret [tn]
          else tbind (prove_path load val (drop (length k) key)) (\<lambda>nodes. tret (tn # nodes))
      | FullNode children _ \<Rightarrow> tbind (tlift (go_index children (unat (hd key)))) (\<lambda>child.
          tbind (prove_path load child (tl key)) (\<lambda>nodes. tret (tn # nodes)))
      | HashNode h \<Rightarrow> tbind (resolveHash load h []) (\<lambda>n. prove_path load n key)
      | _ \<Rightarrow> Some (Inl (TriePanic (Explicit ''invalid node''))))"

definition prove_node :: "(bytes \<Rightarrow> bytes) \<Rightarrow> node \<Rightarrow> bool \<Rightarrow> nat \<Rightarrow> (bytes, bytes) gomap \<Rightarrow> (nat \<times> (bytes, bytes) gomap) go" where
  "prove_node keccak n first fromLevel proofDb =
     (let h = \<lparr>hs_db = None, hs_leaves = []\<rparr> in
      go_bind (hashChildren keccak n h) (\<lambda>(n, _, h). go_bind (store keccak n False h) (\<lambda>(hn, _).
        if is_HashNode hn \<or> first
        then if fromLevel > 0 then Inr (fromLevel - 1, proofDb)
             else go_bind (EncodeToBytes empty_encbuf (rval_node n)) (\<lambda>r.
               let blob = (case r of Inl _ \<Rightarrow> [] | Inr blob \<Rightarrow> blob);
                   hash = (case hn of HashNode hash \<Rightarrow> hash | _ \<Rightarrow> keccak blob)
               in Inr (fromLevel, gset hash blob proofDb))
        else Inr (fromLevel, proofDb))))"

primrec prove_nodes :: "(bytes \<Rightarrow> bytes) \<Rightarrow> node list \<Rightarrow> bool \<Rightarrow> nat \<Rightarrow> (bytes, bytes) gomap \<Rightarrow> (bytes, bytes) gomap go" where
  "prove_nodes keccak [] first fromLevel proofDb = Inr proofDb"
| "prove_nodes keccak (n # nodes) first fromLevel proofDb =
     go_bind (prove_node keccak n first fromLevel proofDb) (\<lambda>(fromLevel, proofDb). prove_nodes keccak nodes False fromLevel proofDb)"

definition Prove :: "(bytes \<Rightarrow> bytes) \<Rightarrow> loader \<Rightarrow> node \<Rightarrow> bytes \<Rightarrow> nat \<Rightarrow> (bytes, bytes) gomap \<Rightarrow> (bytes, bytes) gomap tr" where
  "Prove keccak load root key fromLevel proofDb =
     tbind (prove_path load root (keybytesToHex key)) (\<lambda>nodes. tlift (prove_nodes keccak nodes True fromLevel proofDb))"

fun get :: "node \<Rightarrow> bytes \<Rightarrow> (bytes \<times> node) go" where
  "get (ShortNode k val _) key =
     (if length key < length k \<or> k \<noteq> take (length k) key then Inr ([], NilNode) else get val (drop (length k) key))"
| "get (FullNode children _) key =
     (case key of [] \<Rightarrow> Inl IndexOutOfRange
      | x # key \<Rightarrow> if unat x < length children then get (children ! unat x) key else Inl IndexOutOfRange)"
| "get (HashNode h) key = Inr (key, HashNode h)"
| "get NilNode key = Inr (key, NilNode)"
| "get (ValueNode v) key = Inr ([], ValueNode v)"

datatype proofErr = ProofMissing nat bytes | BadProof nat decodeErr | ProofPanic go_panic

partial_function (option) verify_loop :: "(bytes, bytes) gomap \<Rightarrow> bytes \<Rightarrow> bytes \<Rightarrow> nat \<Rightarrow> (proofErr + bytes option \<times> nat) option" where
  "verify_loop proofDb wantHash key i =
     (case gget proofDb wantHash of None \<Rightarrow> Some (Inl (ProofMissing i wantHash))
      | Some buf \<Rightarrow> Option.bind (decodeNode wantHash buf) (\<lambda>r. case r of
          Inl e \<Rightarrow> Some (Inl (BadProof i e))
        | Inr n \<Rightarrow> (case get n key of
            Inl p \<Rightarrow> Some (Inl (ProofPanic p))
          | Inr (keyrest, cld) \<Rightarrow> (case cld of
              HashNode h \<Rightarrow> verify_loop proofDb (go_copy wantHash h) keyrest (i + 1)
            | ValueNode v \<Rightarrow> Some (Inr (Some v, i + 1))
            | NilNode \<Rightarrow> Some (Inr (None, i))
            | _ \<Rightarrow> verify_loop proofDb wantHash key (i + 1)))))"

definition VerifyProof :: "bytes \<Rightarrow> bytes \<Rightarrow> (bytes, bytes) gomap \<Rightarrow> (proofErr + bytes option \<times> nat) option" where
  "VerifyProof rootHash key proofDb = verify_loop proofDb rootHash (keybytesToHex key) 0"

section \<open>A loader of all nodes\<close>

text \<open>For the proofs: every trie of \<open>T\<close> can be loaded.\<close>

definition ideal_load :: "(bytes \<Rightarrow> bytes) \<Rightarrow> trie set \<Rightarrow> loader" where
  "ideal_load keccak T h = (if \<exists>t\<in>T. keccak (enc_trie keccak t) = h
     then tbind (mustDecodeNode h (enc_trie keccak (SOME t. t \<in> T \<and> keccak (enc_trie keccak t) = h))) (\<lambda>n. tret (Some n)) else tret None)"

lemma ideal_load_eq:
  assumes "collision_free keccak T" "t \<in> T"
  shows "ideal_load keccak T (keccak (enc_trie keccak t)) = tbind (mustDecodeNode (keccak (enc_trie keccak t)) (enc_trie keccak t)) (\<lambda>n. tret (Some n))"
proof -
  let ?s = "SOME s. s \<in> T \<and> keccak (enc_trie keccak s) = keccak (enc_trie keccak t)"
  have "?s \<in> T \<and> keccak (enc_trie keccak ?s) = keccak (enc_trie keccak t)" using assms(2) by (intro someI) blast
  then have "enc_trie keccak ?s = enc_trie keccak t" using assms by (auto simp: collision_free_def inj_on_def)
  then show ?thesis using assms(2) by (auto simp: ideal_load_def)
qed

lemma linked_True: "linked (\<lambda>_. True) keccak t"
  by (induction t) (simp_all add: list_all_iff)

lemma decode_mustDecode: "mustDecodeNode h b = tret n \<Longrightarrow> decodeNode h b = tret n"
  by (cases "decodeNode h b"; cases "the (decodeNode h b)") (auto simp: mustDecodeNode_def tret_def)

lemma ideal_rep:
  assumes k: "hash32 keccak" and T: "hash_closed T" and c: "collision_free keccak T"
  shows "t \<in> T \<Longrightarrow> \<exists>n. decodeNode (keccak (enc_trie keccak t)) (enc_trie keccak t) = tret n
    \<and> expands (ideal_load keccak T) (trie_hash keccak T False) (loaded_flag (keccak (enc_trie keccak t))) n t
    \<and> (\<not> embedded keccak t \<longrightarrow> rep (ideal_load keccak T) (trie_hash keccak T False) (HashNode (keccak (enc_trie keccak t))) t)"
proof (induction "size t" arbitrary: t rule: less_induct)
  case less
  let ?h = "keccak (enc_trie keccak t)" and ?load = "ideal_load keccak T" and ?hs = "trie_hash keccak T False"
  have ct: "canon t" "sized t" using closed_canon [OF T less.prems] by simp_all
  have link: "linked (\<lambda>t. rep ?load ?hs (HashNode (keccak (enc_trie keccak t))) t) keccak t"
  proof (rule linked_mono [OF T linked_True less.prems])
    show "rep ?load ?hs (HashNode (keccak (enc_trie keccak t'))) t'" if "t' \<in> T" "size t' < size t" "\<not> embedded keccak t'" for t'
      using less.hyps [OF that(2,1)] that(3) by blast
  qed
  obtain n where n: "mustDecodeNode ?h (enc_trie keccak t) = tret n" "expands ?load ?hs (loaded_flag ?h) n t"
    using mustDecode_rep [of keccak t ?load ?hs, where h = ?h, OF k ct link inner_trie_hash] by blast
  have load: "?load ?h = tret (Some n)" using ideal_load_eq [OF c less.prems] n(1) by simp
  have "rep ?load ?hs (HashNode ?h) t" if e: "\<not> embedded keccak t"
  proof (rule rep_hash)
    have "?h \<noteq> []" using k by simp
    then show "rep ?load ?hs n t" using n(2) load e less.prems k
      by (intro expands_rep [OF n(2)]) (auto simp: flag_ok_def trie_hash_def present_def)
  qed (use n load e less.prems k ct expands_not_hash in \<open>auto simp: trie_hash_def\<close>)
  then show ?case using n(2) decode_mustDecode [OF n(1)] by blast
qed

section \<open>Walking a decoded node\<close>

text \<open>What \<open>get\<close> finds below a node that stands for \<open>t\<close>: nothing, the value, or a reference to a trie smaller than \<open>m\<close>.\<close>

definition get_ok :: "(bytes \<Rightarrow> bytes) \<Rightarrow> trie set \<Rightarrow> nat \<Rightarrow> trie \<Rightarrow> bytes \<Rightarrow> (bytes \<times> node) go \<Rightarrow> bool" where
  "get_ok keccak T m t key r \<longleftrightarrow> (\<exists>rest cld. r = Inr (rest, cld) \<and>
     (cld = NilNode \<and> content t key = None \<or> (\<exists>v. cld = ValueNode v \<and> content t key = Some v)
      \<or> (\<exists>t'. cld = HashNode (keccak (enc_trie keccak t')) \<and> t' \<in> T \<and> \<not> embedded keccak t' \<and> size t' < m
           \<and> rest \<noteq> [] \<and> rest_key rest \<and> content t key = content t' rest)))"

lemma get_ok_mono: "get_ok keccak T m s rest r \<Longrightarrow> content t key = content s rest \<Longrightarrow> m \<le> m' \<Longrightarrow> get_ok keccak T m' t key r"
  unfolding get_ok_def by (elim exE conjE disjE) (auto intro: less_le_trans)

lemma get_short:
  assumes IH: "\<And>rest. key = k @ rest \<Longrightarrow> get_ok keccak T m s rest (get n rest)"
  shows "get_ok keccak T m (TShort k s) key (get (ShortNode k n f) key)"
proof (cases "take (length k) key = k")
  case True
  then have key: "key = k @ drop (length k) key" by (metis append_take_drop_id)
  have "length k \<le> length key" using arg_cong [OF True, of length] by simp
  then have "get (ShortNode k n f) key = get n (drop (length k) key)" using True by simp
  moreover have "content (TShort k s) key = content s (drop (length k) key)" using True by simp
  ultimately show ?thesis using get_ok_mono [OF IH [OF key], of "TShort k s" key m] by simp
next
  case False
  then have "get (ShortNode k n f) key = Inr ([], NilNode)" by auto
  then show ?thesis using False by (simp add: get_ok_def)
qed

lemma get_full:
  assumes c: "canon (TFull ts)" "rest_key key" "key \<noteq> []" and len: "length ns = length ts"
    and IH: "\<And>x rest. key = x # rest \<Longrightarrow> unat x < length ts \<Longrightarrow> get_ok keccak T m (ts ! unat x) rest (get (ns ! unat x) rest)"
  shows "get_ok keccak T m (TFull ts) key (get (FullNode ns f) key)"
proof -
  obtain x rest where x: "key = x # rest" using c(3) by (cases key) auto
  have i: "unat x < length ts" using canon_children(1) [OF c(1), of x rest] rest_key_Cons [of x rest] c(2) x by simp
  then show ?thesis using get_ok_mono [OF IH [OF x i], of "TFull ts" key m] x len by simp
qed

lemma get_rep:
  assumes T: "hash_closed T"
  shows "rep load (trie_hash keccak T False) n t \<Longrightarrow> slot_ok key t \<Longrightarrow> rest_key key \<Longrightarrow> size t < m \<Longrightarrow> get_ok keccak T m t key (get n key)"
proof (induction n arbitrary: t key)
  case (ShortNode k n f)
  then obtain s where s: "t = TShort k s" "rep load (trie_hash keccak T False) n s" by auto
  then have c: "canon (TShort k s)" using ShortNode.prems(2) by (auto simp: slot_ok_def split: if_splits)
  show ?case unfolding s(1)
  proof (rule get_short)
    show "get_ok keccak T m s rest (get n rest)" if "key = k @ rest" for rest
      using ShortNode.IH [OF s(2)] canon_short [OF c, of rest] ShortNode.prems(3,4) that s(1) by simp
  qed
next
  case (FullNode ns f)
  then obtain ts where ts: "t = TFull ts" "list_all2 (rep load (trie_hash keccak T False)) ns ts" by auto
  then have c: "canon (TFull ts)" "key \<noteq> []" using FullNode.prems(2) by (auto simp: slot_ok_def split: if_splits)
  show ?case unfolding ts(1)
  proof (rule get_full [OF c(1) FullNode.prems(3) c(2) list_all2_lengthD [OF ts(2)]])
    show "get_ok keccak T m (ts ! unat x) rest (get (ns ! unat x) rest)" if x: "key = x # rest" "unat x < length ts" for x rest
    proof (rule FullNode.IH)
      show "ns ! unat x \<in> set ns" using x(2) list_all2_lengthD [OF ts(2)] by simp
      show "rep load (trie_hash keccak T False) (ns ! unat x) (ts ! unat x)" using list_all2_nthD2 [OF ts(2) x(2)] .
      show "slot_ok rest (ts ! unat x)" "rest_key rest" using canon_children(2) [OF c(1)] rest_key_Cons [of x rest] FullNode.prems(3) x by auto
      show "size (ts ! unat x) < m" using size_child [of "ts ! unat x" t] x(2) ts(1) FullNode.prems(4) by simp
    qed
  qed
next
  case (HashNode h)
  then have h: "t \<in> T" "\<not> embedded keccak t" "h = keccak (enc_trie keccak t)" by (auto elim: rep.cases simp: trie_hash_def)
  then have "key \<noteq> []" using closed_canon [OF T h(1)] HashNode.prems(2) by (auto simp: slot_ok_def)
  then show ?case using h HashNode.prems(3,4) by (auto simp: get_ok_def)
qed (auto simp: get_ok_def slot_ok_def split: if_splits)

lemma get_expands:
  assumes T: "hash_closed T" and n: "expands load (trie_hash keccak T False) f n t" and t: "canon t" "key \<noteq> []" "rest_key key"
  shows "get_ok keccak T (size t) t key (get n key)"
  using n
proof cases
  case (1 n' s k)
  show ?thesis unfolding 1(1,2)
  proof (rule get_short)
    show "get_ok keccak T (size (TShort k s)) s rest (get n' rest)" if "key = k @ rest" for rest
      using get_rep [OF T 1(3)] canon_short [of k s rest] t that 1(2) by simp
  qed
next
  case (2 ns ts)
  have c: "canon (TFull ts)" using t(1) 2(2) by simp
  show ?thesis unfolding 2(1,2)
  proof (rule get_full [OF c t(3,2) list_all2_lengthD [OF 2(3)]])
    show "get_ok keccak T (size (TFull ts)) (ts ! unat x) rest (get (ns ! unat x) rest)" if x: "key = x # rest" "unat x < length ts" for x rest
      using get_rep [OF T list_all2_nthD2 [OF 2(3) x(2)]] canon_children(2) [OF c] rest_key_Cons [of x rest] t(3) x size_child [of "ts ! unat x" "TFull ts"]
      by simp
  qed
qed

section \<open>Soundness\<close>

lemma verify_step:
  assumes k: "hash32 keccak" and T: "hash_closed T" "collision_free keccak T" "t \<in> T" and key: "key \<noteq> []" "rest_key key"
    and buf: "gget proofDb (keccak (enc_trie keccak t)) = Some (enc_trie keccak t)"
  shows "(\<exists>j. verify_loop proofDb (keccak (enc_trie keccak t)) key i = Some (Inr (content t key, j)))
    \<or> (\<exists>t' rest. t' \<in> T \<and> \<not> embedded keccak t' \<and> size t' < size t \<and> rest \<noteq> [] \<and> rest_key rest \<and> content t key = content t' rest
        \<and> verify_loop proofDb (keccak (enc_trie keccak t)) key i = verify_loop proofDb (keccak (enc_trie keccak t')) rest (i + 1))"
proof -
  let ?h = "keccak (enc_trie keccak t)"
  obtain n where n: "decodeNode ?h (enc_trie keccak t) = tret n"
    "expands (ideal_load keccak T) (trie_hash keccak T False) (loaded_flag ?h) n t" using ideal_rep [OF k T] by blast
  have c: "canon t" using closed_canon [OF T(1,3)] by simp
  obtain rest cld where g: "get n key = Inr (rest, cld)"
    "cld = NilNode \<and> content t key = None \<or> (\<exists>v. cld = ValueNode v \<and> content t key = Some v)
      \<or> (\<exists>t'. cld = HashNode (keccak (enc_trie keccak t')) \<and> t' \<in> T \<and> \<not> embedded keccak t' \<and> size t' < size t
           \<and> rest \<noteq> [] \<and> rest_key rest \<and> content t key = content t' rest)"
    using get_expands [OF T(1) n(2) c key] unfolding get_ok_def by blast
  have copy: "go_copy ?h (keccak b) = keccak b" for b using k by (simp add: go_copy_def)
  have loop: "verify_loop proofDb ?h key i = (case cld of
      HashNode h \<Rightarrow> verify_loop proofDb (go_copy ?h h) rest (i + 1) | ValueNode v \<Rightarrow> Some (Inr (Some v, i + 1)) | NilNode \<Rightarrow> Some (Inr (None, i))
      | _ \<Rightarrow> verify_loop proofDb ?h key (i + 1))"
    by (subst verify_loop.simps) (simp only: buf n(1) [unfolded tret_def] g(1) option.case Option.bind.bind_lunit sum.case prod.case)
  from g(2) show ?thesis
  proof (elim disjE exE conjE)
    fix t' assume "cld = HashNode (keccak (enc_trie keccak t'))" "t' \<in> T" "\<not> embedded keccak t'" "size t' < size t" "rest \<noteq> []" "rest_key rest"
      "content t key = content t' rest"
    then show ?thesis using loop copy by auto
  qed (use loop in simp_all)
qed

text \<open>The store is content-addressed, as the stores of received proofs are, and its contents do not collide with the nodes of \<open>T\<close>.\<close>

definition authentic :: "(bytes \<Rightarrow> bytes) \<Rightarrow> trie set \<Rightarrow> (bytes, bytes) gomap \<Rightarrow> bool" where
  "authentic keccak T proofDb \<longleftrightarrow> (\<forall>h b. gget proofDb h = Some b \<longrightarrow> h = keccak b \<and> (\<forall>t\<in>T. keccak b = keccak (enc_trie keccak t) \<longrightarrow> b = enc_trie keccak t))"

lemma verify_sound:
  assumes k: "hash32 keccak" and T: "hash_closed T" "collision_free keccak T" and db: "authentic keccak T proofDb"
  shows "t \<in> T \<Longrightarrow> key \<noteq> [] \<Longrightarrow> rest_key key \<Longrightarrow>
    (\<exists>j h. verify_loop proofDb (keccak (enc_trie keccak t)) key i = Some (Inl (ProofMissing j h)))
    \<or> (\<exists>j. verify_loop proofDb (keccak (enc_trie keccak t)) key i = Some (Inr (content t key, j)))"
proof (induction "size t" arbitrary: t key i rule: less_induct)
  case less
  let ?h = "keccak (enc_trie keccak t)"
  show ?case
  proof (cases "gget proofDb ?h")
    case None
    then show ?thesis by (subst (1) verify_loop.simps) simp
  next
    case (Some b)
    then have "gget proofDb ?h = Some (enc_trie keccak t)" using db less.prems(1) by (metis authentic_def)
    then consider "\<exists>j. verify_loop proofDb ?h key i = Some (Inr (content t key, j))"
      | t' rest where "t' \<in> T" "size t' < size t" "rest \<noteq> []" "rest_key rest" "content t key = content t' rest"
        "verify_loop proofDb ?h key i = verify_loop proofDb (keccak (enc_trie keccak t')) rest (i + 1)"
      using verify_step [OF k T less.prems, of proofDb i] by blast
    then show ?thesis
    proof cases
      case 2
      then show ?thesis using less.hyps [OF 2(2,1,3,4), of "i + 1"] by simp
    qed blast
  qed
qed

section \<open>Properties\<close>

text \<open>C10: A verified proof is right.  Against the root of the trie of a map, \<open>VerifyProof\<close> terminates on every
  content-addressed store without a panic; it reports a missing node or returns what the map holds for the key,
  so no store makes it accept a wrong value or a wrong absence.\<close>

theorem VerifyProof_sound:
  assumes "hash32 keccak" "hash_closed T" "collision_free keccak T" "authentic keccak T proofDb" "trie_of m t" "t \<in> T"
  shows "(\<exists>i h. VerifyProof (merkle_root keccak t) key proofDb = Some (Inl (ProofMissing i h)))
    \<or> (\<exists>i. VerifyProof (merkle_root keccak t) key proofDb = Some (Inr (m key, i)))"
proof -
  have "t \<noteq> TNil" using closed_canon [OF assms(2,6)] by auto
  then have "merkle_root keccak t = keccak (enc_trie keccak t)" by (simp add: merkle_root_def)
  moreover have "content t (keybytesToHex key) = m key" using assms(5) by (simp add: trie_of_def)
  ultimately show ?thesis using verify_sound [OF assms(1-4,6), of "keybytesToHex key" 0] by (simp add: VerifyProof_def)
qed

theorem VerifyProof_sound_witness:
  "authentic first32 {leaf_trie [0x12] [7]} [(first32 [0xc4, 0x82, 0x20, 0x12, 7], [0xc4, 0x82, 0x20, 0x12, 7])]
   \<and> ((\<exists>i h. VerifyProof (merkle_root first32 (leaf_trie [0x12] [7])) [0x12] [(first32 [0xc4, 0x82, 0x20, 0x12, 7], [0xc4, 0x82, 0x20, 0x12, 7])]
        = Some (Inl (ProofMissing i h)))
    \<or> (\<exists>i. VerifyProof (merkle_root first32 (leaf_trie [0x12] [7])) [0x12] [(first32 [0xc4, 0x82, 0x20, 0x12, 7], [0xc4, 0x82, 0x20, 0x12, 7])]
        = Some (Inr (([[0x12] \<mapsto> [7]]) [0x12], i))))"
proof -
  let ?db = "[(first32 [0xc4, 0x82, 0x20, 0x12, 7], [0xc4, 0x82, 0x20, 0x12, 7 :: u8])]"
  have "enc_trie first32 (leaf_trie [0x12] [7]) = [0xc4, 0x82, 0x20, 0x12, 7]" by code_simp
  then have a: "authentic first32 {leaf_trie [0x12] [7]} ?db" by (simp add: authentic_def gget_def)
  show ?thesis using a VerifyProof_sound [OF first32_hash leaf_closed first32_free(1) a, of "[[0x12] \<mapsto> [7]]" "leaf_trie [0x12] [7]" "[0x12]"]
    by (simp add: trie_of_leaf)
qed

end
