(* ===== verification/Trie_Dag.thy ===== *)
theory Trie_Dag
  imports Prelude "HOL-Library.Multiset"
begin

text \<open>
  The scheduler of parallel hashing (\<open>ethereum/trie/dag.go\<close>) and the loop of its workers (\<open>process\<close> in
  \<open>ethereum/trie/trie_dag.go\<close>).  A vertex is a trie node, an edge leads to its parent, and a vertex is ready when all its
  children are consumed.  The operations that build the graph are functions; \<open>waitPop\<close> and \<open>consume\<close>, which the
  workers run concurrently, are cut into steps at their atomic operations and critical sections:
  a worker is a program counter, and a step of the system is a step of any worker.
  What a worker does with a vertex is the parameter \<open>work\<close>, applied to the shared data at once.
\<close>

section \<open>Model of dag.go\<close>

definition invalidID :: u64 where "invalidID = MaxUint64"

record vertex =
  v_inDegree :: u32
  v_outEdge :: "u64 list"

record dag =
  d_vtxs :: "(u64, vertex) gomap"
  d_topLevel :: "u64 list"
  d_totalVertexs :: u32
  d_totalConsumed :: u32

definition newDag :: dag where
  "newDag = \<lparr>d_vtxs = [], d_topLevel = [], d_totalVertexs = 0, d_totalConsumed = 0\<rparr>"

definition addVertex :: "u64 \<Rightarrow> dag \<Rightarrow> dag" where
  "addVertex vid d = (if gget (d_vtxs d) vid = None
     then d\<lparr>d_vtxs := gset vid \<lparr>v_inDegree = 0, v_outEdge = []\<rparr> (d_vtxs d), d_totalVertexs := d_totalVertexs d + 1\<rparr> else d)"

definition delVertex :: "u64 \<Rightarrow> dag \<Rightarrow> dag" where
  "delVertex vid d = (if gget (d_vtxs d) vid \<noteq> None
     then d\<lparr>d_totalVertexs := d_totalVertexs d - 1, d_vtxs := gdel vid (d_vtxs d)\<rparr> else d)"

definition addEdge :: "u64 \<Rightarrow> u64 \<Rightarrow> dag \<Rightarrow> dag" where
  "addEdge src dst d0 =
     (let d = addVertex src d0 in
      case gget (d_vtxs d) src of None \<Rightarrow> d
      | Some vtx \<Rightarrow> if dst \<in> set (v_outEdge vtx) then d
          else d\<lparr>d_vtxs := gset src (vtx\<lparr>v_outEdge := v_outEdge vtx @ [dst]\<rparr>) (d_vtxs d)\<rparr>)"

text \<open>\<open>generate\<close>: the second loop visits the vertices in the order \<open>order\<close>.\<close>

definition inc_degree :: "u64 \<Rightarrow> (u64, vertex) gomap \<Rightarrow> (u64, vertex) gomap go" where
  "inc_degree pid vtxs = (case gget vtxs pid of None \<Rightarrow> Inl (Explicit ''out found parent id'')
     | Some v \<Rightarrow> Inr (gset pid (v\<lparr>v_inDegree := v_inDegree v + 1\<rparr>) vtxs))"

definition in_degree :: "(u64, vertex) gomap \<Rightarrow> u64 \<Rightarrow> u32" where
  "in_degree vtxs vid = (case gget vtxs vid of None \<Rightarrow> 0 | Some v \<Rightarrow> v_inDegree v)"

definition generate :: "u64 list \<Rightarrow> dag \<Rightarrow> dag go" where
  "generate order d = go_map (\<lambda>vtxs. d\<lparr>d_vtxs := vtxs, d_topLevel := d_topLevel d @ filter (\<lambda>vid. in_degree vtxs vid = 0) order\<rparr>)
     (go_fold inc_degree (concat (map (\<lambda>(vid, v). v_outEdge v) (d_vtxs d))) (d_vtxs d))"

definition hasFinished :: "dag \<Rightarrow> bool" where
  "hasFinished d \<longleftrightarrow> d_totalConsumed d \<ge> d_totalVertexs d"

definition dag_clear :: "dag \<Rightarrow> dag" where
  "dag_clear d = d\<lparr>d_vtxs := [], d_topLevel := [], d_totalConsumed := 0, d_totalVertexs := 0\<rparr>"

definition dag_reset :: "dag \<Rightarrow> dag" where
  "dag_reset d = d\<lparr>d_vtxs := map (\<lambda>(vid, v). (vid, v\<lparr>v_inDegree := 0\<rparr>)) (d_vtxs d), d_topLevel := [], d_totalConsumed := 0\<rparr>"

section \<open>Workers\<close>

text \<open>Where a worker is: before \<open>waitPop\<close>, before its critical section, in \<open>cv.Wait\<close>, holding a vertex, in the loop of
  \<open>consume\<close> over the edges \<open>es\<close> with \<open>producedNum\<close> and \<open>nextID\<close>, before the critical section that pushes \<open>k\<close>,
  before the broadcast, after \<open>consume\<close>, or returned.\<close>

datatype pc = Enter | Popping | Waiting | Work u64 | Consuming u64 "u64 list" nat u64 | Pushing u64 u64 "u64 list" nat u64
  | Broadcasting u64 u64 | Returned u64 u64 | Done

text \<open>What a step does to the workers in \<open>cv.Wait\<close>.\<close>

datatype wake = Quiet | Signal | Broadcast

definition waitPop :: "dag \<Rightarrow> dag \<times> pc" where
  "waitPop d = (if d_topLevel d = [] \<and> \<not> hasFinished d then (d, Waiting)
     else if hasFinished d \<or> d_topLevel d = [] then (d, Done)
     else let vid = hd (d_topLevel d) in (d\<lparr>d_topLevel := tl (d_topLevel d)\<rparr>, if vid = invalidID then Done else Work vid))"

definition consume_edge :: "u64 \<Rightarrow> u64 \<Rightarrow> u64 list \<Rightarrow> nat \<Rightarrow> u64 \<Rightarrow> dag \<Rightarrow> (dag \<times> pc) option" where
  "consume_edge vid k es producedNum nextID d = map_option (\<lambda>vtx.
     let degree = v_inDegree vtx - 1;
         d = d\<lparr>d_vtxs := gset k (vtx\<lparr>v_inDegree := degree\<rparr>) (d_vtxs d)\<rparr>
     in (d, if degree = 0
        then (if producedNum + 1 = 1 then Consuming vid es (producedNum + 1) k else Pushing vid k es (producedNum + 1) nextID)
        else Consuming vid es producedNum nextID)) (gget (d_vtxs d) k)"

definition consume_done :: "u64 \<Rightarrow> u64 \<Rightarrow> dag \<Rightarrow> dag \<times> pc" where
  "consume_done vid nextID d =
     (let d = d\<lparr>d_totalConsumed := d_totalConsumed d + 1\<rparr>
      in (d, if d_totalConsumed d = d_totalVertexs d then Broadcasting vid nextID else Returned vid nextID))"

text \<open>One step of one worker; \<open>is_root vid\<close> stands for \<open>td.nodes[vid].pid == 0\<close>.  \<open>None\<close>: the worker cannot move.\<close>

fun worker_step :: "(u64 \<Rightarrow> bool) \<Rightarrow> dag \<Rightarrow> pc \<Rightarrow> (dag \<times> pc \<times> wake) option" where
  "worker_step is_root d Enter = Some (d, if hasFinished d then Done else Popping, Quiet)"
| "worker_step is_root d Popping = Some (let (d, p) = waitPop d in (d, p, Quiet))"
| "worker_step is_root d Waiting = None"
| "worker_step is_root d (Work vid) = map_option (\<lambda>v. (d, Consuming vid (v_outEdge v) 0 invalidID, Quiet)) (gget (d_vtxs d) vid)"
| "worker_step is_root d (Consuming vid [] _ nextID) = Some (let (d, p) = consume_done vid nextID d in (d, p, Quiet))"
| "worker_step is_root d (Consuming vid (k # es) n nextID) = map_option (\<lambda>(d, p). (d, p, Quiet)) (consume_edge vid k es n nextID d)"
| "worker_step is_root d (Pushing vid k es n nextID) = Some (d\<lparr>d_topLevel := d_topLevel d @ [k]\<rparr>, Consuming vid es n nextID, Signal)"
| "worker_step is_root d (Broadcasting vid nextID) = Some (d, Returned vid nextID, Broadcast)"
| "worker_step is_root d (Returned vid nextID) = Some (d,
     if is_root vid then Done else if nextID = invalidID then (if hasFinished d then Done else Enter) else Work nextID, Quiet)"
| "worker_step is_root d Done = None"

fun woken :: "wake \<Rightarrow> pc list \<Rightarrow> pc list \<Rightarrow> bool" where
  "woken Quiet ws ws' \<longleftrightarrow> ws' = ws"
| "woken Signal ws ws' \<longleftrightarrow> (if Waiting \<in> set ws then \<exists>j<length ws. ws ! j = Waiting \<and> ws' = ws[j := Popping] else ws' = ws)"
| "woken Broadcast ws ws' \<longleftrightarrow> ws' = map (\<lambda>p. if p = Waiting then Popping else p) ws"

text \<open>The state of the system: the scheduler, the workers, the shared data, and the vertices worked on so far.\<close>

record 'a sys =
  s_dag :: dag
  s_workers :: "pc list"
  s_data :: 'a
  s_log :: "u64 list"

fun worked :: "pc \<Rightarrow> u64 list" where
  "worked (Work vid) = [vid]"
| "worked _ = []"

inductive sys_step :: "(u64 \<Rightarrow> bool) \<Rightarrow> (u64 \<Rightarrow> 'a \<Rightarrow> 'a) \<Rightarrow> 'a sys \<Rightarrow> 'a sys \<Rightarrow> bool" for is_root work where
  sys_step: "i < length (s_workers s) \<Longrightarrow> worker_step is_root (s_dag s) (s_workers s ! i) = Some (d, p, w)
    \<Longrightarrow> woken w ((s_workers s)[i := p]) ws
    \<Longrightarrow> sys_step is_root work s \<lparr>s_dag = d, s_workers = ws, s_data = fold work (worked (s_workers s ! i)) (s_data s),
          s_log = s_log s @ worked (s_workers s ! i)\<rparr>"

definition start :: "nat \<Rightarrow> 'a \<Rightarrow> dag \<Rightarrow> 'a sys" where
  "start numCPU x d = \<lparr>s_dag = d, s_workers = replicate numCPU Enter, s_data = x, s_log = []\<rparr>"

section \<open>Invariant\<close>

text \<open>Edges still to be consumed, vertices a worker holds, and workers that have a vertex still to be counted.\<close>

fun consuming :: "pc \<Rightarrow> u64 multiset" where
  "consuming (Consuming vid es n nextID) = mset es"
| "consuming (Pushing vid k es n nextID) = mset es"
| "consuming _ = {#}"

definition valid_id :: "u64 \<Rightarrow> u64 multiset" where
  "valid_id vid = (if vid = invalidID then {#} else {#vid#})"

fun owned :: "pc \<Rightarrow> u64 multiset" where
  "owned (Work vid) = {#vid#}"
| "owned (Consuming vid es n nextID) = valid_id nextID"
| "owned (Pushing vid k es n nextID) = add_mset k (valid_id nextID)"
| "owned (Broadcasting vid nextID) = valid_id nextID"
| "owned (Returned vid nextID) = valid_id nextID"
| "owned _ = {#}"

fun uncounted :: "pc \<Rightarrow> nat" where
  "uncounted (Consuming vid es n nextID) = 1"
| "uncounted (Pushing vid k es n nextID) = 1"
| "uncounted _ = 0"

fun pc_ok :: "u64 set \<Rightarrow> u64 list \<Rightarrow> pc \<Rightarrow> bool" where
  "pc_ok V log (Consuming vid es n nextID) \<longleftrightarrow> vid \<in> set log \<and> set es \<subseteq> V \<and> (nextID = invalidID \<longleftrightarrow> n = 0)"
| "pc_ok V log (Pushing vid k es n nextID) \<longleftrightarrow> vid \<in> set log \<and> set es \<subseteq> V \<and> nextID \<noteq> invalidID \<and> n \<noteq> 0"
| "pc_ok V log (Broadcasting vid nextID) \<longleftrightarrow> vid \<in> set log"
| "pc_ok V log (Returned vid nextID) \<longleftrightarrow> vid \<in> set log"
| "pc_ok V log _ \<longleftrightarrow> True"

fun active :: "pc \<Rightarrow> bool" where
  "active Waiting \<longleftrightarrow> False"
| "active Done \<longleftrightarrow> False"
| "active _ \<longleftrightarrow> True"

fun is_Broadcasting :: "pc \<Rightarrow> bool" where
  "is_Broadcasting (Broadcasting _ _) \<longleftrightarrow> True"
| "is_Broadcasting _ \<longleftrightarrow> False"

abbreviation wsum :: "(pc \<Rightarrow> 'b::comm_monoid_add) \<Rightarrow> pc list \<Rightarrow> 'b" where
  "wsum f ws \<equiv> sum_list (map f ws)"

lemma wsum_update: "i < length ws \<Longrightarrow> wsum f (ws[i := p]) + f (ws ! i) = wsum f ws + f p"
proof (induction ws arbitrary: i)
  case (Cons q ws)
  show ?case
  proof (cases i)
    case (Suc j)
    then show ?thesis using Cons.IH [of j] Cons.prems by (simp add: add.assoc)
  qed (simp add: ac_simps)
qed simp

lemma wsum_woken:
  assumes "woken w ws ws'" "f Waiting = f Popping"
  shows "wsum f ws' = (wsum f ws :: 'b::cancel_comm_monoid_add)"
proof (cases w)
  case Signal
  show ?thesis
  proof (cases "Waiting \<in> set ws")
    case True
    then obtain j where j: "j < length ws" "ws ! j = Waiting" "ws' = ws[j := Popping]" using assms(1) Signal by auto
    then show ?thesis using wsum_update [of j ws f Popping] assms(2) by simp
  qed (use assms(1) Signal in simp)
next
  case Broadcast
  have "map f (map (\<lambda>p. if p = Waiting then Popping else p) ws) = map f ws" using assms(2) by simp
  then show ?thesis using assms(1) Broadcast by (simp del: map_map)
qed (use assms in simp)

lemma wsum_step:
  assumes "i < length ws" "woken w (ws[i := p]) ws'" "f Waiting = f Popping"
  shows "wsum f ws' + f (ws ! i) = wsum f ws + (f p :: 'b::cancel_comm_monoid_add)"
  using wsum_update [OF assms(1), of f p] wsum_woken [OF assms(2), of f] assms(3) by simp

lemma set_woken:
  assumes "woken w ws ws'" "q \<in> set ws'"
  shows "q \<in> set ws \<or> q = Popping"
  using assms by (cases w) (auto split: if_splits dest!: set_update_subset_insert [THEN subsetD])

text \<open>The edges still pending, and the vertices that have none coming in.\<close>

definition pending :: "(u64 \<Rightarrow> u64 list) \<Rightarrow> u64 set \<Rightarrow> u64 list \<Rightarrow> pc list \<Rightarrow> u64 multiset" where
  "pending E V log ws = (\<Sum>v\<in>V - set log. mset (E v)) + wsum consuming ws"

definition ready :: "u64 set \<Rightarrow> u64 multiset \<Rightarrow> u64 multiset" where
  "ready V P = mset_set {v \<in> V. count P v = 0}"

definition degrees_ok :: "(u64 \<Rightarrow> u64 list) \<Rightarrow> u64 set \<Rightarrow> dag \<Rightarrow> u64 multiset \<Rightarrow> bool" where
  "degrees_ok E V d P \<longleftrightarrow> (\<forall>v\<in>V. \<exists>x. gget (d_vtxs d) v = Some x \<and> v_outEdge x = E v \<and> unat (v_inDegree x) = count P v)"

definition topological :: "(u64 \<Rightarrow> u64 list) \<Rightarrow> u64 set \<Rightarrow> u64 list \<Rightarrow> bool" where
  "topological E V log \<longleftrightarrow> (\<forall>i<length log. \<forall>u\<in>V. log ! i \<in> set (E u) \<longrightarrow> u \<in> set (take i log))"

definition graph_ok :: "(u64 \<Rightarrow> bool) \<Rightarrow> (u64 \<Rightarrow> u64 list) \<Rightarrow> u64 set \<Rightarrow> bool" where
  "graph_ok is_root E V \<longleftrightarrow> finite V \<and> card V < 2 ^ 32 \<and> invalidID \<notin> V \<and> (\<forall>u\<in>V. set (E u) \<subseteq> V)
     \<and> acyclic {(u, v). u \<in> V \<and> v \<in> set (E u)} \<and> (\<forall>r\<in>V. is_root r \<longrightarrow> (\<forall>v\<in>V. v \<noteq> r \<longrightarrow> E v \<noteq> []))"

definition sched_inv :: "(u64 \<Rightarrow> u64 list) \<Rightarrow> u64 set \<Rightarrow> 'a sys \<Rightarrow> bool" where
  "sched_inv E V s \<longleftrightarrow> (let d = s_dag s; ws = s_workers s; log = s_log s; P = pending E V log ws in
     degrees_ok E V d P \<and> mset log + mset (d_topLevel d) + wsum owned ws = ready V P \<and> (\<forall>p\<in>set ws. pc_ok V log p) \<and> topological E V log)"

definition count_inv :: "u64 set \<Rightarrow> 'a sys \<Rightarrow> bool" where
  "count_inv V s \<longleftrightarrow> unat (d_totalVertexs (s_dag s)) = card V \<and> unat (d_totalConsumed (s_dag s)) + wsum uncounted (s_workers s) = length (s_log s)"

definition wake_inv :: "'a sys \<Rightarrow> bool" where
  "wake_inv s \<longleftrightarrow> (hasFinished (s_dag s) \<and> Waiting \<in> set (s_workers s) \<longrightarrow> (\<exists>p\<in>set (s_workers s). is_Broadcasting p))
     \<and> (d_topLevel (s_dag s) \<noteq> [] \<and> \<not> hasFinished (s_dag s) \<longrightarrow> (\<exists>p\<in>set (s_workers s). active p))"

lemma mem_ready: "finite V \<Longrightarrow> v \<in># ready V P \<longleftrightarrow> v \<in> V \<and> count P v = 0"
  by (simp add: ready_def)

lemma ready_once: "count (ready V P) v \<le> 1"
  by (simp add: ready_def count_mset_set')

section \<open>Every step keeps the invariant\<close>

lemma pc_ok_mono: "pc_ok V log p \<Longrightarrow> pc_ok V (log @ l) p"
  by (cases p) auto

lemma pcs_ok_step:
  assumes "\<forall>p\<in>set ws. pc_ok V log p" "pc_ok V (log @ l) p" "woken w (ws[i := p]) ws'"
  shows "\<forall>p\<in>set ws'. pc_ok V (log @ l) p"
proof
  fix q assume "q \<in> set ws'"
  then consider "q \<in> set ws" | "q = p" | "q = Popping" using set_woken [OF assms(3)] set_update_subset_insert [of ws i p] by blast
  then show "pc_ok V (log @ l) q" using assms(1,2) pc_ok_mono by cases auto
qed

lemma pending_step:
  assumes "i < length ws" "woken w (ws[i := p]) ws'"
  shows "pending E V log ws' + consuming (ws ! i) = pending E V log ws + consuming p"
  using wsum_step [OF assms, of consuming] by (simp add: pending_def add.assoc)

lemma owned_step:
  assumes "i < length ws" "woken w (ws[i := p]) ws'"
  shows "wsum owned ws' + owned (ws ! i) = wsum owned ws + owned p"
  using wsum_step [OF assms, of owned] by simp

text \<open>Steps that consume no edge: the vertices only move between the queue and the workers.\<close>

lemma sched_quiet:
  assumes inv: "sched_inv E V s" and i: "i < length (s_workers s)" "woken w ((s_workers s)[i := p]) ws'"
    and same: "d_vtxs d = d_vtxs (s_dag s)" "consuming p = consuming (s_workers s ! i)" "pc_ok V (s_log s) p"
    and moved: "mset (d_topLevel d) + owned p = mset (d_topLevel (s_dag s)) + owned (s_workers s ! i)"
  shows "sched_inv E V \<lparr>s_dag = d, s_workers = ws', s_data = x, s_log = s_log s\<rparr>"
proof -
  let ?P = "pending E V (s_log s) (s_workers s)"
  have P: "pending E V (s_log s) ws' = ?P" using pending_step [OF i, of E V "s_log s"] same(2) by simp
  have "wsum owned ws' + owned (s_workers s ! i) + mset (d_topLevel d) = wsum owned (s_workers s) + (owned p + mset (d_topLevel d))"
    using owned_step [OF i] by (simp add: add.assoc)
  also have "\<dots> = wsum owned (s_workers s) + mset (d_topLevel (s_dag s)) + owned (s_workers s ! i)" using moved by (simp add: ac_simps)
  finally have "mset (d_topLevel d) + wsum owned ws' = mset (d_topLevel (s_dag s)) + wsum owned (s_workers s)" by (simp add: ac_simps)
  moreover have "\<forall>p\<in>set ws'. pc_ok V (s_log s) p" using pcs_ok_step [of "s_workers s" V "s_log s" "[]" p] inv i(2) same(3)
    by (simp add: sched_inv_def Let_def)
  ultimately show ?thesis using inv same(1) by (simp add: sched_inv_def Let_def P degrees_ok_def add.assoc)
qed

lemma owned_ready:
  assumes "finite V" "sched_inv E V s" "i < length (s_workers s)" "v \<in># owned (s_workers s ! i)"
  shows "v \<in> V" "v \<notin> set (s_log s)" "count (pending E V (s_log s) (s_workers s)) v = 0"
proof -
  let ?P = "pending E V (s_log s) (s_workers s)"
  have eq: "mset (s_log s) + mset (d_topLevel (s_dag s)) + wsum owned (s_workers s) = ready V ?P" using assms(2) by (simp add: sched_inv_def Let_def)
  have "owned (s_workers s ! i) \<subseteq># wsum owned (s_workers s)" using wsum_update [OF assms(3), of owned Done] by (metis add.commute add.right_neutral mset_subset_eq_add_left owned.simps(9))
  then have c: "0 < count (wsum owned (s_workers s)) v" using assms(4) by (metis count_greater_zero_iff mset_subset_eqD)
  then have "v \<in># ready V ?P" unfolding eq [symmetric] by simp
  then show "v \<in> V" "count ?P v = 0" using mem_ready [OF assms(1)] by auto
  have "count (mset (s_log s)) v + count (wsum owned (s_workers s)) v \<le> 1" using ready_once [of V ?P v] unfolding eq [symmetric] by simp
  then have "count (mset (s_log s)) v = 0" using c by linarith
  then show "v \<notin> set (s_log s)" by (simp add: count_eq_zero_iff)
qed

lemma no_pending_pred:
  assumes "finite V" "count (pending E V log ws) v = 0" "u \<in> V" "v \<in> set (E u)"
  shows "u \<in> set log"
proof (rule ccontr)
  assume u: "u \<notin> set log"
  have "count (\<Sum>v\<in>V - set log. mset (E v)) v = 0" using assms(2) by (simp add: pending_def)
  then have "\<forall>u\<in>V - set log. count (mset (E u)) v = 0" using assms(1) by (simp add: count_sum)
  then show False using u assms(3,4) by (auto simp: count_eq_zero_iff)
qed

lemma topological_snoc:
  assumes "topological E V log" "\<And>u. u \<in> V \<Longrightarrow> v \<in> set (E u) \<Longrightarrow> u \<in> set log"
  shows "topological E V (log @ [v])"
  using assms unfolding topological_def by (auto simp: nth_append less_Suc_eq)

lemma pending_work:
  assumes "finite V" "v \<in> V" "v \<notin> set log" "i < length ws" "ws ! i = Work v" "woken w (ws[i := Consuming v (E v) 0 invalidID]) ws'"
  shows "pending E V (log @ [v]) ws' = pending E V log ws"
proof -
  have "V - set log = insert v (V - set (log @ [v]))" using assms by auto
  then have "(\<Sum>v\<in>V - set log. mset (E v)) = mset (E v) + (\<Sum>v\<in>V - set (log @ [v]). mset (E v))" using assms(1) by simp
  moreover have "wsum consuming ws' = wsum consuming ws + mset (E v)" using wsum_step [OF assms(4,6), of consuming] assms(5) by simp
  ultimately show ?thesis by (simp add: pending_def)
qed

lemma sched_work:
  assumes fin: "finite V" and inv: "sched_inv E V s" and i: "i < length (s_workers s)" "woken w ((s_workers s)[i := p]) ws'"
    and q: "s_workers s ! i = Work v" and p: "p = Consuming v (E v) 0 invalidID" and E: "set (E v) \<subseteq> V"
  shows "sched_inv E V \<lparr>s_dag = s_dag s, s_workers = ws', s_data = x, s_log = s_log s @ [v]\<rparr>"
proof -
  let ?P = "pending E V (s_log s) (s_workers s)"
  have v: "v \<in> V" "v \<notin> set (s_log s)" "count ?P v = 0" using owned_ready [OF fin inv i(1)] q by simp_all
  have P: "pending E V (s_log s @ [v]) ws' = ?P" using pending_work [OF fin v(1,2) i(1) q] i(2) p by simp
  have O: "wsum owned ws' + {#v#} = wsum owned (s_workers s)" using owned_step [OF i] q p by (simp add: valid_id_def)
  have "\<forall>p\<in>set ws'. pc_ok V (s_log s @ [v]) p" using pcs_ok_step [of "s_workers s" V "s_log s" "[v]" p w i ws'] inv i(2) p E
    by (simp add: sched_inv_def Let_def)
  moreover have "topological E V (s_log s @ [v])" using inv no_pending_pred [OF fin v(3)] by (intro topological_snoc) (auto simp: sched_inv_def Let_def)
  moreover have "mset (s_log s @ [v]) + mset (d_topLevel (s_dag s)) + wsum owned ws' = ready V ?P"
    using inv O by (simp add: sched_inv_def Let_def) (metis add_mset_add_single union_mset_add_mset_right)
  ultimately show ?thesis using inv by (simp add: sched_inv_def Let_def P)
qed

lemma ready_add:
  assumes "finite V" "k \<in> V"
  shows "ready V P' = (if k \<notin># P' then add_mset k (ready V (add_mset k P')) else ready V (add_mset k P'))"
proof (cases "k \<in># P'")
  case False
  then have 0: "count P' k = 0" by (simp add: not_in_iff)
  from 0 have "{v \<in> V. count P' v = 0} = insert k {v \<in> V. count (add_mset k P') v = 0}" using assms(2) by auto
  then show ?thesis using False assms(1) by (simp add: ready_def)
next
  case True
  then have "count (add_mset k P') v = 0 \<longleftrightarrow> count P' v = 0" for v by (cases "v = k") simp_all
  then have "{v \<in> V. count P' v = 0} = {v \<in> V. count (add_mset k P') v = 0}" by blast
  then show ?thesis using True by (simp add: ready_def)
qed

lemma degrees_edge:
  assumes "degrees_ok E V d (add_mset k P)" "gget (d_vtxs d) k = Some x" "k \<in> V"
  shows "unat (v_inDegree x - 1) = count P k"
    "degrees_ok E V (d\<lparr>d_vtxs := gset k (x\<lparr>v_inDegree := v_inDegree x - 1\<rparr>) (d_vtxs d)\<rparr>) P"
proof -
  have "unat (v_inDegree x) = Suc (count P k)" using assms by (auto simp: degrees_ok_def)
  moreover from this have "v_inDegree x \<noteq> 0" by auto
  ultimately show c: "unat (v_inDegree x - 1) = count P k" by (simp add: unat_minus_one)
  show "degrees_ok E V (d\<lparr>d_vtxs := gset k (x\<lparr>v_inDegree := v_inDegree x - 1\<rparr>) (d_vtxs d)\<rparr>) P"
    using assms c by (auto simp: degrees_ok_def gget_gset)
qed

lemma sched_edge:
  assumes V: "finite V" "invalidID \<notin> V" and inv: "sched_inv E V s" and i: "i < length (s_workers s)" "woken w ((s_workers s)[i := p]) ws'"
    and q: "s_workers s ! i = Consuming vid (k # es) n nextID" and p: "consume_edge vid k es n nextID (s_dag s) = Some (d, p)"
  shows "sched_inv E V \<lparr>s_dag = d, s_workers = ws', s_data = x, s_log = s_log s\<rparr>"
proof -
  let ?P = "pending E V (s_log s) (s_workers s)" and ?P' = "pending E V (s_log s) ws'"
  have ok: "pc_ok V (s_log s) (Consuming vid (k # es) n nextID)" using inv i(1) q by (metis nth_mem sched_inv_def)
  then have k: "k \<in> V" "k \<noteq> invalidID" using V(2) by auto
  obtain y where y: "gget (d_vtxs (s_dag s)) k = Some y" using inv k(1) by (auto simp: sched_inv_def Let_def degrees_ok_def)
  have dp: "d = (s_dag s)\<lparr>d_vtxs := gset k (y\<lparr>v_inDegree := v_inDegree y - 1\<rparr>) (d_vtxs (s_dag s))\<rparr>"
    "p = (if v_inDegree y - 1 = 0 then if n = 0 then Consuming vid es 1 k else Pushing vid k es (n + 1) nextID else Consuming vid es n nextID)"
    using p y by (auto simp: consume_edge_def Let_def split: if_splits)
  have P: "?P = add_mset k ?P'" using pending_step [OF i, of E V "s_log s"] q by (simp add: dp(2) split: if_splits)
  have deg: "unat (v_inDegree y - 1) = count ?P' k" "degrees_ok E V d ?P'"
    using degrees_edge [OF _ y k(1), of E ?P'] inv P by (simp_all add: sched_inv_def Let_def dp(1))
  have zero: "v_inDegree y = 1 \<longleftrightarrow> k \<notin># ?P'" using deg(1) unat_eq_0 [of "v_inDegree y - 1"] by (simp add: not_in_iff)
  have O: "wsum owned ws' + valid_id nextID = wsum owned (s_workers s) + owned p" using owned_step [OF i] q by simp
  have "owned p = (if k \<notin># ?P' then add_mset k (valid_id nextID) else valid_id nextID)"
    using ok k(2) by (simp add: dp(2) zero valid_id_def)
  then have "wsum owned ws' = (if k \<notin># ?P' then add_mset k (wsum owned (s_workers s)) else wsum owned (s_workers s))"
    using O by (simp split: if_splits)
  moreover have "d_topLevel d = d_topLevel (s_dag s)" by (simp add: dp(1))
  ultimately have "mset (s_log s) + mset (d_topLevel d) + wsum owned ws' = ready V ?P'"
    using inv unfolding ready_add [OF V(1) k(1), of ?P'] P [symmetric] by (simp add: sched_inv_def Let_def)
  moreover have "\<forall>p\<in>set ws'. pc_ok V (s_log s) p" using pcs_ok_step [of "s_workers s" V "s_log s" "[]" p w i ws'] inv i(2) ok k(2)
    by (simp add: sched_inv_def Let_def dp(2))
  ultimately show ?thesis using inv deg(2) by (simp add: sched_inv_def Let_def)
qed

definition edge_rel :: "(u64 \<Rightarrow> u64 list) \<Rightarrow> u64 set \<Rightarrow> (u64 \<times> u64) set" where
  "edge_rel E V = {(u, v). u \<in> V \<and> v \<in> set (E u)}"

lemma graph_wf:
  assumes "graph_ok is_root E V"
  shows "wf (edge_rel E V)" "wf ((edge_rel E V)\<inverse>)"
proof -
  have "edge_rel E V \<subseteq> V \<times> V" using assms by (auto simp: graph_ok_def edge_rel_def)
  moreover have "finite (V \<times> V)" using assms by (simp add: graph_ok_def)
  ultimately have "finite (edge_rel E V)" by (rule finite_subset)
  moreover have "acyclic (edge_rel E V)" using assms by (simp add: graph_ok_def edge_rel_def)
  ultimately show "wf (edge_rel E V)" "wf ((edge_rel E V)\<inverse>)" by (simp_all add: finite_acyclic_wf finite_acyclic_wf_converse)
qed

lemma topological_closed:
  assumes "topological E V log" "v \<in> set log" "u \<in> V" "v \<in> set (E u)"
  shows "u \<in> set log"
proof -
  obtain i where i: "i < length log" "log ! i = v" using assms(2) by (auto simp: in_set_conv_nth)
  then have "u \<in> set (take i log)" using assms(1,3,4) by (simp add: topological_def)
  then show ?thesis by (rule in_set_takeD)
qed

text \<open>The root is worked on last.\<close>

lemma root_last:
  assumes g: "graph_ok is_root E V" and t: "topological E V log" and r: "r \<in> set log" "r \<in> V" "is_root r"
  shows "V \<subseteq> set log"
proof (rule ccontr)
  assume "\<not> V \<subseteq> set log"
  then obtain x where "x \<in> V - set log" by auto
  then obtain v where v: "v \<in> V - set log" "\<And>y. (y, v) \<in> (edge_rel E V)\<inverse> \<Longrightarrow> y \<notin> V - set log"
    using wfE_min [OF graph_wf(2) [OF g]] by metis
  then have "v \<noteq> r" using r(1) by auto
  then have "E v \<noteq> []" using g v(1) r(2,3) by (auto simp: graph_ok_def)
  then obtain y where y: "y \<in> set (E v)" by (cases "E v") auto
  then have "y \<in> V" using g v(1) by (auto simp: graph_ok_def)
  then have "y \<in> set log" using v y by (auto simp: edge_rel_def)
  then show False using topological_closed [OF t _ _ y] v(1) by auto
qed

lemma distinct_below:
  assumes "mset xs \<subseteq># mset_set V"
  shows "distinct xs"
  using assms
proof (induction xs)
  case (Cons x xs)
  have "Suc (count (mset xs) x) \<le> count (mset_set V) x" using mset_subset_eq_count [OF Cons.prems, of x] by simp
  moreover have "count (mset_set V) x \<le> 1" by (simp add: count_mset_set')
  ultimately have "count (mset xs) x = 0" by linarith
  moreover have "mset xs \<subseteq># mset_set V" using Cons.prems by (simp add: mset_subset_eq_insertD subset_mset.less_imp_le)
  ultimately show ?case using Cons.IH by (simp add: count_eq_zero_iff)
qed simp

lemma ready_below: "finite V \<Longrightarrow> ready V P \<subseteq># mset_set V"
  unfolding ready_def by (intro subset_imp_msubset_mset_set) auto

lemma log_ready:
  assumes "finite V" "sched_inv E V s"
  shows "mset (s_log s) + mset (d_topLevel (s_dag s)) + wsum owned (s_workers s) \<subseteq># mset_set V"
    and "set (s_log s) \<subseteq> V" "distinct (s_log s)" "set (d_topLevel (s_dag s)) \<subseteq> V"
proof -
  show b: "mset (s_log s) + mset (d_topLevel (s_dag s)) + wsum owned (s_workers s) \<subseteq># mset_set V"
    using ready_below [OF assms(1)] assms(2) by (simp add: sched_inv_def Let_def)
  then have "mset (s_log s) \<subseteq># mset_set V" by (rule subset_mset.order_trans [rotated]) (simp add: add.assoc)
  then show "distinct (s_log s)" by (rule distinct_below)
  show "set (s_log s) \<subseteq> V" "set (d_topLevel (s_dag s)) \<subseteq> V" using set_mset_mono [OF b] assms(1) by simp_all
qed

lemma all_logged:
  assumes "finite V" "sched_inv E V s" "V \<subseteq> set (s_log s)"
  shows "d_topLevel (s_dag s) = []" "wsum owned (s_workers s) = {#}"
proof -
  have "set (s_log s) = V" using log_ready(2) [OF assms(1,2)] assms(3) by (rule subset_antisym)
  then have "mset (s_log s) = mset_set V" using mset_set_set [OF log_ready(3) [OF assms(1,2)]] by simp
  then have "mset_set V + (mset (d_topLevel (s_dag s)) + wsum owned (s_workers s)) \<subseteq># mset_set V"
    using log_ready(1) [OF assms(1,2)] by (simp add: add.assoc)
  then have "mset (d_topLevel (s_dag s)) + wsum owned (s_workers s) = {#}" by simp
  then show "d_topLevel (s_dag s) = []" "wsum owned (s_workers s) = {#}" by simp_all
qed

lemma wsum_empty: "wsum owned ws = {#} \<Longrightarrow> p \<in> set ws \<Longrightarrow> owned p = {#}"
  by (induction ws) auto

lemma sched_step:
  assumes g: "graph_ok is_root E V" and inv: "sched_inv E V s" and step: "sys_step is_root work s s'"
  shows "sched_inv E V s'"
  using step
proof cases
  case (sys_step i d p w ws)
  note fin = graph_ok_def [THEN iffD1, OF g, THEN conjunct1]
  have ok: "pc_ok V (s_log s) (s_workers s ! i)" using inv sys_step(2) by (simp add: sched_inv_def Let_def)
  have V: "invalidID \<notin> V" "\<And>v. v \<in> V \<Longrightarrow> set (E v) \<subseteq> V" using g by (auto simp: graph_ok_def)
  note quiet = sched_quiet [OF inv sys_step(2,4)]
  show ?thesis
  proof (cases "s_workers s ! i")
    case (Work v)
    have v: "v \<in> V" using owned_ready(1) [OF fin inv sys_step(2)] Work by simp
    then have "d = s_dag s \<and> p = Consuming v (E v) 0 invalidID" using sys_step(3) inv Work by (auto simp: sched_inv_def Let_def degrees_ok_def)
    then show ?thesis using sched_work [OF fin inv sys_step(2,4) Work] V(2) [OF v] Work sys_step(1) by simp
  next
    case (Consuming vid es n nextID)
    show ?thesis
    proof (cases es)
      case Nil
      have eq: "s' = \<lparr>s_dag = d, s_workers = ws, s_data = s_data s, s_log = s_log s\<rparr>" using sys_step(1) Consuming by simp
      show ?thesis unfolding eq by (rule quiet) (use sys_step(3) Consuming Nil ok in \<open>auto simp: consume_done_def Let_def split: if_splits\<close>)
    next
      case (Cons k es')
      have eq: "s' = \<lparr>s_dag = d, s_workers = ws, s_data = s_data s, s_log = s_log s\<rparr>" using sys_step(1) Consuming by simp
      show ?thesis unfolding eq by (rule sched_edge [OF fin V(1) inv sys_step(2,4) Consuming [unfolded Cons]])
        (use sys_step(3) Consuming Cons in auto)
    qed
  next
    case Popping
    then show ?thesis using sys_step(1,3) log_ready(4) [OF fin inv] V(1)
      by (cases "d_topLevel (s_dag s)") (auto simp: waitPop_def Let_def split: if_splits intro!: quiet)
  next
    case (Returned vid nextID)
    have "valid_id nextID = {#}" if "is_root vid"
    proof -
      have "vid \<in> set (s_log s)" using ok Returned by simp
      then have "V \<subseteq> set (s_log s)" using root_last [OF g _ _ _ that] inv log_ready(2) [OF fin inv] by (auto simp: sched_inv_def Let_def)
      then show ?thesis using wsum_empty [OF all_logged(2) [OF fin inv]] nth_mem [OF sys_step(2)] Returned by force
    qed
    then show ?thesis using sys_step(1,3) Returned by (auto simp: valid_id_def split: if_splits intro!: quiet)
  qed (use sys_step(1,3) ok in \<open>auto simp: ac_simps intro!: quiet\<close>)
qed

lemma log_bound:
  assumes "graph_ok is_root E V" "sched_inv E V s"
  shows "length (s_log s) \<le> card V" "card V < 2 ^ 32"
proof -
  have fin: "finite V" using assms(1) by (simp add: graph_ok_def)
  have "card (set (s_log s)) \<le> card V" using log_ready(2) [OF fin assms(2)] fin by (rule card_mono [rotated])
  then show "length (s_log s) \<le> card V" using distinct_card [OF log_ready(3) [OF fin assms(2)]] by simp
qed (use assms(1) in \<open>simp add: graph_ok_def\<close>)

lemma counted:
  assumes "graph_ok is_root E V" "sched_inv E V s" "count_inv V s" "i < length (s_workers s)" "s_workers s ! i = Consuming vid es n nextID"
  shows "unat (d_totalConsumed (s_dag s) + 1) = unat (d_totalConsumed (s_dag s)) + 1" "unat (d_totalConsumed (s_dag s)) + 1 \<le> card V"
proof -
  have "1 \<le> wsum uncounted (s_workers s)" using wsum_update [OF assms(4), of uncounted Done] assms(5) by simp
  then show le: "unat (d_totalConsumed (s_dag s)) + 1 \<le> card V" using assms(3) log_bound(1) [OF assms(1,2)] by (simp add: count_inv_def)
  have "unat (d_totalConsumed (s_dag s)) + unat (1 :: u32) < 2 ^ LENGTH(32)" using le log_bound(2) [OF assms(1,2)] by simp
  then show "unat (d_totalConsumed (s_dag s) + 1) = unat (d_totalConsumed (s_dag s)) + 1" using unat_add_lem [THEN iffD1] by fastforce
qed

lemma count_step:
  assumes g: "graph_ok is_root E V" and inv: "sched_inv E V s" "count_inv V s" and step: "sys_step is_root work s s'"
  shows "count_inv V s'"
  using step
proof cases
  case (sys_step i d p w ws)
  have T: "wsum uncounted ws + uncounted (s_workers s ! i) = wsum uncounted (s_workers s) + uncounted p"
    using wsum_step [OF sys_step(2,4), of uncounted] by simp
  show ?thesis
  proof (cases "s_workers s ! i")
    case (Consuming vid es n nextID)
    then show ?thesis using sys_step(1,3) T inv(2) counted [OF g inv sys_step(2) Consuming]
      by (cases es) (auto simp: count_inv_def consume_done_def consume_edge_def Let_def split: if_splits)
  qed (use sys_step(1,3) T inv(2) in \<open>auto simp: count_inv_def waitPop_def Let_def split: if_splits\<close>)
qed

lemma woken_keeps: "woken w ws ws' \<Longrightarrow> q \<in> set ws \<Longrightarrow> q \<noteq> Waiting \<Longrightarrow> q \<in> set ws'"
proof (cases w)
  case Signal
  assume a: "woken w ws ws'" "q \<in> set ws" "q \<noteq> Waiting"
  then obtain i where i: "i < length ws" "ws ! i = q" by (auto simp: in_set_conv_nth)
  show ?thesis
  proof (cases "Waiting \<in> set ws")
    case True
    then obtain j where j: "j < length ws" "ws ! j = Waiting" "ws' = ws[j := Popping]" using a(1) Signal by auto
    then have "i \<noteq> j" using i a(3) by auto
    then have "ws' ! i = q" using i j by simp
    then show ?thesis using i(1) j(3) nth_mem by fastforce
  qed (use a Signal in simp)
qed auto

lemma woken_waiting: "woken w ws ws' \<Longrightarrow> Waiting \<in> set ws' \<Longrightarrow> w \<noteq> Broadcast \<and> Waiting \<in> set ws"
  using set_woken [of w ws ws' Waiting] by (cases w) auto

lemma updated_mem: "i < length ws \<Longrightarrow> p \<in> set (ws[i := p])" "b \<in> set ws \<Longrightarrow> b \<noteq> ws ! i \<Longrightarrow> b \<in> set (ws[i := p])"
proof -
  show "p \<in> set (ws[i := p])" if "i < length ws" using that by (rule set_update_memI)
  show "b \<in> set (ws[i := p])" if b: "b \<in> set ws" "b \<noteq> ws ! i"
  proof -
    obtain j where j: "j < length ws" "ws ! j = b" using b(1) by (auto simp: in_set_conv_nth)
    then have "ws[i := p] ! j = b" using b(2) by (cases "i = j") auto
    then show ?thesis using j(1) nth_mem by fastforce
  qed
qed

text \<open>When a worker stops, no vertex is left in the queue or all are counted.\<close>

lemma stops_finished:
  assumes g: "graph_ok is_root E V" and inv: "sched_inv E V s" and i: "i < length (s_workers s)"
    and step: "worker_step is_root (s_dag s) (s_workers s ! i) = Some (d, p, w)" and p: "\<not> active p"
  shows "d_topLevel d = [] \<or> hasFinished d" "p = Waiting \<longrightarrow> \<not> hasFinished d"
proof -
  have fin: "finite V" and V: "invalidID \<notin> V" using g by (simp_all add: graph_ok_def)
  have "(d_topLevel d = [] \<or> hasFinished d) \<and> (p = Waiting \<longrightarrow> \<not> hasFinished d)"
  proof (cases "s_workers s ! i")
    case (Returned vid nextID)
    have "d_topLevel (s_dag s) = []" if "is_root vid"
    proof -
      have "pc_ok V (s_log s) (s_workers s ! i)" using inv i by (simp add: sched_inv_def Let_def)
      then have "vid \<in> set (s_log s)" using Returned by simp
      then have "V \<subseteq> set (s_log s)" using root_last [OF g _ _ _ that] inv log_ready(2) [OF fin inv] by (auto simp: sched_inv_def Let_def)
      then show ?thesis by (rule all_logged(1) [OF fin inv])
    qed
    then show ?thesis using step p Returned by (auto split: if_splits)
  next
    case Popping
    then show ?thesis using step p log_ready(4) [OF fin inv] V by (cases "d_topLevel (s_dag s)") (auto simp: waitPop_def Let_def split: if_splits)
  next
    case (Consuming vid es n nextID)
    then show ?thesis using step p by (cases es) (auto simp: consume_done_def consume_edge_def Let_def split: if_splits)
  qed (use step p in \<open>auto split: if_splits\<close>)
  then show "d_topLevel d = [] \<or> hasFinished d" "p = Waiting \<longrightarrow> \<not> hasFinished d" by blast+
qed

lemma finishes_broadcasting:
  assumes g: "graph_ok is_root E V" and inv: "sched_inv E V s" "count_inv V s" and i: "i < length (s_workers s)"
    and step: "worker_step is_root (s_dag s) (s_workers s ! i) = Some (d, p, w)" and f: "hasFinished d" "\<not> hasFinished (s_dag s)"
  shows "is_Broadcasting p"
proof (cases "s_workers s ! i")
  case (Consuming vid es n nextID)
  have c: "d_totalVertexs (s_dag s) \<le> d_totalConsumed (s_dag s) + 1 \<Longrightarrow> d_totalConsumed (s_dag s) + 1 = d_totalVertexs (s_dag s)"
    using counted [OF g inv i Consuming] inv(2) by (simp add: count_inv_def word_le_nat_alt word_unat_eq_iff)
  then show ?thesis using step f Consuming by (cases es) (auto simp: hasFinished_def consume_done_def consume_edge_def Let_def split: if_splits)
qed (use step f in \<open>auto simp: hasFinished_def waitPop_def Let_def split: if_splits\<close>)

lemma wake_step:
  assumes g: "graph_ok is_root E V" and inv: "sched_inv E V s" "count_inv V s" "wake_inv s" and step: "sys_step is_root work s s'"
  shows "wake_inv s'"
  using step
proof cases
  case (sys_step i d p w ws)
  have p: "p \<in> set ws" if "p \<noteq> Waiting" using woken_keeps [OF sys_step(4)] updated_mem(1) [OF sys_step(2)] that by simp
  have "\<exists>q\<in>set ws. is_Broadcasting q" if fin: "hasFinished d" and wait: "Waiting \<in> set ws"
  proof (cases "hasFinished (s_dag s)")
    case True
    have "Waiting \<in> set ((s_workers s)[i := p])" "w \<noteq> Broadcast" using woken_waiting [OF sys_step(4) wait] by auto
    moreover have "p \<noteq> Waiting" using stops_finished(2) [OF g inv(1) sys_step(2,3)] fin by auto
    ultimately have "Waiting \<in> set (s_workers s)" using set_update_subset_insert [of "s_workers s" i p] by auto
    then obtain b where b: "b \<in> set (s_workers s)" "is_Broadcasting b" using inv(3) True by (auto simp: wake_inv_def)
    obtain vid nextID where B: "b = Broadcasting vid nextID" using is_Broadcasting.elims(2) [OF b(2)] .
    then have "b \<noteq> s_workers s ! i" using sys_step(3) \<open>w \<noteq> Broadcast\<close> by (metis prod.inject option.inject worker_step.simps(8))
    then have "b \<in> set ws" using woken_keeps [OF sys_step(4) updated_mem(2) [OF b(1)]] B by simp
    then show ?thesis using b(2) by blast
  next
    case False
    then have "is_Broadcasting p" using finishes_broadcasting [OF g inv(1,2) sys_step(2,3)] fin by simp
    moreover from this have "p \<in> set ws" using p by (cases "p = Waiting") simp_all
    ultimately show ?thesis by blast
  qed
  moreover have "\<exists>q\<in>set ws. active q" if "d_topLevel d \<noteq> []" "\<not> hasFinished d"
  proof -
    have "active p" using stops_finished(1) [OF g inv(1) sys_step(2,3)] that by blast
    moreover from this have "p \<in> set ws" using p by (cases "p = Waiting") simp_all
    ultimately show ?thesis by blast
  qed
  ultimately show ?thesis using sys_step(1) by (auto simp: wake_inv_def)
qed

section \<open>Progress\<close>

lemma woken_exists: "\<exists>ws'. woken w ws ws'"
  by (cases w) (auto simp: in_set_conv_nth)

lemma active_moves:
  assumes g: "graph_ok is_root E V" and inv: "sched_inv E V s" and i: "i < length (s_workers s)" "active (s_workers s ! i)"
  shows "\<exists>s'. sys_step is_root work s s'"
proof -
  have fin: "finite V" using g by (simp add: graph_ok_def)
  have deg: "\<And>v. v \<in> V \<Longrightarrow> \<exists>x. gget (d_vtxs (s_dag s)) v = Some x" using inv by (auto simp: sched_inv_def Let_def degrees_ok_def)
  have ok: "pc_ok V (s_log s) (s_workers s ! i)" using inv i(1) by (simp add: sched_inv_def Let_def)
  have "worker_step is_root (s_dag s) (s_workers s ! i) \<noteq> None"
  proof (cases "s_workers s ! i")
    case (Work v)
    then show ?thesis using deg [OF owned_ready(1) [OF fin inv i(1)]] by auto
  next
    case (Consuming vid es n nextID)
    then show ?thesis using ok deg by (cases es) (auto simp: consume_edge_def)
  qed (use i(2) in auto)
  then obtain d p w where st: "worker_step is_root (s_dag s) (s_workers s ! i) = Some (d, p, w)" by auto
  obtain ws where "woken w ((s_workers s)[i := p]) ws" using woken_exists by blast
  then show ?thesis using sys_step.intros [OF i(1) st] by blast
qed

lemma idle_sums:
  assumes "\<forall>p\<in>set ws. \<not> active p"
  shows "wsum uncounted ws = 0" "wsum consuming ws = {#}" "wsum owned ws = {#}"
proof -
  have "uncounted p = 0 \<and> consuming p = {#} \<and> owned p = {#}" if "\<not> active p" for p using that by (cases p) auto
  then show "wsum uncounted ws = 0" "wsum consuming ws = {#}" "wsum owned ws = {#}" using assms by (induction ws) auto
qed

text \<open>While vertices are left and no worker moves, a vertex is in the queue.\<close>

lemma idle_queue:
  assumes g: "graph_ok is_root E V" and inv: "sched_inv E V s" and idle: "\<forall>p\<in>set (s_workers s). \<not> active p" and left: "\<not> V \<subseteq> set (s_log s)"
  shows "d_topLevel (s_dag s) \<noteq> []"
proof -
  have fin: "finite V" using g by (simp add: graph_ok_def)
  obtain x where "x \<in> V - set (s_log s)" using left by auto
  then obtain v where v: "v \<in> V - set (s_log s)" "\<And>y. (y, v) \<in> edge_rel E V \<Longrightarrow> y \<notin> V - set (s_log s)"
    using wfE_min [OF graph_wf(1) [OF g]] by metis
  have "count (mset (E u)) v = 0" if "u \<in> V - set (s_log s)" for u using v(2) [of u] that by (auto simp: edge_rel_def count_eq_zero_iff)
  then have "count (pending E V (s_log s) (s_workers s)) v = 0" by (simp add: pending_def idle_sums(2) [OF idle] count_sum)
  then have "v \<in># ready V (pending E V (s_log s) (s_workers s))" using mem_ready [OF fin] v(1) by simp
  then have "v \<in># mset (s_log s) + mset (d_topLevel (s_dag s)) + wsum owned (s_workers s)" using inv by (simp add: sched_inv_def Let_def)
  then show ?thesis using v(1) by (auto simp: idle_sums(3) [OF idle])
qed

lemma stuck_finished:
  assumes g: "graph_ok is_root E V" and inv: "sched_inv E V s" "count_inv V s" "wake_inv s" and stuck: "\<forall>s'. \<not> sys_step is_root work s s'"
  shows "set (s_workers s) \<subseteq> {Done}" "set (s_log s) = V"
proof -
  have idle: "\<forall>p\<in>set (s_workers s). \<not> active p"
  proof
    fix p assume "p \<in> set (s_workers s)"
    then obtain i where "i < length (s_workers s)" "s_workers s ! i = p" by (auto simp: in_set_conv_nth)
    then show "\<not> active p" using active_moves [OF g inv(1), of i work] stuck by blast
  qed
  have fin: "finite V" using g by (simp add: graph_ok_def)
  have c: "unat (d_totalConsumed (s_dag s)) = length (s_log s)" "unat (d_totalVertexs (s_dag s)) = card V"
    using inv(2) idle_sums(1) [OF idle] by (simp_all add: count_inv_def)
  have "V \<subseteq> set (s_log s)"
  proof (rule ccontr)
    assume left: "\<not> V \<subseteq> set (s_log s)"
    then have "set (s_log s) \<subset> V" using log_ready(2) [OF fin inv(1)] by blast
    then have "card (set (s_log s)) < card V" by (rule psubset_card_mono [OF fin])
    then have "\<not> hasFinished (s_dag s)" using c distinct_card [OF log_ready(3) [OF fin inv(1)]] by (simp add: hasFinished_def word_le_nat_alt)
    then show False using idle_queue [OF g inv(1) idle left] inv(3) idle by (auto simp: wake_inv_def)
  qed
  then show V: "set (s_log s) = V" using log_ready(2) [OF fin inv(1)] by blast
  then have "hasFinished (s_dag s)" using c distinct_card [OF log_ready(3) [OF fin inv(1)]] by (simp add: hasFinished_def word_le_nat_alt)
  moreover have "\<not> is_Broadcasting p" if "p \<in> set (s_workers s)" for p using idle that by (cases p rule: is_Broadcasting.cases) auto
  ultimately have "Waiting \<notin> set (s_workers s)" using inv(3) by (auto simp: wake_inv_def)
  moreover have "p = Waiting \<or> p = Done" if "p \<in> set (s_workers s)" for p using idle that by (cases p rule: active.cases) auto
  ultimately show "set (s_workers s) \<subseteq> {Done}" by blast
qed

section \<open>Termination\<close>

fun weight :: "nat \<Rightarrow> pc \<Rightarrow> nat" where
  "weight n Enter = 3"
| "weight n Popping = 2"
| "weight n Waiting = 1"
| "weight n (Work _) = 11"
| "weight n (Consuming _ _ _ nextID) = n + 6 + 8 * size (valid_id nextID)"
| "weight n (Pushing _ _ _ _ nextID) = n + 18 + 8 * size (valid_id nextID)"
| "weight n (Broadcasting _ nextID) = n + 5 + 8 * size (valid_id nextID)"
| "weight n (Returned _ nextID) = 4 + 8 * size (valid_id nextID)"
| "weight n Done = 0"

definition remaining_work :: "(u64 \<Rightarrow> u64 list) \<Rightarrow> u64 set \<Rightarrow> 'a sys \<Rightarrow> nat" where
  "remaining_work E V s = (let n = length (s_workers s) in
     n * (card V - length (s_log s)) + 13 * size (pending E V (s_log s) (s_workers s)) + 10 * length (d_topLevel (s_dag s)) + wsum (weight n) (s_workers s))"

lemma length_woken: "woken w ws ws' \<Longrightarrow> length ws' = length ws"
  by (cases w) (auto split: if_splits)

lemma weight_woken:
  assumes "woken w ws ws'"
  shows "wsum (weight n) ws' \<le> wsum (weight n) ws + (case w of Quiet \<Rightarrow> 0 | Signal \<Rightarrow> 1 | Broadcast \<Rightarrow> length ws)"
proof (cases w)
  case Signal
  show ?thesis
  proof (cases "Waiting \<in> set ws")
    case True
    then obtain j where j: "j < length ws" "ws ! j = Waiting" "ws' = ws[j := Popping]" using assms Signal by auto
    then show ?thesis using wsum_update [of j ws "weight n" Popping] Signal by simp
  qed (use assms Signal in simp)
next
  case Broadcast
  have "wsum (weight n) (map (\<lambda>p. if p = Waiting then Popping else p) ws) \<le> wsum (weight n) ws + length ws" by (induction ws) auto
  then show ?thesis using assms Broadcast by (simp only: woken.simps wake.case)
qed (use assms in simp)

lemma weight_step:
  assumes "i < length ws" "woken w (ws[i := p]) ws'"
  shows "wsum (weight n) ws' + weight n (ws ! i) \<le> wsum (weight n) ws + weight n p + (case w of Quiet \<Rightarrow> 0 | Signal \<Rightarrow> 1 | Broadcast \<Rightarrow> length ws)"
  using weight_woken [OF assms(2), of n] wsum_update [OF assms(1), of "weight n" p] unfolding length_list_update by linarith

lemma step_decreases:
  assumes g: "graph_ok is_root E V" and inv: "sched_inv E V s" and step: "sys_step is_root work s s'"
  shows "remaining_work E V s' < remaining_work E V s"
  using step
proof cases
  case (sys_step i d p w ws)
  let ?n = "length (s_workers s)" and ?q = "s_workers s ! i"
  have fin: "finite V" using g by (simp add: graph_ok_def)
  have n: "length ws = ?n" using length_woken [OF sys_step(4)] by simp
  have W: "wsum (weight ?n) ws + weight ?n ?q \<le> wsum (weight ?n) (s_workers s) + weight ?n p + (case w of Quiet \<Rightarrow> 0 | Signal \<Rightarrow> 1 | Broadcast \<Rightarrow> ?n)"
    by (rule weight_step [OF sys_step(2,4)])
  have P: "size (pending E V (s_log s) ws) + size (consuming ?q) = size (pending E V (s_log s) (s_workers s)) + size (consuming p)"
    using arg_cong [OF pending_step [OF sys_step(2,4), of E V "s_log s"], of size] by simp
  show ?thesis
  proof (cases ?q)
    case (Work v)
    have v: "v \<in> V" "v \<notin> set (s_log s)" using owned_ready [OF fin inv sys_step(2)] Work by simp_all
    then have dp: "d = s_dag s" "p = Consuming v (E v) 0 invalidID" "w = Quiet"
      using sys_step(3) inv Work by (auto simp: sched_inv_def Let_def degrees_ok_def)
    have "insert v (set (s_log s)) \<subseteq> V" using v(1) log_ready(2) [OF fin inv] by simp
    then have "card (insert v (set (s_log s))) \<le> card V" by (rule card_mono [OF fin])
    then have "length (s_log s) < card V" using v(2) distinct_card [OF log_ready(3) [OF fin inv]] by simp
    then have "?n * (card V - length (s_log s)) = ?n + ?n * (card V - Suc (length (s_log s)))" by (simp add: Suc_diff_Suc flip: mult_Suc_right)
    then show ?thesis using W pending_work [OF fin v sys_step(2) Work, of w E ws] sys_step(1,4) Work n dp
      by (simp add: remaining_work_def Let_def valid_id_def)
  next
    case (Consuming vid es m nextID)
    then have ok: "nextID = invalidID \<longleftrightarrow> m = 0" using inv nth_mem [OF sys_step(2)] by (fastforce simp: sched_inv_def Let_def)
    show ?thesis
    proof (cases es)
      case Nil
      then show ?thesis using W P sys_step(1,3) Consuming n by (auto simp: remaining_work_def Let_def consume_done_def split: if_splits)
    next
      case (Cons k es')
      have p: "p = Consuming vid es' (m + 1) k \<and> m = 0 \<or> p = Pushing vid k es' (m + 1) nextID \<or> p = Consuming vid es' m nextID"
        "d_topLevel d = d_topLevel (s_dag s)" "w = Quiet"
        using sys_step(3) Consuming Cons by (auto simp: consume_edge_def Let_def split: if_splits)
      then have "size (pending E V (s_log s) ws) + 1 = size (pending E V (s_log s) (s_workers s))" using P Consuming Cons by auto
      moreover have "weight ?n p \<le> weight ?n ?q + 12" using p(1) ok Consuming by (auto simp: valid_id_def)
      ultimately show ?thesis using W p(2,3) sys_step(1) Consuming n by (simp add: remaining_work_def Let_def)
    qed
  next
    case Popping
    then show ?thesis using W P sys_step(1,3) n
      by (cases "d_topLevel (s_dag s)") (auto simp: remaining_work_def Let_def waitPop_def split: if_splits)
  qed (use W P sys_step(1,3) n in \<open>auto simp: remaining_work_def Let_def valid_id_def split: if_splits\<close>)
qed

section \<open>Building the graph\<close>

text \<open>A graph between two runs: nothing is queued or counted.\<close>

definition dag_edges :: "dag \<Rightarrow> u64 \<Rightarrow> u64 list" where
  "dag_edges d v = (case gget (d_vtxs d) v of None \<Rightarrow> [] | Some x \<Rightarrow> v_outEdge x)"

definition dag_idle :: "dag \<Rightarrow> bool" where
  "dag_idle d \<longleftrightarrow> gwf (d_vtxs d) \<and> (\<forall>v x. gget (d_vtxs d) v = Some x \<longrightarrow> v_inDegree x = 0) \<and> d_topLevel d = [] \<and> d_totalConsumed d = 0
     \<and> d_totalVertexs d = word_of_nat (length (d_vtxs d))"

lemma dag_idle_new: "dag_idle newDag"
  by (simp add: dag_idle_def newDag_def gwf_def gget_def)

lemma length_gset_new: "gget m k = None \<Longrightarrow> length (gset k v m) = length m + 1"
  unfolding gset_def gget_def by (induction m) auto

lemma length_gset_old: "gget m k \<noteq> None \<Longrightarrow> length (gset k v m) = length m"
  unfolding gset_def gget_def by (induction m) auto

lemma length_gdel:
  assumes "gwf m" "gget m k \<noteq> None"
  shows "length m = length (gdel k m) + 1"
proof -
  have "dom (gget (gdel k m)) = dom (gget m) - {k}" by (auto simp: gget_gdel split: if_splits)
  moreover have "Suc (card (dom (gget m) - {k})) = card (dom (gget m))"
  proof (rule card_Suc_Diff1)
    show "finite (dom (gget m))" by (simp add: dom_gget)
    show "k \<in> dom (gget m)" using assms(2) by (simp add: domIff)
  qed
  ultimately show ?thesis using length_gomap [OF assms(1)] length_gomap [OF gwf_gdel [OF assms(1)], of k] by simp
qed

lemma dag_idle_addVertex: "dag_idle d \<Longrightarrow> dag_idle (addVertex vid d)"
  by (auto simp: dag_idle_def addVertex_def gwf_gset gget_gset length_gset_new)

lemma dag_idle_delVertex: "dag_idle d \<Longrightarrow> dag_idle (delVertex vid d)"
  using length_gdel [of "d_vtxs d" vid] by (auto simp: dag_idle_def delVertex_def gwf_gdel gget_gdel split: if_splits)

lemma dag_idle_addEdge: "dag_idle d \<Longrightarrow> dag_idle (addEdge src dst d)"
  using dag_idle_addVertex [of d src]
  by (auto simp: addEdge_def Let_def dag_idle_def gwf_gset gget_gset length_gset_old split: option.splits)

lemma dag_idle_clear: "dag_idle (dag_clear d)"
  by (simp add: dag_idle_def dag_clear_def gwf_def gget_def)

lemma inc_degrees:
  assumes "set L \<subseteq> gkeys m" "gwf m"
  shows "\<exists>m'. go_fold inc_degree L m = Inr m' \<and> gwf m' \<and> gkeys m' = gkeys m
    \<and> (\<forall>v x. gget m v = Some x \<longrightarrow> gget m' v = Some (x\<lparr>v_inDegree := v_inDegree x + word_of_nat (count (mset L) v)\<rparr>))"
  using assms
proof (induction L arbitrary: m)
  case (Cons k L)
  obtain y where y: "gget m k = Some y" using Cons.prems(1) gget_None_iff [of m k] by (cases "gget m k") auto
  let ?m = "gset k (y\<lparr>v_inDegree := v_inDegree y + 1\<rparr>) m"
  have dom: "dom (gget ?m) = dom (gget m)" using y by (auto simp: gget_gset split: if_splits)
  then have keys: "gkeys ?m = gkeys m" by (simp add: dom_gget)
  obtain m' where m': "go_fold inc_degree L ?m = Inr m'" "gwf m'" "gkeys m' = gkeys m"
    "\<And>v x. gget ?m v = Some x \<Longrightarrow> gget m' v = Some (x\<lparr>v_inDegree := v_inDegree x + word_of_nat (count (mset L) v)\<rparr>)"
    using Cons.IH [of ?m] Cons.prems gwf_gset [OF Cons.prems(2)] keys by auto
  have "gget m' v = Some (x\<lparr>v_inDegree := v_inDegree x + word_of_nat (count (mset (k # L)) v)\<rparr>)" if "gget m v = Some x" for v x
    using m'(4) [of v] that y by (cases "v = k") (auto simp: gget_gset ac_simps)
  moreover have "go_fold inc_degree (k # L) m = Inr m'" using m'(1) y by (simp add: inc_degree_def [of k])
  ultimately show ?case using m'(2,3) by blast
qed auto

lemma mset_all_edges:
  assumes "gwf m"
  shows "mset (concat (map (\<lambda>(vid, v). v_outEdge v) m)) = (\<Sum>v\<in>gkeys m. mset (case gget m v of None \<Rightarrow> [] | Some x \<Rightarrow> v_outEdge x))"
proof -
  have "map (\<lambda>v. mset (case gget m v of None \<Rightarrow> [] | Some x \<Rightarrow> v_outEdge x)) (map fst m) = map (\<lambda>(vid, v). mset (v_outEdge v)) m"
    using gget_if_in_set [OF assms] by auto
  moreover have "(\<Sum>v\<in>gkeys m. mset (case gget m v of None \<Rightarrow> [] | Some x \<Rightarrow> v_outEdge x))
    = sum_list (map (\<lambda>v. mset (case gget m v of None \<Rightarrow> [] | Some x \<Rightarrow> v_outEdge x)) (map fst m))"
    using sum.distinct_set_conv_list [of "map fst m"] assms by (simp add: gwf_def)
  moreover have "mset (concat (map (\<lambda>(vid, v). v_outEdge v) m)) = sum_list (map (\<lambda>(vid, v). mset (v_outEdge v)) m)"
    by (induction m) auto
  ultimately show ?thesis by (simp only:)
qed

lemma sum_list_zeros: "sum_list (replicate n (0 :: 'b::comm_monoid_add)) = 0"
  by (induction n) auto

text \<open>\<open>generate\<close> sets the in-degrees and queues the leaves.\<close>

lemma generate_inv:
  assumes idle: "dag_idle d" and g: "graph_ok is_root (dag_edges d) (gkeys (d_vtxs d))"
    and small: "length (concat (map (\<lambda>(vid, v). v_outEdge v) (d_vtxs d))) < 2 ^ 32" and order: "mset order = mset (map fst (d_vtxs d))" and n: "0 < n"
  shows "\<exists>d'. generate order d = Inr d' \<and> sched_inv (dag_edges d) (gkeys (d_vtxs d)) (start n x d')
    \<and> count_inv (gkeys (d_vtxs d)) (start n x d') \<and> wake_inv (start n x d')"
proof -
  let ?m = "d_vtxs d" and ?V = "gkeys (d_vtxs d)" and ?E = "dag_edges d"
  let ?L = "concat (map (\<lambda>(vid, v). v_outEdge v) ?m)"
  have wf: "gwf ?m" using idle by (simp add: dag_idle_def)
  have P: "mset ?L = pending ?E ?V [] (replicate n Enter)" using mset_all_edges [OF wf] by (simp add: pending_def dag_edges_def sum_list_zeros)
  have "set ?L \<subseteq> ?V"
  proof
    fix k assume "k \<in> set ?L"
    then obtain v y where "(v, y) \<in> set ?m" "k \<in> set (v_outEdge y)" by auto
    then have "k \<in> set (?E v)" "v \<in> ?V" using gget_if_in_set [OF wf, of v y] by (auto simp: dag_edges_def image_iff intro: bexI [of _ "(v, y)"])
    then show "k \<in> ?V" using g by (auto simp: graph_ok_def)
  qed
  then obtain m' where m': "go_fold inc_degree ?L ?m = Inr m'" "gkeys m' = ?V"
    "\<And>v y. gget ?m v = Some y \<Longrightarrow> gget m' v = Some (y\<lparr>v_inDegree := v_inDegree y + word_of_nat (count (mset ?L) v)\<rparr>)"
    using inc_degrees [OF _ wf] by blast
  let ?d = "d\<lparr>d_vtxs := m', d_topLevel := filter (\<lambda>vid. in_degree m' vid = 0) order\<rparr>"
  have gen: "generate order d = Inr ?d" using m'(1) idle by (simp add: generate_def dag_idle_def)
  have deg: "\<exists>y. gget m' v = Some y \<and> v_outEdge y = ?E v \<and> unat (v_inDegree y) = count (mset ?L) v" if v: "v \<in> ?V" for v
  proof -
    obtain y where y: "gget ?m v = Some y" using v gget_None_iff [of ?m v] by (cases "gget ?m v") auto
    have "count (mset ?L) v < 2 ^ 32" using small count_le_size [of "mset ?L" v] by (simp only: size_mset)
    then show ?thesis using m'(3) [OF y] y idle by (simp add: dag_edges_def dag_idle_def unat_of_nat take_bit_eq_mod)
  qed
  have "mset (filter (\<lambda>vid. in_degree m' vid = 0) order) = filter_mset (\<lambda>vid. in_degree m' vid = 0) (mset_set ?V)"
    using order mset_set_set [of "map fst ?m"] wf by (simp add: gwf_def)
  also have "\<dots> = ready ?V (mset ?L)" unfolding ready_def filter_mset_mset_set [OF finite_imageI [OF finite_set]]
  proof (intro arg_cong [of _ _ mset_set] Collect_cong conj_cong refl)
    fix v assume "v \<in> ?V"
    then obtain y where "gget m' v = Some y" "unat (v_inDegree y) = count (mset ?L) v" using deg by blast
    then show "in_degree m' v = 0 \<longleftrightarrow> count (mset ?L) v = 0" using unat_eq_0 [of "v_inDegree y"] by (simp only: in_degree_def option.case)
  qed
  finally have ready: "mset (filter (\<lambda>vid. in_degree m' vid = 0) order) = ready ?V (mset ?L)" .
  have s: "sched_inv ?E ?V (start n x ?d)"
    using deg ready by (simp add: sched_inv_def start_def Let_def P [symmetric] degrees_ok_def sum_list_zeros topological_def)
  moreover have "count_inv ?V (start n x ?d)" using idle g length_gomap [OF wf] dom_gget [of ?m]
    by (simp add: count_inv_def start_def dag_idle_def sum_list_zeros unat_of_nat take_bit_eq_mod graph_ok_def)
  moreover have "wake_inv (start n x ?d)" using n by (auto simp: wake_inv_def start_def)
  ultimately show ?thesis using gen by blast
qed

definition run_inv :: "(u64 \<Rightarrow> 'a \<Rightarrow> 'a) \<Rightarrow> 'a \<Rightarrow> (u64 \<Rightarrow> u64 list) \<Rightarrow> u64 set \<Rightarrow> 'a sys \<Rightarrow> bool" where
  "run_inv work x E V s \<longleftrightarrow> sched_inv E V s \<and> count_inv V s \<and> wake_inv s \<and> s_data s = fold work (s_log s) x"

lemma run_step:
  assumes "graph_ok is_root E V" "run_inv work x E V s" "sys_step is_root work s s'"
  shows "run_inv work x E V s'"
proof -
  have "s_data s' = fold work (s_log s') x" using assms(3,2) by cases (simp add: run_inv_def)
  then show ?thesis using assms sched_step count_step wake_step unfolding run_inv_def by metis
qed

lemma run_reachable:
  assumes "graph_ok is_root E V" "run_inv work x E V s" "rtranclp (sys_step is_root work) s s'"
  shows "run_inv work x E V s'"
  using assms(3,2) by (induction rule: rtranclp_induct) (auto intro: run_step [OF assms(1)])

lemma run_terminates:
  assumes g: "graph_ok is_root E V" and inv: "run_inv work x E V (f 0)" and steps: "\<And>i. sys_step is_root work (f i) (f (Suc i))"
  shows False
proof -
  have i: "run_inv work x E V (f i)" for i by (induction i) (use inv run_step [OF g _ steps] in auto)
  have "remaining_work E V (f i) + i \<le> remaining_work E V (f 0)" for i
  proof (induction i)
    case (Suc i)
    have "remaining_work E V (f (Suc i)) < remaining_work E V (f i)" using step_decreases [OF g _ steps] i [of i] by (simp add: run_inv_def)
    then show ?case using Suc.IH by simp
  qed simp
  from this [of "Suc (remaining_work E V (f 0))"] show False by simp
qed

section \<open>Example\<close>

definition dag_example :: dag where
  "dag_example = addEdge 2 3 (addEdge 1 3 (addVertex 3 (addVertex 2 (addVertex 1 newDag))))"

lemma dag_example_vtxs:
  "d_vtxs dag_example = [(1, \<lparr>v_inDegree = 0, v_outEdge = [3]\<rparr>), (2, \<lparr>v_inDegree = 0, v_outEdge = [3]\<rparr>), (3, \<lparr>v_inDegree = 0, v_outEdge = []\<rparr>)]"
  by code_simp

lemma dag_example_idle: "dag_idle dag_example"
  unfolding dag_example_def by (intro dag_idle_addEdge dag_idle_addVertex dag_idle_new)

lemma dag_example_graph: "graph_ok (\<lambda>v. v = 3) (dag_edges dag_example) (gkeys (d_vtxs dag_example))"
proof -
  have "acyclic {(u :: u64, v). u \<in> {1, 2, 3} \<and> v \<in> set (dag_edges dag_example u)}"
    by (rule acyclic_subset [OF wf_acyclic [OF wf_measure [of unat]]]) (auto simp: dag_edges_def dag_example_vtxs gget_def split: if_splits)
  then show ?thesis by (simp add: graph_ok_def dag_example_vtxs invalidID_def) (simp add: dag_edges_def dag_example_vtxs gget_def)
qed

section \<open>Properties\<close>

text \<open>C11: Parallel hashing always completes.  After \<open>generate\<close> on an acyclic graph whose root is its only sink, any number of
  workers in any interleaving stop after finitely many steps, and when none can move all have
  returned, no one is left in \<open>cv.Wait\<close>, and every vertex was worked on exactly once, children before parents.\<close>

theorem parallel_run_completes:
  assumes "dag_idle d" "graph_ok is_root (dag_edges d) (gkeys (d_vtxs d))"
    and "length (concat (map (\<lambda>(vid, v). v_outEdge v) (d_vtxs d))) < 2 ^ 32" "mset order = mset (map fst (d_vtxs d))" "0 < numCPU"
  shows "\<exists>d'. generate order d = Inr d'
    \<and> (\<nexists>f. f 0 = start numCPU x d' \<and> (\<forall>i. sys_step is_root work (f i) (f (Suc i))))
    \<and> (\<forall>s. rtranclp (sys_step is_root work) (start numCPU x d') s \<and> (\<forall>s'. \<not> sys_step is_root work s s') \<longrightarrow>
        set (s_workers s) \<subseteq> {Done} \<and> distinct (s_log s) \<and> set (s_log s) = gkeys (d_vtxs d)
        \<and> topological (dag_edges d) (gkeys (d_vtxs d)) (s_log s) \<and> s_data s = fold work (s_log s) x)"
proof -
  let ?E = "dag_edges d" and ?V = "gkeys (d_vtxs d)"
  have fin: "finite ?V" by simp
  obtain d' where d': "generate order d = Inr d'" "run_inv work x ?E ?V (start numCPU x d')"
    using generate_inv [OF assms, of x] by (auto simp: run_inv_def start_def)
  have "False" if "f 0 = start numCPU x d'" "\<forall>i. sys_step is_root work (f i) (f (Suc i))" for f
    using run_terminates [OF assms(2), of work x f] d'(2) that by simp
  moreover have "set (s_workers s) \<subseteq> {Done} \<and> distinct (s_log s) \<and> set (s_log s) = ?V \<and> topological ?E ?V (s_log s) \<and> s_data s = fold work (s_log s) x"
    if "rtranclp (sys_step is_root work) (start numCPU x d') s" "\<forall>s'. \<not> sys_step is_root work s s'" for s
  proof -
    have inv: "sched_inv ?E ?V s" "count_inv ?V s" "wake_inv s" "s_data s = fold work (s_log s) x"
      using run_reachable [OF assms(2) d'(2) that(1)] by (simp_all add: run_inv_def)
    then show ?thesis using stuck_finished [OF assms(2) inv(1-3) that(2)] log_ready(3) [OF fin inv(1)] by (simp add: sched_inv_def Let_def)
  qed
  ultimately show ?thesis using d'(1) by blast
qed

theorem parallel_run_completes_witness:
  "\<exists>d'. generate [3, 1, 2] dag_example = Inr d'
    \<and> (\<nexists>f. f 0 = start 2 [] d' \<and> (\<forall>i. sys_step (\<lambda>v. v = 3) (\<lambda>v xs. xs @ [v]) (f i) (f (Suc i))))
    \<and> (\<forall>s. rtranclp (sys_step (\<lambda>v. v = 3) (\<lambda>v xs. xs @ [v])) (start 2 [] d') s \<and> (\<forall>s'. \<not> sys_step (\<lambda>v. v = 3) (\<lambda>v xs. xs @ [v]) s s') \<longrightarrow>
        set (s_workers s) \<subseteq> {Done} \<and> distinct (s_log s) \<and> set (s_log s) = gkeys (d_vtxs dag_example)
        \<and> topological (dag_edges dag_example) (gkeys (d_vtxs dag_example)) (s_log s) \<and> s_data s = fold (\<lambda>v xs. xs @ [v]) (s_log s) [])"
  by (rule parallel_run_completes [OF dag_example_idle dag_example_graph]) (simp_all add: dag_example_vtxs)

end
