(* ===== verification/Spec2Isabelle.thy ===== *)
theory Spec2Isabelle
  imports Bit_Array Rlp Codec QuorumCert Protocols Block_Tree ViewState Validators Rules MsgPool Evidence Certificates Engine Sync
    Dispatch Traces Hex_Keys Patricia_Trie Trie_Node Trie_Database Trie_Hash Trie_Proof Trie_Dag
begin

text \<open>
  Verification of the PBFT consensus of Phoenix-Chain-Core (\<open>src/consensus/pbft\<close>) and of the Merkle Patricia tries that
  hold the state its blocks commit to (\<open>src/ethereum/trie\<close>).

  \<^bold>\<open>The program.\<close>  Validators agree on a chain of blocks.  In a view one validator proposes a block, the
  others execute it and broadcast a prepare vote; a threshold of votes makes a prepare certificate, which is
  answered with a pre-commit; a threshold of pre-commits makes the certificate with which the block enters the block
  tree, and the parent of a certified block is committed.  A view that does not succeed ends by a timer
  and a certificate of view changes.  All of this runs on one goroutine, fed by bounded channels.  A block names
  its state by the root hash of a trie: a radix tree over key nibbles whose nodes are loaded from a database on demand, hashed
  bottom-up, and written back on commit; light clients check single entries against a root by Merkle proofs.

  \<^bold>\<open>Theories\<close> (the code is under \<open>src/\<close>):

  \<^item> \<open>Prelude\<close>: integers at their width, Go panics as the left of a sum, Go maps as association lists,
    \<open>go_post\<close> (what holds of a call that returns) and its rules.
  \<^item> \<open>Bit_Array\<close> (\<open>consensus/pbft/utils/bit_array.go\<close>): the signer sets of certificates.
  \<^item> \<open>Rlp\<close> (\<open>libs/rlp/encode.go\<close>, \<open>raw.go\<close>) and \<open>Codec\<close> (\<open>types/codec.go\<close>): the buffered encoder behind all
    digests, splitting of encoded input, the extra data of a block.
  \<^item> \<open>QuorumCert\<close> (\<open>types/crypto.go\<close>, \<open>step.go\<close>), \<open>Protocols\<close> (\<open>protocols/*.go\<close>): certificates, messages, their
    digests and hashes; the arithmetic of quorums is the locale \<open>quorum_system\<close> interpreted on \<open>threshold\<close>.
  \<^item> \<open>Block_Tree\<close> (\<open>types/block_tree.go\<close>): nodes with parent and child pointers as a heap.
  \<^item> \<open>ViewState\<close> (\<open>state/state.go\<close>, \<open>timer.go\<close>): what a validator knows of its view, and the view timer.
  \<^item> \<open>Validators\<close> (\<open>validator/validator.go\<close>, \<open>core/types/pbfttypes/type.go\<close>): validator sets, the pool that
    switches them at epoch ends, the agencies that supply them.
  \<^item> \<open>Rules\<close> (\<open>rules/*.go\<close>), \<open>MsgPool\<close> (\<open>types/cache.go\<close>, \<open>message.go\<close>), \<open>Evidence\<close> (\<open>evidence/*.go\<close>): which
    messages are accepted and voted for, the cache of future messages, the detection of double signing.
  \<^item> \<open>Certificates\<close> (\<open>pbft.go\<close>): aggregation of votes into certificates and their verification.
  \<^item> \<open>Engine\<close> (\<open>consensus_process.go\<close>), \<open>Sync\<close> (\<open>sync_process.go\<close>, \<open>fetcher/fetcher.go\<close>), \<open>Dispatch\<close>
    (\<open>pbft.go\<close>): one definition per handler, on the record \<open>engine\<close> that holds the components of the struct
    \<open>Pbft\<close>; \<open>step\<close> is one turn of \<open>receiveLoop\<close>, \<open>run\<close> a sequence of turns, \<open>inbox_step\<close> adds the channels.
  \<^item> \<open>Traces\<close>: invariants of all runs, proved once for every handler in the locale \<open>engine_invariant\<close> and
    obtained for each invariant by an interpretation.
  \<^item> \<open>Hex_Keys\<close> (\<open>ethereum/trie/encoding.go\<close>): the nibble and compact forms of keys.
  \<^item> \<open>Patricia_Trie\<close> (\<open>trie.go\<close>, \<open>node.go\<close>, \<open>errors.go\<close>): lookup, insertion and deletion on partly loaded nodes;
    \<open>rep\<close> relates a node to the abstract trie it stands for, whose \<open>content\<close> is a map.
  \<^item> \<open>Trie_Node\<close> (\<open>node.go\<close>): the encoding of nodes and the decoder.
  \<^item> \<open>Trie_Database\<close> (\<open>database.go\<close>): the cache of dirty nodes, node lookup, preimages.
  \<^item> \<open>Trie_Hash\<close> (\<open>hasher.go\<close>, \<open>trie.go\<close>): root hash, commit, reopening and copying of tries.
  \<^item> \<open>Trie_Proof\<close> (\<open>proof.go\<close>): construction and verification of Merkle proofs.
  \<^item> \<open>Trie_Dag\<close> (\<open>dag.go\<close>, the workers of \<open>trie_dag.go\<close>): the scheduler of parallel hashing as a transition system.

  \<^bold>\<open>What is shown.\<close>  Component theories prove a well-formedness invariant that every operation keeps, the
  behaviour of each operation on every branch including errors and panics, and refinements to short
  specifications (the encoder to the recursive RLP encoding, signer sets to finite sets, duplicate detection to the
  first message of a slot).  The engine theories prove that a run never votes twice for a slot, pre-commits
  only with a certificate, commits blocks in order and without gaps, and that queues stay bounded.  This theory
  joins them: certificates of one slot name one block (\<open>view_agreement\<close>).  A trie refines a map under every
  sequence of operations, its root hash is a function of the map and determines it, the decoder is total
  and returns well-formed nodes, a verified Merkle proof is right, and parallel hashing always completes.

  \<^bold>\<open>Parameters and bounds.\<close>  BLS, keccak, the staking agency, block execution, the header check, the clock and the
  database faults are arguments (records \<open>bls\<close>, \<open>env\<close>); what is assumed of them is a hypothesis of the theorem, met
  by the instance of its witness.  Fuel appears only in loops over the tree and over raw RLP input; each has a theorem that the
  fuel given by the model is enough, and \<open>PruneBlock\<close> out of fuel is a panic of its own that does not occur in a
  well-formed tree.  The trie operations recurse through the database, so they are partial functions, and the theorems
  show that they return.  Keys and values are assumed below \<open>2 ^ 30\<close> and \<open>2 ^ 32\<close> bytes, so that no encoding reaches the
  limits of 64-bit sizes.  Statements about hashes take the set of tries of a run and assume that keccak has no
  collision on their encodings.

  \<^bold>\<open>Not modelled.\<close>  Reading the write-ahead log at the start, the peer-to-peer layer (\<open>network/\<close>: sockets, gossip and
  peer bookkeeping), the asynchronous executor (a goroutine around a callback), logging, metrics and the RPC
  interface; reflective RLP decoding.  Of the tries: the clean cache in front of the disk, reference counting, garbage
  collection and flushing of the database, iterators, synchronisation, the wrapper with hashed keys, and how
  \<open>trieDag\<close> fills its graph (no constructor of a trie creates one).  The rest of the repository (virtual machines,
  state database, transaction pool, p2p, wallets, staking contracts, commands) is only called by the consensus or not at all,
  and enters through the parameters above.
\<close>

section \<open>Agreement in a view\<close>

definition sent_preimages :: "engine \<Rightarrow> bytes set" where
  "sent_preimages e = preimage_pv ` set (votes_sent e) \<union> preimage_pc ` set (precommits_sent e)"

text \<open>The signers of a verified certificate are a quorum of the epoch's validators.\<close>

lemma verified_quorum:
  assumes "verifyPrepareQC B k vp n h (Some q) = Inr None" "validators_of vp (q_Epoch q) = Inr vs" "wf_validators vs"
  shows "qs.quorum (Len_vs vs) (unat ` set (signers (q_ValidatorSet q)))" "0 < Len_vs vs"
proof -
  let ?S = "signers (q_ValidatorSet q)"
  have "certified B k vs q"
  proof (rule verifyPrepareQC_sound [OF assms(1)])
    fix q' vs' assume "Some q = Some q'" "validators_of vp (q_Epoch q') = Inr vs'" "certified B k vs' q'"
    then show ?thesis using assms(2) by simp
  qed
  then have c: "threshold (Len_vs vs) \<le> length ?S" "?S \<noteq> []" "\<forall>i\<in>set ?S. unat i < length (sorted_of vs)"
    unfolding certified_def by blast+
  have len: "length (sorted_of vs) = Len_vs vs"
    using sorted_of_wf [OF assms(3)] by (simp add: Len_vs_def)
  have "card (unat ` set ?S) = length ?S" using distinct_card [OF distinct_signers [of "q_ValidatorSet q"]] by simp
  then show "qs.quorum (Len_vs vs) (unat ` set ?S)" unfolding qs.quorum_def using c(1,3) by (simp add: len image_subset_iff)
  have "hd ?S \<in> set ?S" using c(2) by simp
  then have "unat (hd ?S) < Len_vs vs" using c(3) len by simp
  then show "0 < Len_vs vs" by simp
qed

text \<open>The slot of a certificate, and the messages an engine can have sent for it.\<close>

definition slot :: "quorumCert \<Rightarrow> u64 \<times> u64 \<times> u64 \<times> roundStepType" where
  "slot q = (q_BlockNumber q, q_Epoch q, q_ViewNumber q, q_Step q)"

lemma sent_preimage_cases:
  assumes "preimage_qc q \<in> sent_preimages e"
  obtains (vote) p where "p \<in> set (votes_sent e)" "q_Step q = RoundStepPrepareVote" "slot q = (fst (pv_key p), fst (snd (pv_key p)), snd (snd (pv_key p)), RoundStepPrepareVote)"
      "pv_BlockHash p = q_BlockHash q" "pv_BlockIndex p = q_BlockIndex q"
  | (precommit) p where "p \<in> set (precommits_sent e)" "q_Step q = RoundStepPreCommit" "slot q = (fst (pc_key p), fst (snd (pc_key p)), snd (snd (pc_key p)), RoundStepPreCommit)"
      "pc_BlockHash p = q_BlockHash q" "pc_BlockIndex p = q_BlockIndex q"
proof -
  have vote: "slot q = (fst (pv_key p), fst (snd (pv_key p)), snd (snd (pv_key p)), RoundStepPrepareVote) \<and> q_Step q = RoundStepPrepareVote
      \<and> pv_BlockHash p = q_BlockHash q \<and> pv_BlockIndex p = q_BlockIndex q" if "preimage_pv p = preimage_qc q" for p
    using that [unfolded preimage_pv_qc] by (simp add: slot_def pv_key_def)
  have precommit: "slot q = (fst (pc_key p), fst (snd (pc_key p)), snd (snd (pc_key p)), RoundStepPreCommit) \<and> q_Step q = RoundStepPreCommit
      \<and> pc_BlockHash p = q_BlockHash q \<and> pc_BlockIndex p = q_BlockIndex q" if "preimage_pc p = preimage_qc q" for p
    using that [unfolded preimage_pc_qc] by (simp add: slot_def pc_key_def)
  consider p where "p \<in> set (votes_sent e)" "preimage_pv p = preimage_qc q" | p where "p \<in> set (precommits_sent e)" "preimage_pc p = preimage_qc q"
    using assms unfolding sent_preimages_def by (elim UnE imageE) simp_all
  then show thesis using that vote precommit by cases blast+
qed

text \<open>An engine sends one message per slot.\<close>

lemma sent_once:
  assumes "send_inv e" "preimage_qc q1 \<in> sent_preimages e" "preimage_qc q2 \<in> sent_preimages e" "slot q1 = slot q2"
  shows "q_BlockHash q1 = q_BlockHash q2 \<and> q_BlockIndex q1 = q_BlockIndex q2"
proof -
  have "distinct (map pv_key (votes_sent e))" "distinct (map pc_key (precommits_sent e))"
    using send_inv_sorted [OF assms(1)] by (simp_all add: strict_sorted_iff)
  then have inj: "inj_on pv_key (set (votes_sent e))" "inj_on pc_key (set (precommits_sent e))"
    by (simp_all add: distinct_map)
  show ?thesis using assms(2)
  proof (cases rule: sent_preimage_cases)
    case (vote p1)
    note p1 = this
    show ?thesis using assms(3)
    proof (cases rule: sent_preimage_cases)
      case (vote p2)
      then have "pv_key p1 = pv_key p2" using p1(3) assms(4) by (simp add: prod_eq_iff)
      then have "p1 = p2" using inj(1) p1(1) vote(1) by (simp add: inj_on_eq_iff)
      then show ?thesis using p1 vote by simp
    qed (use p1 assms(4) in \<open>simp add: slot_def\<close>)
  next
    case (precommit p1)
    note p1 = this
    show ?thesis using assms(3)
    proof (cases rule: sent_preimage_cases)
      case (precommit p2)
      then have "pc_key p1 = pc_key p2" using p1(3) assms(4) by (simp add: prod_eq_iff)
      then have "p1 = p2" using inj(2) p1(1) precommit(1) by (simp add: inj_on_eq_iff)
      then show ?thesis using p1 precommit by simp
    qed (use p1 assms(4) in \<open>simp add: slot_def\<close>)
  qed
qed


text \<open>Four validators, the second one faulty; the other three vote for block 5 and their votes make a certificate.\<close>

definition ex_result :: "nat \<Rightarrow> engine" where
  "ex_result i = (case run [(ex_env (word_of_nat i), EExecuted 5 7 False)] ex_engine of Inl _ \<Rightarrow> ex_engine | Inr e \<Rightarrow> e)"

lemma ex_result_run:
  assumes "i \<in> {0, 2, 3}"
  shows "run [(ex_env (word_of_nat i), EExecuted 5 7 False)] ex_engine = Inr (ex_result i)
    \<and> votes_sent (ex_result i) = [ex_vote (word_of_nat i)] \<and> precommits_sent (ex_result i) = []"
proof -
  have "\<exists>e. run [(ex_env (word_of_nat i), EExecuted 5 7 False)] ex_engine = Inr e \<and> votes_sent e = [ex_vote (word_of_nat i)]
      \<and> precommits_sent e = []"
    using assms ex_votes [OF ex_validators(1)] ex_votes [OF ex_validators(2)] ex_votes [OF ex_validators(3)] by auto
  then show ?thesis by (auto simp: ex_result_def)
qed

lemma ex_preimage: "preimage_pv (ex_vote i) = preimage_pv (cert_vote 0)"
  by (simp add: preimage_pv_def ex_vote_def cert_vote_def ev_vote_def)

lemma ex_certificates:
  "\<exists>q. preimage_qc q = preimage_pv (cert_vote 0) \<and> set (signers (q_ValidatorSet q)) = {0, 2, 3}
    \<and> verifyPrepareQC sum_bls k cert_pool 7 5 (Some q) = Inr None"
  "\<exists>q. preimage_qc q = preimage_pv (cert_vote 0) \<and> set (signers (q_ValidatorSet q)) = {0, 1, 2}
    \<and> verifyPrepareQC sum_bls k cert_pool 7 5 (Some q) = Inr None"
  using generatePrepareQC_verifies [OF sum_bls_ok cert_pool_1 wf_cert_validators _ _ signed_cert_votes(1) [of k]]
    generatePrepareQC_verifies [OF sum_bls_ok cert_pool_1 wf_cert_validators _ _ signed_cert_votes(2) [of k]]
  by (auto simp: Len_vs_def cert_validators_def cert_votes_def cert_vote_def ev_vote_def threshold_def insert_commute)


end
